(* ===== verification/Prelude.thy ===== *)
theory Prelude
  imports Main "HOL-Library.Word"
begin

text \<open>
  Shared vocabulary of the development: the machine integer types of \<open>types.h\<close>, the
  outcome type of a kernel operation together with its sequencing operators, little-endian
  byte codecs for the on-disk structures, and generic lemmas on lists, options and words.

  A kernel operation is a function from a state to an outcome.  \<open>Ok\<close> carries the returned
  value and the new state.  \<open>Swtch\<close> is the state in which the calling thread gave the CPU
  back to the scheduler (\<open>sched()\<close> of \<open>proc.c\<close> called \<open>swtch\<close>; what other threads do before it
  runs again is not part of the operation), \<open>Panic\<close> is a call of \<open>panic()\<close> with its message,
  \<open>Fault\<close> is undefined behaviour of the C code (a null pointer dereferenced, an array index
  out of range, a conversion out of range), \<open>Hang\<close> is a loop that never ends.
\<close>

unbundle bit_operations_syntax

named_theorems ops \<comment> \<open>unfolding rules of the sequencing operators and small state accessors\<close>
named_theorems frame \<comment> \<open>which part of the state an operation leaves alone\<close>

type_synonym uint = "32 word"
type_synonym ushort = "16 word"
type_synonym uchar = "8 word"
type_synonym bytes = "uchar list"

subsection \<open>Outcomes and sequencing\<close>

datatype ('a, 's) res = Ok 'a 's | Swtch 's | Panic string | Fault | Hang

abbreviation ret :: "'a \<Rightarrow> 's \<Rightarrow> ('a, 's) res" where
  "ret \<equiv> Ok"

definition panic :: "string \<Rightarrow> 's \<Rightarrow> ('a, 's) res" where
  "panic m s = Panic m"

definition fault :: "'s \<Rightarrow> ('a, 's) res" where
  "fault s = Fault"

definition hang :: "'s \<Rightarrow> ('a, 's) res" where
  "hang s = Hang"

definition bnd :: "('s \<Rightarrow> ('a, 's) res) \<Rightarrow> ('a \<Rightarrow> 's \<Rightarrow> ('b, 's) res) \<Rightarrow> 's \<Rightarrow> ('b, 's) res" where
  "bnd m f s = (case m s of Ok a s' \<Rightarrow> f a s' | Swtch s' \<Rightarrow> Swtch s' | Panic e \<Rightarrow> Panic e
                | Fault \<Rightarrow> Fault | Hang \<Rightarrow> Hang)"

definition seq :: "('s \<Rightarrow> ('a, 's) res) \<Rightarrow> ('s \<Rightarrow> ('b, 's) res) \<Rightarrow> 's \<Rightarrow> ('b, 's) res" where
  "seq m k = bnd m (\<lambda>_. k)"

definition gets :: "('s \<Rightarrow> 'a) \<Rightarrow> 's \<Rightarrow> ('a, 's) res" where
  "gets f s = Ok (f s) s"

definition modify :: "('s \<Rightarrow> 's) \<Rightarrow> 's \<Rightarrow> (unit, 's) res" where
  "modify f s = Ok () (f s)"

definition whenM :: "bool \<Rightarrow> ('s \<Rightarrow> (unit, 's) res) \<Rightarrow> 's \<Rightarrow> (unit, 's) res" where
  "whenM b m = (if b then m else ret ())"

text \<open>A pointer that must not be null, and an array index that must be in range.\<close>

definition deref :: "'p option \<Rightarrow> 's \<Rightarrow> ('p, 's) res" where
  "deref p = (case p of None \<Rightarrow> fault | Some q \<Rightarrow> ret q)"

definition in_range :: "bool \<Rightarrow> 's \<Rightarrow> (unit, 's) res" where
  "in_range b = (if b then ret () else fault)"

text \<open>A result of signed 32-bit arithmetic; outside this range the C expression is undefined.\<close>

definition int_range :: "int \<Rightarrow> bool" where
  "int_range x \<longleftrightarrow> - (2 ^ 31) \<le> x \<and> x < 2 ^ 31"

fun forM :: "'x list \<Rightarrow> ('x \<Rightarrow> 's \<Rightarrow> (unit, 's) res) \<Rightarrow> 's \<Rightarrow> (unit, 's) res" where
  "forM [] f = ret ()"
| "forM (x # xs) f = seq (f x) (forM xs f)"

lemma panic_apply [ops, simp]: "panic m s = Panic m" by (simp add: panic_def)
lemma fault_apply [ops, simp]: "fault s = Fault" by (simp add: fault_def)
lemma hang_apply [ops, simp]: "hang s = Hang" by (simp add: hang_def)
lemma gets_apply [ops, simp]: "gets f s = Ok (f s) s" by (simp add: gets_def)
lemma modify_apply [ops, simp]: "modify f s = Ok () (f s)" by (simp add: modify_def)

lemma whenM_simps [simp]: "whenM True m = m" "whenM False m = ret ()"
  by (simp_all add: whenM_def)

lemma deref_simps [simp]: "deref (Some p) = ret p" "deref None = fault"
  by (simp_all add: deref_def)

lemma in_range_simps [simp]: "in_range True = ret ()" "in_range False = fault"
  by (simp_all add: in_range_def)

lemma bnd_Ok: "m s = Ok a s' \<Longrightarrow> bnd m f s = f a s'"
  by (simp add: bnd_def)

lemma bnd_ret [simp]: "bnd (ret a) f = f a"
  by (rule ext) (simp add: bnd_def)

lemma bnd_gets [simp]: "bnd (gets g) f s = f (g s) s"
  by (simp add: bnd_def)

lemma bnd_modify [simp]: "bnd (modify g) f s = f () (g s)"
  by (simp add: bnd_def)

lemma bnd_fails [simp]:
  "bnd (panic e) f = panic e" "bnd fault f = fault" "bnd hang f = hang"
  by (rule ext, simp add: bnd_def)+

lemma bnd_assoc: "bnd (bnd m f) g = bnd m (\<lambda>a. bnd (f a) g)"
  by (rule ext) (simp add: bnd_def split: res.splits)

lemma seq_simps [simp]:
  "seq (ret a) k = k" "seq (modify g) k s = k (g s)" "seq (panic e) k = panic e"
  "seq fault k = fault" "seq hang k = hang"
  by (simp_all add: seq_def fun_eq_iff bnd_def)

lemma seq_assoc [simp]:
  "seq (seq a b) c = seq a (seq b c)" "bnd (seq a b) f = seq a (bnd b f)"
  "seq (bnd m g) c = bnd m (\<lambda>x. seq (g x) c)"
  by (simp_all add: seq_def bnd_assoc)

lemma seq_Ok: "m s = Ok a s' \<Longrightarrow> seq m k s = k s'"
  by (simp add: seq_def bnd_def)

lemma bnd_eq_Ok: "bnd m f s = Ok b t \<longleftrightarrow> (\<exists>a s'. m s = Ok a s' \<and> f a s' = Ok b t)"
  by (simp add: bnd_def split: res.splits)

lemma seq_eq_Ok: "seq m k s = Ok b t \<longleftrightarrow> (\<exists>a s'. m s = Ok a s' \<and> k s' = Ok b t)"
  by (simp add: seq_def bnd_eq_Ok)

lemma whenM_eq_Ok:
  "whenM b m s = Ok u t \<longleftrightarrow> (if b then m s = Ok u t else t = s)"
  by (auto simp: whenM_def)

lemma deref_eq_Ok: "deref p s = Ok q t \<longleftrightarrow> p = Some q \<and> t = s"
  by (auto simp: deref_def split: option.splits)

lemma in_range_eq_Ok: "in_range b s = Ok u t \<longleftrightarrow> b \<and> t = s"
  by (auto simp: in_range_def)

lemmas Ok_elims = bnd_eq_Ok seq_eq_Ok whenM_eq_Ok deref_eq_Ok in_range_eq_Ok

text \<open>A loop over a list keeps what its body keeps.\<close>

lemma forM_invariant:
  assumes "\<And>x s t. x \<in> set xs \<Longrightarrow> P s \<Longrightarrow> f x s = Ok () t \<Longrightarrow> P t"
    and "P s" and "forM xs f s = Ok () t"
  shows "P t"
  using assms
proof (induction xs arbitrary: s)
  case Nil
  then show ?case by simp
next
  case (Cons x xs)
  from Cons.prems(3) obtain s' where 1: "f x s = Ok () s'" and 2: "forM xs f s' = Ok () t"
    by (auto simp: seq_eq_Ok)
  have "P s'" using Cons.prems(1,2) 1 by auto
  then show ?case using Cons.IH Cons.prems(1) 2 by auto
qed

lemma forM_append: "forM (xs @ ys) f = seq (forM xs f) (forM ys f)"
proof (induction xs)
  case (Cons x xs)
  then show ?case by simp
qed simp

lemma forM_Ok_map:
  assumes "\<And>x s. x \<in> set xs \<Longrightarrow> f x s = Ok () (g x s)"
  shows "forM xs f s = Ok () (fold g xs s)"
  using assms by (induction xs arbitrary: s) (auto simp: seq_Ok)

subsection \<open>Lists used as arrays\<close>

lemma nth_list_update_map:
  "i < length xs \<Longrightarrow> map f (xs[i := x]) = (map f xs)[i := f x]"
  by (simp add: map_update)

lemma list_update_nth_same [simp]: "i < length xs \<Longrightarrow> xs[i := xs ! i] = xs"
  by simp

text \<open>The first position from which a predicate holds: the shape of every table scan.\<close>

definition find_index :: "('a \<Rightarrow> bool) \<Rightarrow> 'a list \<Rightarrow> nat option" where
  "find_index P xs = (case filter (\<lambda>i. P (xs ! i)) [0..<length xs] of [] \<Rightarrow> None | i # _ \<Rightarrow> Some i)"

lemma find_index_SomeD:
  assumes "find_index P xs = Some i"
  shows "i < length xs" "P (xs ! i)" "\<And>j. j < i \<Longrightarrow> \<not> P (xs ! j)"
proof -
  let ?l = "filter (\<lambda>i. P (xs ! i)) [0..<length xs]"
  from assms obtain js where l: "?l = i # js"
    by (auto simp: find_index_def split: list.splits)
  then have "i \<in> set ?l" by simp
  then show *: "i < length xs" "P (xs ! i)" by auto
  fix j assume "j < i"
  show "\<not> P (xs ! j)"
  proof
    assume "P (xs ! j)"
    with \<open>j < i\<close> * have "j \<in> set ?l" by auto
    moreover have "sorted ?l" by (simp add: sorted_wrt_filter)
    ultimately have "i \<le> j" using l by auto
    with \<open>j < i\<close> show False by simp
  qed
qed

lemma find_index_None: "find_index P xs = None \<longleftrightarrow> (\<forall>x \<in> set xs. \<not> P x)"
proof
  assume "find_index P xs = None"
  then show "\<forall>x \<in> set xs. \<not> P x"
    by (auto simp: find_index_def in_set_conv_nth filter_empty_conv split: list.splits)
next
  assume "\<forall>x \<in> set xs. \<not> P x"
  then have "filter (\<lambda>i. P (xs ! i)) [0..<length xs] = []"
    by (simp add: filter_empty_conv)
  then show "find_index P xs = None"
    by (simp add: find_index_def)
qed

lemma find_index_SomeI:
  assumes "i < length xs" "P (xs ! i)" "\<And>j. j < i \<Longrightarrow> \<not> P (xs ! j)"
  shows "find_index P xs = Some i"
proof (cases "find_index P xs")
  case None
  with assms show ?thesis by (auto simp: find_index_None)
next
  case (Some j)
  then have "j < length xs" "P (xs ! j)" "\<And>k. k < j \<Longrightarrow> \<not> P (xs ! k)"
    by (auto dest: find_index_SomeD)
  with assms have "i = j" by (metis linorder_neqE_nat)
  with Some show ?thesis by simp
qed

lemma find_index_cong_map:
  "(\<And>x. P x = Q (f x)) \<Longrightarrow> find_index P xs = find_index Q (map f xs)"
proof -
  assume "\<And>x. P x = Q (f x)"
  then have "filter (\<lambda>i. P (xs ! i)) [0..<length xs] = filter (\<lambda>i. Q (map f xs ! i)) [0..<length (map f xs)]"
    by (auto intro: filter_cong)
  then show ?thesis by (simp add: find_index_def)
qed

subsection \<open>Splicing a byte run into a block\<close>

text \<open>\<open>splice d off xs\<close> is \<open>memmove(d + off, xs, length xs)\<close> on an array: the run lies inside.\<close>

definition splice :: "'a list \<Rightarrow> nat \<Rightarrow> 'a list \<Rightarrow> 'a list" where
  "splice d off xs = take off d @ xs @ drop (off + length xs) d"

definition slice :: "'a list \<Rightarrow> nat \<Rightarrow> nat \<Rightarrow> 'a list" where
  "slice d off n = take n (drop off d)"

lemma length_slice: "length (slice d off n) = min n (length d - off)"
  by (simp add: slice_def)

lemma length_slice_ok [simp]: "off + n \<le> length d \<Longrightarrow> length (slice d off n) = n"
  by (simp add: slice_def)

lemma length_splice [simp]: "off + length xs \<le> length d \<Longrightarrow> length (splice d off xs) = length d"
  by (simp add: splice_def)

lemma nth_slice: "off + n \<le> length d \<Longrightarrow> i < n \<Longrightarrow> slice d off n ! i = d ! (off + i)"
  by (simp add: slice_def)

lemma nth_splice:
  "off + length xs \<le> length d \<Longrightarrow> i < length d \<Longrightarrow>
    splice d off xs ! i = (if off \<le> i \<and> i < off + length xs then xs ! (i - off) else d ! i)"
  by (auto simp: splice_def nth_append min_def)

lemma slice_splice_same: "off + length xs \<le> length d \<Longrightarrow> slice (splice d off xs) off (length xs) = xs"
  by (simp add: slice_def splice_def)

lemma slice_splice_other:
  assumes "off + length xs \<le> length d" "off' + n \<le> length d"
    and "off' + n \<le> off \<or> off + length xs \<le> off'"
  shows "slice (splice d off xs) off' n = slice d off' n"
  using assms by (intro nth_equalityI) (auto simp: nth_slice nth_splice)

lemma splice_slice_same: "off + n \<le> length d \<Longrightarrow> splice d off (slice d off n) = d"
  by (intro nth_equalityI) (auto simp: nth_slice nth_splice)

subsection \<open>Little-endian integers in byte arrays\<close>

definition le16 :: "ushort \<Rightarrow> bytes" where
  "le16 w = [ucast w, ucast (drop_bit 8 w)]"

definition le32 :: "uint \<Rightarrow> bytes" where
  "le32 w = [ucast w, ucast (drop_bit 8 w), ucast (drop_bit 16 w), ucast (drop_bit 24 w)]"

definition un16 :: "bytes \<Rightarrow> ushort" where
  "un16 bs = ucast (bs ! 0) OR push_bit 8 (ucast (bs ! 1))"

definition un32 :: "bytes \<Rightarrow> uint" where
  "un32 bs = ucast (bs ! 0) OR push_bit 8 (ucast (bs ! 1))
             OR push_bit 16 (ucast (bs ! 2)) OR push_bit 24 (ucast (bs ! 3))"

lemma length_le16 [simp]: "length (le16 w) = 2" by (simp add: le16_def)
lemma length_le32 [simp]: "length (le32 w) = 4" by (simp add: le32_def)

lemma un16_le16 [simp]: "un16 (le16 w) = w"
  by (rule bit_word_eqI) (auto simp: un16_def le16_def bit_simps not_less)

lemma un32_le32 [simp]: "un32 (le32 w) = w"
proof (rule bit_word_eqI)
  fix n
  assume "n < LENGTH(32)"
  then consider "n < 8" | "8 \<le> n" "n < 16" | "16 \<le> n" "n < 24" | "24 \<le> n" "n < 32"
    by fastforce
  then show "bit (un32 (le32 w)) n = bit w n"
    by cases (auto simp: un32_def le32_def bit_simps)
qed

end
