(* ===== verification/Cstring.thy ===== *)
theory Cstring
  imports Prelude "HOL-Library.Signed_Division"
begin

text \<open>
  The byte and string routines of \<open>string.c\<close> (kernel) and \<open>ulib.c\<close> (user).

  The routines that write through arbitrary pointers (\<open>memset\<close>, \<open>memmove\<close>, \<open>memcmp\<close>)
  work on a flat 32-bit byte memory, so that overlapping ranges are visible.  The string
  routines read through a pointer that only moves forward: such a pointer is the list of
  the bytes from it on, and reading at the end of the list gives the terminating NUL.
\<close>

type_synonym mem = "uint \<Rightarrow> uchar"

subsection \<open>memset, memcmp, memmove (string.c)\<close>

text \<open>The x86 string stores used by \<open>memset\<close> (\<open>x86.h\<close>): \<open>cnt\<close> bytes or \<open>cnt\<close> words.\<close>

primrec stosb :: "nat \<Rightarrow> uint \<Rightarrow> uchar \<Rightarrow> mem \<Rightarrow> mem" where
  "stosb 0 a c m = m"
| "stosb (Suc k) a c m = stosb k (a + 1) c (m(a := c))"

definition store32 :: "uint \<Rightarrow> uint \<Rightarrow> mem \<Rightarrow> mem" where
  "store32 a w m = m(a := ucast w, a + 1 := ucast (drop_bit 8 w),
                     a + 2 := ucast (drop_bit 16 w), a + 3 := ucast (drop_bit 24 w))"

definition load32 :: "uint \<Rightarrow> mem \<Rightarrow> uint" where
  "load32 a m = un32 [m a, m (a + 1), m (a + 2), m (a + 3)]"

primrec stosl :: "nat \<Rightarrow> uint \<Rightarrow> uint \<Rightarrow> mem \<Rightarrow> mem" where
  "stosl 0 a w m = m"
| "stosl (Suc k) a w m = stosl k (a + 4) w (store32 a w m)"

definition memset :: "uint \<Rightarrow> uint \<Rightarrow> uint \<Rightarrow> mem \<Rightarrow> mem" where
  "memset dst c n m =
     (if sint dst smod 4 = 0 \<and> n mod 4 = 0
      then (let c = c AND 0xFF
            in stosl (unat (n div 4)) dst (push_bit 24 c OR push_bit 16 c OR push_bit 8 c OR c) m)
      else stosb (unat n) dst (ucast c) m)"

fun memcmp :: "uint \<Rightarrow> uint \<Rightarrow> nat \<Rightarrow> mem \<Rightarrow> int" where
  "memcmp s1 s2 0 m = 0"
| "memcmp s1 s2 (Suc n) m =
     (if m s1 \<noteq> m s2 then uint (m s1) - uint (m s2) else memcmp (s1 + 1) (s2 + 1) n m)"

primrec copy_fwd :: "nat \<Rightarrow> uint \<Rightarrow> uint \<Rightarrow> mem \<Rightarrow> mem" where
  "copy_fwd 0 d s m = m"
| "copy_fwd (Suc n) d s m = copy_fwd n (d + 1) (s + 1) (m(d := m s))"

primrec copy_bwd :: "nat \<Rightarrow> uint \<Rightarrow> uint \<Rightarrow> mem \<Rightarrow> mem" where
  "copy_bwd 0 d s m = m"
| "copy_bwd (Suc n) d s m = copy_bwd n (d - 1) (s - 1) (m(d - 1 := m (s - 1)))"

definition memmove :: "uint \<Rightarrow> uint \<Rightarrow> uint \<Rightarrow> mem \<Rightarrow> mem" where
  "memmove d s n m =
     (if s < d \<and> s + n > d then copy_bwd (unat n) (d + n) (s + n) m else copy_fwd (unat n) d s m)"

text \<open>\<open>ulib.c\<close> has a \<open>memmove\<close> of its own, which always copies forward.\<close>

definition memmove_user :: "uint \<Rightarrow> uint \<Rightarrow> int \<Rightarrow> mem \<Rightarrow> mem" where
  "memmove_user d s n m = copy_fwd (nat n) d s m"

subsection \<open>String routines (string.c, ulib.c)\<close>

definition deref_char :: "bytes \<Rightarrow> uchar" where
  "deref_char p = (case p of [] \<Rightarrow> 0 | c # _ \<Rightarrow> c)"

fun strncmp :: "bytes \<Rightarrow> bytes \<Rightarrow> nat \<Rightarrow> int" where
  "strncmp p q 0 = 0"
| "strncmp p q (Suc n) =
     (if deref_char p \<noteq> 0 \<and> deref_char p = deref_char q
      then strncmp (tl p) (tl q) n
      else uint (deref_char p) - uint (deref_char q))"

text \<open>
  \<open>strncpy(s, t, n)\<close>: the destination is an array of bytes.  The first loop copies until it
  has copied a NUL or the count is used up, the second one fills what is left with zeros.
\<close>

fun strncpy_copy :: "bytes \<Rightarrow> bytes \<Rightarrow> nat \<Rightarrow> bytes \<times> bytes \<times> nat" where
  "strncpy_copy w t 0 = (w, t, 0)"
| "strncpy_copy w t (Suc n) =
     (if deref_char t \<noteq> 0 then strncpy_copy (w @ [deref_char t]) (tl t) n
      else (w @ [0], tl t, n))"

definition strncpy :: "bytes \<Rightarrow> bytes \<Rightarrow> nat \<Rightarrow> bytes" where
  "strncpy s t n =
     (case strncpy_copy [] t n of (w, _, k) \<Rightarrow> splice s 0 (w @ replicate k 0))"

fun safestrcpy_copy :: "bytes \<Rightarrow> bytes \<Rightarrow> int \<Rightarrow> bytes" where
  "safestrcpy_copy w t n =
     (if n - 1 > 0
      then (if deref_char t \<noteq> 0 then safestrcpy_copy (w @ [deref_char t]) (tl t) (n - 1)
            else w @ [0])
      else w)"
declare safestrcpy_copy.simps [simp del]

definition safestrcpy :: "bytes \<Rightarrow> bytes \<Rightarrow> int \<Rightarrow> bytes" where
  "safestrcpy s t n = (if n \<le> 0 then s else splice s 0 (safestrcpy_copy [] t n @ [0]))"

fun strlen :: "bytes \<Rightarrow> nat" where
  "strlen [] = 0"
| "strlen (c # s) = (if c \<noteq> 0 then Suc (strlen s) else 0)"

fun strcpy_copy :: "bytes \<Rightarrow> bytes" where
  "strcpy_copy [] = [0]"
| "strcpy_copy (c # t) = (if c \<noteq> 0 then c # strcpy_copy t else [0])"

definition strcpy :: "bytes \<Rightarrow> bytes \<Rightarrow> bytes" where
  "strcpy s t = splice s 0 (strcpy_copy t)"

fun strcmp :: "bytes \<Rightarrow> bytes \<Rightarrow> int" where
  "strcmp [] q = 0 - uint (deref_char q)"
| "strcmp (c # p) q =
     (if c \<noteq> 0 \<and> c = deref_char q then strcmp p (tl q) else uint c - uint (deref_char q))"

fun strchr :: "bytes \<Rightarrow> uchar \<Rightarrow> bytes option" where
  "strchr [] c = None"
| "strchr (x # s) c = (if x = 0 then None else if x = c then Some (x # s) else strchr s c)"

fun atoi_loop :: "bytes \<Rightarrow> int \<Rightarrow> int" where
  "atoi_loop [] n = n"
| "atoi_loop (c # s) n =
     (if 48 \<le> c \<and> c \<le> 57 then atoi_loop s (n * 10 + sint c - 48) else n)"

definition atoi :: "bytes \<Rightarrow> int" where
  "atoi s = atoi_loop s 0"

subsection \<open>Ranges of a flat memory\<close>

text \<open>
  The range of \<open>n\<close> bytes from \<open>a\<close> is \<open>{x. unat (x - a) < n}\<close>; subtraction wraps with the
  address, so the loops below need no assumption that the range stays below the top.
\<close>

lemma off_Suc: "x \<noteq> a \<Longrightarrow> unat (x - (a + 1)) = unat (x - a) - 1" for x a :: uint
  using unat_minus_one [of "x - a"] by (simp add: diff_diff_eq [symmetric])

lemma unat_minus_one_word_32: "unat (- 1 :: uint) = 2 ^ 32 - 1"
  by (simp add: unsigned_minus_1_eq_mask mask_eq_exp_minus_1)

lemma off_wrap: "unat (a - (a + 1)) = 2 ^ 32 - 1" for a :: uint
proof -
  have "a - (a + 1) = - 1" by simp
  then show ?thesis by (simp add: unat_minus_one_word_32)
qed

lemma shift_Suc: "(s + 1) + (x - (d + 1)) = s + (x - d)" "(d + 1) - (s + 1) = d - s"
  for s x d :: uint
  by simp_all

lemma stosb_apply:
  "k \<le> 2 ^ 32 \<Longrightarrow> stosb k a c m x = (if unat (x - a) < k then c else m x)"
proof (induction k arbitrary: a m)
  case (Suc k)
  show ?case
  proof (cases "x = a")
    case True
    with Suc off_wrap [of a] show ?thesis by simp
  next
    case False
    then have "0 < unat (x - a)" by (simp add: unat_gt_0)
    with False Suc show ?thesis by (auto simp: off_Suc)
  qed
qed simp

lemma copy_fwd_apply:
  assumes "n \<le> 2 ^ 32" "d = s \<or> n \<le> unat (d - s)"
  shows "copy_fwd n d s m x = (if unat (x - d) < n then m (s + (x - d)) else m x)"
  using assms
proof (induction n arbitrary: d s m)
  case (Suc n)
  let ?m = "m(d := m s)"
  have IH: "copy_fwd n (d + 1) (s + 1) ?m x =
      (if unat (x - (d + 1)) < n then ?m (s + (x - d)) else ?m x)"
  proof -
    have "n \<le> 2 ^ 32" "d + 1 = s + 1 \<or> n \<le> unat ((d + 1) - (s + 1))"
      using Suc.prems by auto
    from Suc.IH [OF this, of ?m] show ?thesis by (simp only: shift_Suc)
  qed
  show ?case
  proof (cases "x = d")
    case True
    with IH Suc.prems off_wrap [of d] show ?thesis by simp
  next
    case False
    then have pos: "0 < unat (x - d)" by (simp add: unat_gt_0)
    have "?m (s + (x - d)) = m (s + (x - d))" if "unat (x - d) < Suc n"
    proof (cases "s + (x - d) = d \<and> d \<noteq> s")
      case True
      then have "x - d = d - s" by (simp add: algebra_simps)
      with that True Suc.prems(2) show ?thesis by auto
    qed auto
    with IH False pos show ?thesis by (auto simp: off_Suc)
  qed
qed simp

lemma copy_bwd_apply:
  assumes "n \<le> 2 ^ 32" "d = s \<or> n \<le> unat (s - d)"
  shows "copy_bwd n (d + of_nat n) (s + of_nat n) m x =
      (if unat (x - d) < n then m (s + (x - d)) else m x)"
  using assms
proof (induction n arbitrary: m)
  case (Suc n)
  let ?m = "m(d + of_nat n := m (s + of_nat n))"
  have IH: "copy_bwd n (d + of_nat n) (s + of_nat n) ?m x =
      (if unat (x - d) < n then ?m (s + (x - d)) else ?m x)"
  proof -
    have "n \<le> 2 ^ 32" "d = s \<or> n \<le> unat (s - d)"
      using Suc.prems by auto
    from Suc.IH [OF this, of ?m] show ?thesis .
  qed
  have step: "copy_bwd (Suc n) (d + of_nat (Suc n)) (s + of_nat (Suc n)) m x =
      copy_bwd n (d + of_nat n) (s + of_nat n) ?m x"
    by simp
  have n32: "unat (of_nat n :: uint) = n"
    using Suc.prems(1) by (simp add: unat_of_nat take_bit_nat_eq_self_iff)
  show ?case
  proof (cases "x = d + of_nat n")
    case True
    with IH step n32 show ?thesis by simp
  next
    case False
    then have "x - d \<noteq> of_nat n" by (auto simp: algebra_simps)
    then have ne: "unat (x - d) \<noteq> n" using n32 by (auto simp: word_unat_eq_iff)
    have "?m (s + (x - d)) = m (s + (x - d))" if "unat (x - d) < n"
    proof (cases "s + (x - d) = d + of_nat n")
      case True
      then have "s - d = of_nat n - (x - d)" by (simp add: algebra_simps)
      also have "unat \<dots> = n - unat (x - d)"
        using that n32 by (subst unat_sub) (auto simp: word_le_nat_alt)
      finally have "unat (s - d) < Suc n" by simp
      with Suc.prems(2) have "d = s" by auto
      with True show ?thesis by (auto simp: algebra_simps)
    qed auto
    with IH step ne False show ?thesis by auto
  qed
qed simp

text \<open>
  The four bytes of \<open>store32\<close> are the little-endian digits of the word, so storing the
  replicated byte word by word is the same as storing the byte.
\<close>

lemma byte_mask: "c AND 0xFF = take_bit 8 c" for c :: uint
  by (simp add: take_bit_eq_mask mask_eq_exp_minus_1)

lemma replicated_byte:
  fixes c :: uint
  defines "w \<equiv> push_bit 24 (take_bit 8 c) OR push_bit 16 (take_bit 8 c) OR push_bit 8 (take_bit 8 c) OR take_bit 8 c"
  shows "ucast w = (ucast c :: uchar)" "ucast (drop_bit 8 w) = (ucast c :: uchar)"
    "ucast (drop_bit 16 w) = (ucast c :: uchar)" "ucast (drop_bit 24 w) = (ucast c :: uchar)"
  unfolding w_def by (rule bit_word_eqI, simp add: bit_simps)+

lemma stosb_4: "stosb 4 a c m = m(a := c, a + 1 := c, a + 2 := c, a + 3 := c)"
  by (simp add: eval_nat_numeral add.assoc)

lemma stosb_add: "stosb (j + k) a c m = stosb k (a + of_nat j) c (stosb j a c m)"
  by (induction j arbitrary: a m) (simp_all add: add.assoc)

lemma stosl_stosb:
  assumes "ucast w = c" "ucast (drop_bit 8 w) = c" "ucast (drop_bit 16 w) = c" "ucast (drop_bit 24 w) = c"
  shows "stosl k a w m = stosb (4 * k) a c m"
proof (induction k arbitrary: a m)
  case (Suc k)
  have "store32 a w m = stosb 4 a c m"
    using assms by (simp add: store32_def stosb_4)
  moreover have "stosb (4 * Suc k) a c m = stosb (4 * k) (a + 4) c (stosb 4 a c m)"
    using stosb_add [of 4 "4 * k" a c m] by simp
  ultimately show ?case using Suc by simp
qed simp

lemma memset_stosb: "memset dst c n m = stosb (unat n) dst (ucast c) m"
proof (cases "sint dst smod 4 = 0 \<and> n mod 4 = 0")
  case True
  then have "unat n mod 4 = 0" using unat_mod [of n 4] by simp
  then have "4 * unat (n div 4) = unat n" by (auto simp: unat_div)
  with True show ?thesis
    by (simp add: memset_def Let_def byte_mask stosl_stosb [OF replicated_byte])
qed (auto simp: memset_def)

subsection \<open>What the string routines compute\<close>

text \<open>The C string a pointer denotes: its bytes up to the first NUL.\<close>

definition cstr :: "bytes \<Rightarrow> bytes" where
  "cstr p = takeWhile (\<lambda>c. c \<noteq> 0) p"

lemma cstr_simps [simp]: "cstr [] = []" "cstr (c # p) = (if c = 0 then [] else c # cstr p)"
  by (simp_all add: cstr_def)

lemma deref_char_simps [simp]: "deref_char [] = 0" "deref_char (c # p) = c"
  by (simp_all add: deref_char_def)

lemma cstr_step: "cstr p = (if deref_char p = 0 then [] else deref_char p # cstr (tl p))"
  by (cases p) auto

lemma zero_notin_cstr [simp]: "0 \<notin> set (cstr p)"
  by (auto simp: cstr_def dest: set_takeWhileD)

lemma strlen_cstr: "strlen p = length (cstr p)"
  by (induction p) auto

lemma strcpy_copy_cstr: "strcpy_copy t = cstr t @ [0]"
  by (induction t) auto

lemma strncpy_copy_cstr:
  "strncpy_copy w t n =
     (if length (cstr t) < n then (w @ cstr t @ [0], drop (Suc (length (cstr t))) t, n - Suc (length (cstr t)))
      else (w @ take n (cstr t), drop n t, 0))"
proof (induction w t n rule: strncpy_copy.induct)
  case (2 w t n)
  show ?case
  proof (cases "deref_char t = 0")
    case True
    then have "cstr t = []" by (subst cstr_step) simp
    with True show ?thesis by (simp add: drop_Suc)
  next
    case False
    then have "cstr t = deref_char t # cstr (tl t)" by (subst cstr_step) simp
    with 2 False show ?thesis by (simp add: drop_Suc)
  qed
qed simp

lemma strncpy_eq:
  "n \<le> length s \<Longrightarrow> strncpy s t n = take n (cstr t @ replicate n 0) @ drop n s"
proof (cases "length (cstr t) < n")
  case True
  then obtain k where k: "n = Suc (length (cstr t)) + k" by (metis less_eq_Suc_le le_iff_add)
  assume "n \<le> length s"
  with k show ?thesis
    by (simp add: strncpy_def strncpy_copy_cstr splice_def replicate_append_same take_replicate
        flip: replicate_Suc)
next
  case False
  assume "n \<le> length s"
  with False show ?thesis
    by (simp add: strncpy_def strncpy_copy_cstr splice_def)
qed

lemma safestrcpy_copy_cstr:
  "safestrcpy_copy w t n =
     w @ (if int (length (cstr t)) < n - 1 then cstr t @ [0] else take (nat (n - 1)) (cstr t))"
proof (induction w t n rule: safestrcpy_copy.induct)
  case (1 w t n)
  show ?case
  proof (cases "n - 1 > 0")
    case False
    then show ?thesis by (subst safestrcpy_copy.simps) simp
  next
    case pos: True
    then obtain k where k: "nat (n - 1) = Suc k" by (cases "nat (n - 1)") auto
    show ?thesis
    proof (cases "deref_char t = 0")
      case True
      then have "cstr t = []" by (subst cstr_step) simp
      with True pos show ?thesis by (subst safestrcpy_copy.simps) simp
    next
      case False
      then have c: "cstr t = deref_char t # cstr (tl t)" by (subst cstr_step) simp
      have "nat (n - 1 - 1) = k" using k by simp
      with 1 [OF pos False] pos False k show ?thesis
        by (subst safestrcpy_copy.simps) (auto simp: c)
    qed
  qed
qed

subsection \<open>Properties\<close>

text \<open>
  Claim C23.  \<open>memmove\<close> copies \<open>n\<close> bytes from \<open>s\<close> to \<open>d\<close> as if through a temporary, whether or not
  the two ranges overlap and in whichever direction, and changes no other byte; the ranges
  must not reach past the top of the address space.
\<close>

theorem memmove_correct:
  assumes "unat s + unat n < 2 ^ 32" and "unat d + unat n \<le> 2 ^ 32"
  shows "memmove d s n m x = (if unat (x - d) < unat n then m (s + (x - d)) else m x)"
proof (cases "s < d \<and> s + n > d")
  case True
  then have "unat s < unat d" by (simp add: word_less_nat_alt)
  then have "unat (s - d) = 2 ^ 32 + unat s - unat d"
    by (simp add: unat_sub_if')
  with assms have "unat n \<le> unat (s - d)" by simp
  then show ?thesis
    using True copy_bwd_apply [of "unat n" d s m x] assms by (simp add: memmove_def)
next
  case False
  have "d = s \<or> unat n \<le> unat (d - s)"
  proof (cases "unat s < unat d")
    case True
    with False assms have "unat (s + n) = unat s + unat n" "\<not> s + n > d"
      by (auto simp: word_less_nat_alt unat_word_ariths)
    with True show ?thesis by (auto simp: word_less_nat_alt unat_sub_if')
  next
    case False
    with assms show ?thesis by (auto simp: unat_sub_if' word_unat_eq_iff)
  qed
  with False assms copy_fwd_apply [of "unat n" d s m x] show ?thesis
    by (auto simp: memmove_def)
qed

theorem memmove_correct_witness:
  "memmove 101 100 3 (\<lambda>a. ucast a) 103 = 102"
  using memmove_correct [of 100 3 101 "\<lambda>a. ucast a" 103] by simp

text \<open>
  Claim C24.  The word-at-a-time path of \<open>memset\<close> and its byte path have the same effect: exactly the
  \<open>n\<close> bytes from \<open>dst\<close> become the low byte of \<open>c\<close>.
\<close>

theorem memset_fill:
  "memset dst c n m x = (if unat (x - dst) < unat n then ucast c else m x)"
proof -
  have "unat n < 2 ^ LENGTH(32)" by (rule unsigned_less)
  then have "unat n \<le> 2 ^ 32" by simp
  then show ?thesis by (simp add: memset_stosb stosb_apply)
qed

text \<open>
  Claim C3.  \<open>strncmp\<close> returns 0 exactly when the two C strings agree on their first \<open>n\<close> bytes, a
  string that ends earlier counting as ending there.
\<close>

theorem strncmp_eq_0:
  "strncmp p q n = 0 \<longleftrightarrow> take n (cstr p) = take n (cstr q)"
proof (induction p q n rule: strncmp.induct)
  case (2 p q n)
  then show ?case
    using cstr_step [of p] cstr_step [of q] by (auto simp: word_uint_eq_iff)
qed simp

text \<open>
  \<open>safestrcpy\<close> into an array of at least \<open>n > 0\<close> bytes leaves a NUL-terminated string there,
  the first \<open>n - 1\<close> bytes of the source string at most, and does not touch the array past
  its first \<open>n\<close> bytes.
\<close>

theorem safestrcpy_terminated:
  assumes "0 < n" and "n \<le> int (length s)"
  shows "cstr (safestrcpy s t n) = take (nat (n - 1)) (cstr t) \<and>
    length (safestrcpy s t n) = length s \<and>
    drop (nat n) (safestrcpy s t n) = drop (nat n) s"
proof -
  let ?w = "safestrcpy_copy [] t n"
  have w: "?w = (if int (length (cstr t)) < n - 1 then cstr t @ [0] else take (nat (n - 1)) (cstr t))"
    by (simp add: safestrcpy_copy_cstr)
  have len: "length ?w + 1 \<le> nat n"
    using assms by (auto simp: w)
  have eq: "safestrcpy s t n = ?w @ [0] @ drop (length ?w + 1) s"
    using assms by (simp add: safestrcpy_def splice_def)
  have "cstr (u @ 0 # v) = u" if "0 \<notin> set u" for u v
    using that by (simp add: cstr_def takeWhile_append)
  moreover have "0 \<notin> set (take k (cstr t))" for k
    by (meson in_set_takeD zero_notin_cstr)
  ultimately have "cstr (safestrcpy s t n) = take (nat (n - 1)) (cstr t)"
    using eq w by auto
  moreover have "length (safestrcpy s t n) = length s"
    using eq len assms by simp
  moreover have "drop (nat n) (safestrcpy s t n) = drop (nat n) s"
  proof -
    obtain k where "nat n = length (?w @ [0]) + k"
      using len by (metis le_iff_add length_append_singleton Suc_eq_plus1)
    then show ?thesis by (simp add: eq add.commute)
  qed
  ultimately show ?thesis by simp
qed

theorem safestrcpy_terminated_witness:
  "cstr (safestrcpy (replicate 4 7) [104, 101, 108, 108, 111] 4) = [104, 101, 108]"
  using safestrcpy_terminated [of 4 "replicate 4 7" "[104, 101, 108, 108, 111]"]
  by simp

end
