(* ===== verification/Grep.thy ===== *)
theory Grep
  imports Cstring
begin

text \<open>
  The pattern matcher and the line loop of \<open>grep.c\<close>, and the language the matcher decides.

  Patterns and texts are C strings; \<open>re[1]\<close> is the NUL when \<open>re\<close> has one byte left.  The
  successive results of \<open>read(fd, ...)\<close> are a list of byte strings, and what \<open>grep\<close> writes
  to file descriptor 1 is the byte string it returns.
\<close>

subsection \<open>match, matchhere, matchstar\<close>

abbreviation CARET :: uchar where "CARET \<equiv> 94"
abbreviation STAR :: uchar where "STAR \<equiv> 42"
abbreviation DOT :: uchar where "DOT \<equiv> 46"
abbreviation DOLLAR :: uchar where "DOLLAR \<equiv> 36"
abbreviation NL :: uchar where "NL \<equiv> 10"

function matchhere :: "bytes \<Rightarrow> bytes \<Rightarrow> bool" and matchstar :: "uchar \<Rightarrow> bytes \<Rightarrow> bytes \<Rightarrow> bool" where
  "matchhere re tx =
     (if re = [] then True
      else if deref_char (tl re) = STAR then matchstar (hd re) (tl (tl re)) tx
      else if hd re = DOLLAR \<and> tl re = [] then tx = []
      else if tx \<noteq> [] \<and> (hd re = DOT \<or> hd re = hd tx) then matchhere (tl re) (tl tx)
      else False)"
| "matchstar c re tx =
     (if matchhere re tx then True
      else if tx \<noteq> [] \<and> (hd tx = c \<or> c = DOT) then matchstar c re (tl tx)
      else False)"
  by pat_completeness auto
termination
proof (relation "measure (case_sum (\<lambda>(re, tx). 2 * length re + length tx)
    (\<lambda>(c, re, tx). Suc (2 * length re + length tx)))", goal_cases)
  case (2 re tx)
  then obtain c re' where "re = c # re'" by (cases re) auto
  then show ?case using 2 by (cases re') auto
next
  case (3 re tx)
  then show ?case by (cases re; cases tx) auto
next
  case (5 c re tx)
  then show ?case by (cases tx) auto
qed auto

declare matchhere.simps [simp del] matchstar.simps [simp del]

fun match_from :: "bytes \<Rightarrow> bytes \<Rightarrow> bool" where
  "match_from re [] = matchhere re []"
| "match_from re (c # tx) = (matchhere re (c # tx) \<or> match_from re tx)"

definition match :: "bytes \<Rightarrow> bytes \<Rightarrow> bool" where
  "match re tx = (if deref_char re = CARET then matchhere (tl re) tx else match_from re tx)"

subsection \<open>The line loop\<close>

text \<open>
  One pass of the inner loop: \<open>p\<close> is the unread part of the buffer.  Every complete line is
  matched and, with its newline, written out when it matches; the rest stays.
\<close>

function grep_lines :: "bytes \<Rightarrow> bytes \<Rightarrow> bytes \<Rightarrow> bytes \<times> bytes" where
  "grep_lines pattern p out =
     (case strchr p NL of
        None \<Rightarrow> (p, out)
      | Some q \<Rightarrow>
          (let line = take (length p - length q) p
           in grep_lines pattern (tl q) (if match pattern line then out @ line @ [NL] else out)))"
  by pat_completeness auto

lemma strchr_suffix: "strchr p c = Some q \<Longrightarrow> \<exists>u. p = u @ q \<and> q \<noteq> [] \<and> hd q = c \<and> c \<notin> set u"
proof (induction p)
  case (Cons x p)
  show ?case
  proof (cases "x = c")
    case True
    with Cons.prems show ?thesis by (auto split: if_splits)
  next
    case False
    with Cons obtain u where "p = u @ q" "q \<noteq> []" "hd q = c" "c \<notin> set u"
      by (auto split: if_splits)
    with False show ?thesis by (intro exI [of _ "x # u"]) auto
  qed
qed simp

termination grep_lines
proof (relation "measure (\<lambda>(_, p, _). length p)", goal_cases)
  case (2 pattern p out q)
  then show ?case by (auto dest!: strchr_suffix simp: less_Suc_eq_le gr0_conv_Suc neq_Nil_conv)
qed simp

declare grep_lines.simps [simp del]

text \<open>
  The outer loop: \<open>buf\<close> holds the \<open>m\<close> bytes kept, each \<open>read\<close> appends at most
  \<open>sizeof(buf) - m - 1\<close> bytes and the loop ends when one returns nothing.
\<close>

abbreviation GREPBUF :: nat where "GREPBUF \<equiv> 1024"

fun grep :: "bytes \<Rightarrow> bytes list \<Rightarrow> bytes \<Rightarrow> bytes \<Rightarrow> bytes" where
  "grep pattern [] buf out = out"
| "grep pattern (r # rs) buf out =
     (let n = take (GREPBUF - length buf - 1) r
      in if n = [] then out
         else (let b = buf @ n; (p, out') = grep_lines pattern b out
               in grep pattern rs (if length p = length b then [] else p) out'))"

subsection \<open>The language of a pattern\<close>

datatype sym = Any | Lit uchar
datatype item = One sym | Many sym

definition sym_of :: "uchar \<Rightarrow> sym" where
  "sym_of c = (if c = DOT then Any else Lit c)"

fun smatch :: "sym \<Rightarrow> uchar \<Rightarrow> bool" where
  "smatch Any x = True"
| "smatch (Lit c) x = (x = c)"

fun items :: "bytes \<Rightarrow> item list \<times> bool" where
  "items [] = ([], False)"
| "items [c] = (if c = DOLLAR then ([], True) else ([One (sym_of c)], False))"
| "items (c # d # re) =
     (if d = STAR then apfst ((#) (Many (sym_of c))) (items re)
      else apfst ((#) (One (sym_of c))) (items (d # re)))"

inductive spells :: "item list \<Rightarrow> bytes \<Rightarrow> bool" where
  spells_Nil: "spells [] []"
| spells_One: "smatch a x \<Longrightarrow> spells is w \<Longrightarrow> spells (One a # is) (x # w)"
| spells_Many: "\<forall>x \<in> set u. smatch a x \<Longrightarrow> spells is w \<Longrightarrow> spells (Many a # is) (u @ w)"

inductive_cases spells_NilE: "spells [] w"
inductive_cases spells_OneE: "spells (One a # is) w"
inductive_cases spells_ManyE: "spells (Many a # is) w"
inductive_simps spells_Nil_iff: "spells [] w"
inductive_simps spells_One_iff: "spells (One a # is) w"

text \<open>A tx starts with the pattern: some prefix spells it, all of it if the pattern ends in \<open>$\<close>.\<close>

definition starts_with :: "item list \<times> bool \<Rightarrow> bytes \<Rightarrow> bool" where
  "starts_with p tx = (\<exists>u v. tx = u @ v \<and> spells (fst p) u \<and> (snd p \<longrightarrow> v = []))"

lemma starts_with_Nil: "starts_with ([], e) tx \<longleftrightarrow> (e \<longrightarrow> tx = [])"
  by (auto simp: starts_with_def spells_Nil_iff)

lemma starts_with_OneE:
  assumes "starts_with (One a # is, e) tx"
  obtains x w v where "tx = (x # w) @ v" "smatch a x" "spells is w" "e \<longrightarrow> v = []"
proof -
  from assms obtain u v where "tx = u @ v" "spells (One a # is) u" "e \<longrightarrow> v = []"
    by (auto simp: starts_with_def)
  with that show ?thesis by (blast elim: spells_OneE)
qed

lemma starts_with_ManyE:
  assumes "starts_with (Many a # is, e) tx"
  obtains u w v where "tx = (u @ w) @ v" "\<forall>x \<in> set u. smatch a x" "spells is w" "e \<longrightarrow> v = []"
proof -
  from assms obtain u v where "tx = u @ v" "spells (Many a # is) u" "e \<longrightarrow> v = []"
    by (auto simp: starts_with_def)
  with that show ?thesis by (blast elim: spells_ManyE)
qed

lemma starts_with_One:
  "starts_with (One a # is, e) tx \<longleftrightarrow> tx \<noteq> [] \<and> smatch a (hd tx) \<and> starts_with (is, e) (tl tx)"
proof
  assume "starts_with (One a # is, e) tx"
  then obtain x w v where "tx = (x # w) @ v" "smatch a x" "spells is w" "e \<longrightarrow> v = []"
    by (rule starts_with_OneE)
  then show "tx \<noteq> [] \<and> smatch a (hd tx) \<and> starts_with (is, e) (tl tx)"
    unfolding starts_with_def by auto
next
  assume r: "tx \<noteq> [] \<and> smatch a (hd tx) \<and> starts_with (is, e) (tl tx)"
  then obtain x t where t: "tx = x # t" by (cases tx) auto
  with r obtain u v where "t = u @ v" "spells is u" "e \<longrightarrow> v = []"
    by (auto simp: starts_with_def)
  moreover from this r t have "spells (One a # is) (x # u)" by (auto intro: spells_One)
  ultimately have "tx = (x # u) @ v \<and> spells (One a # is) (x # u) \<and> (e \<longrightarrow> v = [])"
    using t by simp
  then show "starts_with (One a # is, e) tx"
    unfolding starts_with_def by (metis fst_conv snd_conv)
qed

lemma starts_with_Many:
  "starts_with (Many a # is, e) tx \<longleftrightarrow>
     starts_with (is, e) tx \<or>
     tx \<noteq> [] \<and> smatch a (hd tx) \<and> starts_with (Many a # is, e) (tl tx)" (is "?l \<longleftrightarrow> ?r")
proof
  assume ?l
  then obtain u w v where t: "tx = (u @ w) @ v" and u: "\<forall>x \<in> set u. smatch a x"
    and w: "spells is w" and v: "e \<longrightarrow> v = []"
    by (rule starts_with_ManyE)
  show ?r
  proof (cases u)
    case Nil
    with t w v show ?thesis by (auto simp: starts_with_def)
  next
    case (Cons x u')
    with u w have "spells (Many a # is) (u' @ w)" by (auto intro: spells_Many)
    then have "starts_with (Many a # is, e) ((u' @ w) @ v)"
      unfolding starts_with_def using v by (metis fst_conv snd_conv)
    with t Cons u show ?thesis by simp
  qed
next
  assume ?r
  then show ?l
  proof
    assume "starts_with (is, e) tx"
    then obtain w v where "tx = w @ v" "spells is w" "e \<longrightarrow> v = []"
      by (auto simp: starts_with_def)
    moreover from this have "spells (Many a # is) ([] @ w)" by (intro spells_Many) auto
    ultimately show ?l by (auto simp: starts_with_def)
  next
    assume r: "tx \<noteq> [] \<and> smatch a (hd tx) \<and> starts_with (Many a # is, e) (tl tx)"
    then obtain x t where t: "tx = x # t" by (cases tx) auto
    with r have "starts_with (Many a # is, e) t" by simp
    then obtain u w v where "t = (u @ w) @ v" "\<forall>x \<in> set u. smatch a x" "spells is w" "e \<longrightarrow> v = []"
      by (rule starts_with_ManyE)
    moreover from this r t have "spells (Many a # is) ((x # u) @ w)"
      by (intro spells_Many) auto
    ultimately have "tx = ((x # u) @ w) @ v \<and> spells (Many a # is) ((x # u) @ w) \<and> (e \<longrightarrow> v = [])"
      using t by simp
    then show ?l unfolding starts_with_def by (metis fst_conv snd_conv)
  qed
qed

text \<open>\<open>matchhere\<close> and \<open>matchstar\<close> decide \<open>starts_with\<close>.\<close>

lemma smatch_sym_of: "smatch (sym_of c) x \<longleftrightarrow> c = DOT \<or> c = x"
  by (auto simp: sym_of_def)

lemma items_star: "items (c # STAR # re) = apfst ((#) (Many (sym_of c))) (items re)"
  by simp

lemma items_plain:
  "re \<noteq> [] \<Longrightarrow> deref_char (tl re) \<noteq> STAR \<Longrightarrow> \<not> (hd re = DOLLAR \<and> tl re = []) \<Longrightarrow>
    items re = apfst ((#) (One (sym_of (hd re)))) (items (tl re))"
  by (cases re rule: items.cases) auto

lemma starts_with_apfst_Many:
  "starts_with (apfst ((#) (Many a)) p) tx \<longleftrightarrow>
     starts_with p tx \<or> tx \<noteq> [] \<and> smatch a (hd tx) \<and> starts_with (apfst ((#) (Many a)) p) (tl tx)"
  using starts_with_Many [of a "fst p" "snd p" tx] by (cases p) simp

lemma starts_with_apfst_One:
  "starts_with (apfst ((#) (One a)) p) tx \<longleftrightarrow>
     tx \<noteq> [] \<and> smatch a (hd tx) \<and> starts_with p (tl tx)"
  using starts_with_One [of a "fst p" "snd p" tx] by (cases p) simp

lemma matchhere_matchstar:
  "matchhere re tx \<longleftrightarrow> starts_with (items re) tx"
  "matchstar c re tx \<longleftrightarrow> starts_with (apfst ((#) (Many (sym_of c))) (items re)) tx"
proof (induction re tx and c re tx rule: matchhere_matchstar.induct)
  case (1 re tx)
  consider "re = []" | "re \<noteq> []" "deref_char (tl re) = STAR" | "re = [DOLLAR]"
    | "re \<noteq> []" "deref_char (tl re) \<noteq> STAR" "\<not> (hd re = DOLLAR \<and> tl re = [])"
    by (cases re) auto
  then show ?case
  proof cases
    case 1
    then show ?thesis by (simp add: matchhere.simps starts_with_Nil)
  next
    case 2
    then obtain c re' where re: "re = c # STAR # re'"
      by (cases re rule: items.cases) auto
    with "1.IH"(1) show ?thesis by (simp add: matchhere.simps [of "c # STAR # re'"])
  next
    case 3
    then show ?thesis by (simp add: matchhere.simps starts_with_Nil)
  next
    case 4
    then show ?thesis
      using "1.IH"(2) by (auto simp: matchhere.simps [of re] items_plain starts_with_apfst_One smatch_sym_of)
  qed
next
  case (2 c re tx)
  then show ?case
    by (subst starts_with_apfst_Many) (auto simp: matchstar.simps [of c re tx] smatch_sym_of)
qed

lemma match_from_iff: "match_from re tx \<longleftrightarrow> (\<exists>u v. tx = u @ v \<and> matchhere re v)"
proof (induction tx)
  case (Cons c tx)
  show ?case
  proof
    assume "match_from re (c # tx)"
    then consider "matchhere re (c # tx)" | "match_from re tx" by auto
    then show "\<exists>u v. c # tx = u @ v \<and> matchhere re v"
    proof cases
      case 1
      then show ?thesis by (intro exI [of _ "[]"] exI [of _ "c # tx"]) simp
    next
      case 2
      with Cons obtain u v where "tx = u @ v" "matchhere re v" by auto
      then show ?thesis by (intro exI [of _ "c # u"] exI [of _ v]) simp
    qed
  next
    assume "\<exists>u v. c # tx = u @ v \<and> matchhere re v"
    then obtain u v where "c # tx = u @ v" "matchhere re v" by auto
    then show "match_from re (c # tx)" using Cons by (cases u) auto
  qed
qed simp

text \<open>The lines of a buffer and what is left after the last newline.\<close>

definition unlines :: "bytes list \<Rightarrow> bytes" where
  "unlines ls = concat (map (\<lambda>l. l @ [NL]) ls)"

lemma strchr_NL: "0 \<notin> set l \<Longrightarrow> NL \<notin> set l \<Longrightarrow> strchr (l @ NL # r) NL = Some (NL # r)"
  by (induction l) auto

lemma strchr_None: "NL \<notin> set p \<Longrightarrow> strchr p NL = None"
  by (induction p) auto

lemma grep_lines_unlines:
  assumes "\<forall>l \<in> set ls. 0 \<notin> set l \<and> NL \<notin> set l" "NL \<notin> set r"
  shows "grep_lines pattern (unlines ls @ r) out = (r, out @ unlines (filter (match pattern) ls))"
  using assms
proof (induction ls arbitrary: out)
  case Nil
  then show ?case by (subst grep_lines.simps) (simp add: unlines_def strchr_None)
next
  case (Cons l ls)
  have "strchr (unlines (l # ls) @ r) NL = Some (NL # unlines ls @ r)"
    using Cons.prems strchr_NL [of l "unlines ls @ r"] by (simp add: unlines_def)
  moreover have "take (length (unlines (l # ls) @ r) - length (NL # unlines ls @ r)) (unlines (l # ls) @ r) = l"
    by (simp add: unlines_def)
  ultimately show ?case
    using Cons by (subst grep_lines.simps) (simp add: Let_def unlines_def)
qed

subsection \<open>Properties\<close>

text \<open>
  Claim C25.  The recursive matcher decides the language of the pattern: a pattern that starts with
  \<open>^\<close> matches when the text starts with a word of the rest of the pattern, any other one
  when the text does so somewhere.
\<close>

theorem match_correct:
  "match re tx \<longleftrightarrow>
     (if deref_char re = CARET then starts_with (items (tl re)) tx
      else \<exists>u v. tx = u @ v \<and> starts_with (items re) v)"
  by (simp add: match_def match_from_iff matchhere_matchstar)



text \<open>
  A \<open>read\<close> that returns no newline loses its bytes: the next one starts from an empty
  buffer, so a line that arrives in two pieces is matched and printed without its first
  piece.
\<close>

theorem grep_drops_partial_line:
  assumes "NL \<notin> set r" and "0 < length r" and "length r < GREPBUF"
  shows "grep pattern (r # rs) [] out = grep pattern rs [] out"
proof -
  have "grep_lines pattern r out = (r, out)"
    using assms by (subst grep_lines.simps) (simp add: strchr_None)
  with assms show ?thesis by (auto simp: Let_def)
qed

theorem grep_drops_partial_line_witness:
  "grep [97] [[97], [98, NL]] [] [] = [] \<and> grep [97] [[97, 98, NL]] [] [] = [97, 98, NL]"
  using grep_drops_partial_line [of "[97]" "[97]" "[[98, NL]]" "[]"]
  by (simp add: Let_def grep_lines.simps match_def match_from.simps matchhere.simps)

end
