(* ===== verification/Pool.thy ===== *)
theory Pool
  imports Prelude
begin

text \<open>
  The contract of an allocator: a set of free resources, an \<open>alloc\<close> that takes one out or reports
  that there is none, a \<open>dealloc\<close> that puts one back.  The page allocator and the file table
  provide it; what their clients rely on is proved once here.
\<close>

text \<open>Allocate \<open>n\<close> times, stopping at the first failure.\<close>

fun alloc_many :: "('s \<Rightarrow> ('p option, 's) res) \<Rightarrow> nat \<Rightarrow> 's \<Rightarrow> ('p list, 's) res" where
  "alloc_many alloc 0 = ret []"
| "alloc_many alloc (Suc n) = bnd alloc (\<lambda>r. case r of None \<Rightarrow> ret []
     | Some p \<Rightarrow> bnd (alloc_many alloc n) (\<lambda>ps. ret (p # ps)))"

locale pool =
  fixes inv :: "'s \<Rightarrow> bool"
    and free :: "'s \<Rightarrow> 'p set"
    and alloc :: "'s \<Rightarrow> ('p option, 's) res"
    and dealloc :: "'p \<Rightarrow> 's \<Rightarrow> (unit, 's) res"
    and used :: "'p \<Rightarrow> 's \<Rightarrow> bool"
  assumes fin: "inv s \<Longrightarrow> finite (free s)"
    and alloc_none: "inv s \<Longrightarrow> free s = {} \<Longrightarrow> alloc s = Ok None s"
    and alloc_some: "inv s \<Longrightarrow> free s \<noteq> {} \<Longrightarrow>
      \<exists>p s'. alloc s = Ok (Some p) s' \<and> inv s' \<and> p \<in> free s \<and> free s' = free s - {p} \<and> used p s'"
    and dealloc_ok: "inv s \<Longrightarrow> used p s \<Longrightarrow> p \<notin> free s \<Longrightarrow>
      \<exists>s'. dealloc p s = Ok () s' \<and> inv s' \<and> free s' = insert p (free s)"
begin

lemma alloc_cases:
  assumes "inv s"
  obtains (none) "free s = {}" "alloc s = Ok None s"
    | (some) p s' where "alloc s = Ok (Some p) s'" "inv s'" "p \<in> free s" "free s' = free s - {p}" "used p s'"
  using assms alloc_none alloc_some by blast

text \<open>\<open>n\<close> allocations give pairwise distinct resources, as many as there were, and take exactly those.\<close>

lemma alloc_many_distinct:
  assumes "inv s"
  shows "\<exists>ps s'. alloc_many alloc n s = Ok ps s' \<and> inv s' \<and> distinct ps \<and> set ps \<subseteq> free s \<and>
    free s' = free s - set ps \<and> length ps = min n (card (free s))"
  using assms
proof (induction n arbitrary: s)
  case 0
  then show ?case by simp
next
  case (Suc n)
  from Suc.prems show ?case
  proof (cases rule: alloc_cases)
    case none
    then show ?thesis using Suc.prems by (simp add: bnd_def)
  next
    case (some p s')
    from Suc.IH[OF some(2)] obtain ps t where t: "alloc_many alloc n s' = Ok ps t" "inv t" "distinct ps"
      "set ps \<subseteq> free s'" "free t = free s' - set ps" "length ps = min n (card (free s'))" by blast
    have "card (free s) = Suc (card (free s'))"
      using card.remove[OF fin[OF Suc.prems] some(3)] some(4) by simp
    then show ?thesis using some t by (auto simp: bnd_Ok intro!: exI[of _ "p # ps"] exI[of _ t])
  qed
qed

text \<open>What was just allocated can be given back, and the set of free resources is as before.\<close>

lemma alloc_dealloc:
  assumes "inv s" "alloc s = Ok (Some p) s'"
  shows "\<exists>t. dealloc p s' = Ok () t \<and> inv t \<and> free t = free s"
  using assms(1)
proof (cases rule: alloc_cases)
  case none
  then show ?thesis using assms(2) by simp
next
  case (some q u)
  then have "p \<notin> free s'" "used p s'" "inv s'" "p \<in> free s" "free s' = free s - {p}" using assms(2) by auto
  then show ?thesis using dealloc_ok[of s' p] by (auto simp: insert_absorb)
qed

end

end
