(* ===== verification/Locks.thy ===== *)
theory Locks
  imports Prelude
begin

text \<open>
  Spin locks (\<open>spinlock.c\<close>) and the per-CPU interrupt discipline (\<open>mycpu\<close>, \<open>cpuid\<close> of
  \<open>proc.c\<close>) on a machine with several CPUs.  The straight-line pieces of \<open>acquire\<close> and
  \<open>release\<close> between two atomic memory operations are functions; \<open>smp_step\<close> interleaves the
  pieces of all CPUs.  The invariant \<open>smp_inv\<close> of the reachable states gives mutual exclusion,
  the exactness of \<open>holding\<close>, and the balance of \<open>ncli\<close> with the number of locks held, which is
  what the rest of the development uses of a lock: a list \<open>held\<close> of the locks of the running
  thread, where \<open>acquire\<close> and \<open>release\<close> panic exactly on a lock held or not held.
\<close>

subsection \<open>Data\<close>

text \<open>The sleep locks of the buffers and the inodes, and all spin locks of the kernel.\<close>

datatype slid = SL_buf nat | SL_inode nat

datatype lockid = L_ptable | L_ttable | L_tickslock | L_log | L_icache | L_bcache | L_ftable
  | L_kmem | L_cons | L_ide | L_pipe uint | L_sleep slid

record cpu =
  apicid :: uchar
  ncli :: int
  intena :: bool
  IF :: bool \<comment> \<open>the interrupt flag of the CPU's \<open>eflags\<close> register\<close>

record spinlock =
  locked :: uint
  l_cpu :: "nat option" \<comment> \<open>index into \<open>cpus\<close>, \<open>None\<close> for the null pointer\<close>

record smp =
  cpus :: "cpu list"
  locks :: "lockid \<Rightarrow> spinlock"

subsection \<open>Operations\<close>

definition cpu_upd :: "nat \<Rightarrow> (cpu \<Rightarrow> cpu) \<Rightarrow> smp \<Rightarrow> smp" where
  "cpu_upd c f s = s\<lparr>cpus := (cpus s)[c := f (cpus s ! c)]\<rparr>"

definition lock_upd :: "lockid \<Rightarrow> (spinlock \<Rightarrow> spinlock) \<Rightarrow> smp \<Rightarrow> smp" where
  "lock_upd lk f s = s\<lparr>locks := (locks s)(lk := f (locks s lk))\<rparr>"

definition lapicid :: "nat \<Rightarrow> smp \<Rightarrow> uchar" where
  "lapicid c s = apicid (cpus s ! c)"

definition mycpu :: "nat \<Rightarrow> smp \<Rightarrow> (nat, smp) res" where
  "mycpu c s = (if IF (cpus s ! c) then panic ''mycpu called with interrupts enabled'' s
     else case find_index (\<lambda>x. apicid x = lapicid c s) (cpus s) of
       None \<Rightarrow> panic ''unknown apicid'' s | Some i \<Rightarrow> ret i s)"

definition cpuid :: "nat \<Rightarrow> smp \<Rightarrow> (nat, smp) res" where
  "cpuid c = mycpu c"

definition pushcli :: "nat \<Rightarrow> smp \<Rightarrow> (unit, smp) res" where
  "pushcli c =
    bnd (gets (\<lambda>s. IF (cpus s ! c))) (\<lambda>eflags.
    seq (modify (cpu_upd c (\<lambda>x. x\<lparr>IF := False\<rparr>)))
    (bnd (mycpu c) (\<lambda>i.
      modify (cpu_upd i (\<lambda>x. x\<lparr>intena := (if ncli x = 0 then eflags else intena x), ncli := ncli x + 1\<rparr>)))))"

definition popcli :: "nat \<Rightarrow> smp \<Rightarrow> (unit, smp) res" where
  "popcli c =
    bnd (gets (\<lambda>s. IF (cpus s ! c))) (\<lambda>eflags.
    if eflags then panic ''popcli - interruptible''
    else bnd (mycpu c) (\<lambda>i.
      seq (modify (cpu_upd i (\<lambda>x. x\<lparr>ncli := ncli x - 1\<rparr>)))
      (bnd (gets (\<lambda>s. cpus s ! i)) (\<lambda>x.
        if ncli x < 0 then panic ''popcli''
        else whenM (ncli x = 0 \<and> intena x) (modify (cpu_upd c (\<lambda>x. x\<lparr>IF := True\<rparr>)))))))"

definition initlock :: "lockid \<Rightarrow> smp \<Rightarrow> smp" where
  "initlock lk = lock_upd lk (\<lambda>_. \<lparr>locked = 0, l_cpu = None\<rparr>)"

definition holding :: "nat \<Rightarrow> lockid \<Rightarrow> smp \<Rightarrow> (bool, smp) res" where
  "holding c lk s = (if locked (locks s lk) = 0 then ret False s
     else bnd (mycpu c) (\<lambda>i. ret (l_cpu (locks s lk) = Some i)) s)"

text \<open>\<open>acquire\<close>: up to the loop, one atomic exchange, after the loop.\<close>

definition acquire_enter :: "nat \<Rightarrow> lockid \<Rightarrow> smp \<Rightarrow> (unit, smp) res" where
  "acquire_enter c lk = seq (pushcli c)
     (bnd (holding c lk) (\<lambda>h. if h then panic ''acquire'' else ret ()))"

definition acquire_xchg :: "lockid \<Rightarrow> smp \<Rightarrow> uint \<times> smp" where
  "acquire_xchg lk s = (locked (locks s lk), lock_upd lk (\<lambda>l. l\<lparr>locked := 1\<rparr>) s)"

definition acquire_record :: "nat \<Rightarrow> lockid \<Rightarrow> smp \<Rightarrow> (unit, smp) res" where
  "acquire_record c lk = bnd (mycpu c) (\<lambda>i. modify (lock_upd lk (\<lambda>l. l\<lparr>l_cpu := Some i\<rparr>)))"

text \<open>\<open>release\<close>: up to the barrier, the atomic store, the rest.\<close>

definition release_clear :: "nat \<Rightarrow> lockid \<Rightarrow> smp \<Rightarrow> (unit, smp) res" where
  "release_clear c lk = bnd (holding c lk) (\<lambda>h.
     if \<not> h then panic ''release'' else modify (lock_upd lk (\<lambda>l. l\<lparr>l_cpu := None\<rparr>)))"

definition release_store :: "lockid \<Rightarrow> smp \<Rightarrow> smp" where
  "release_store lk = lock_upd lk (\<lambda>l. l\<lparr>locked := 0\<rparr>)"

text \<open>Both operations run alone; a CPU that meets a taken lock spins for ever then.\<close>

definition spin_acquire :: "nat \<Rightarrow> lockid \<Rightarrow> smp \<Rightarrow> (unit, smp) res" where
  "spin_acquire c lk = seq (acquire_enter c lk) (\<lambda>s. case acquire_xchg lk s of (old, s') \<Rightarrow>
     if old \<noteq> 0 then hang s' else acquire_record c lk s')"

definition spin_release :: "nat \<Rightarrow> lockid \<Rightarrow> smp \<Rightarrow> (unit, smp) res" where
  "spin_release c lk = seq (release_clear c lk) (seq (modify (release_store lk)) (popcli c))"

subsection \<open>Interleaving\<close>

datatype pc = Run | Spinning lockid | Won lockid | Releasing lockid

text \<open>The machine, the control point of each CPU and the locks it owns, most recent first.\<close>

type_synonym conf = "smp \<times> (nat \<Rightarrow> pc) \<times> (nat \<Rightarrow> lockid list)"

inductive smp_step :: "conf \<Rightarrow> conf \<Rightarrow> bool" where
  acq_enter: "\<lbrakk>c < length (cpus s); pcs c = Run; acquire_enter c lk s = Ok () s'\<rbrakk>
    \<Longrightarrow> smp_step (s, pcs, own) (s', pcs(c := Spinning lk), own)"
| acq_spin: "\<lbrakk>c < length (cpus s); pcs c = Spinning lk; acquire_xchg lk s = (old, s'); old \<noteq> 0\<rbrakk>
    \<Longrightarrow> smp_step (s, pcs, own) (s', pcs, own)"
| acq_win: "\<lbrakk>c < length (cpus s); pcs c = Spinning lk; acquire_xchg lk s = (0, s')\<rbrakk>
    \<Longrightarrow> smp_step (s, pcs, own) (s', pcs(c := Won lk), own)"
| acq_record: "\<lbrakk>c < length (cpus s); pcs c = Won lk; acquire_record c lk s = Ok () s'\<rbrakk>
    \<Longrightarrow> smp_step (s, pcs, own) (s', pcs(c := Run), own(c := lk # own c))"
| rel_clear: "\<lbrakk>c < length (cpus s); pcs c = Run; release_clear c lk s = Ok () s'\<rbrakk>
    \<Longrightarrow> smp_step (s, pcs, own) (s', pcs(c := Releasing lk), own(c := remove1 lk (own c)))"
| rel_store: "\<lbrakk>c < length (cpus s); pcs c = Releasing lk; popcli c (release_store lk s) = Ok () s'\<rbrakk>
    \<Longrightarrow> smp_step (s, pcs, own) (s', pcs(c := Run), own)"
| intr_flag: "\<lbrakk>c < length (cpus s); pcs c = Run; ncli (cpus s ! c) = 0\<rbrakk>
    \<Longrightarrow> smp_step (s, pcs, own) (cpu_upd c (\<lambda>x. x\<lparr>IF := b\<rparr>) s, pcs, own)"

inductive_cases smp_stepE: "smp_step cf cf'"

definition smp_init :: "cpu list \<Rightarrow> conf" where
  "smp_init cs = (\<lparr>cpus = map (\<lambda>x. x\<lparr>ncli := 0\<rparr>) cs, locks = (\<lambda>_. \<lparr>locked = 0, l_cpu = None\<rparr>)\<rparr>,
     (\<lambda>_. Run), (\<lambda>_. []))"

text \<open>CPU \<open>c\<close> has won the exchange on \<open>lk\<close> and not yet stored zero.\<close>

definition has :: "(nat \<Rightarrow> pc) \<Rightarrow> (nat \<Rightarrow> lockid list) \<Rightarrow> nat \<Rightarrow> lockid \<Rightarrow> bool" where
  "has pcs own c lk \<longleftrightarrow> lk \<in> set (own c) \<or> pcs c = Won lk \<or> pcs c = Releasing lk"

definition cpu_ok :: "cpu \<Rightarrow> pc \<Rightarrow> lockid list \<Rightarrow> bool" where
  "cpu_ok x pc ls \<longleftrightarrow> ncli x = int (length ls) + (if pc = Run then 0 else 1) \<and>
     (0 < ncli x \<longrightarrow> \<not> IF x) \<and> distinct ls \<and>
     (case pc of Run \<Rightarrow> True | Spinning lk \<Rightarrow> lk \<notin> set ls | Won lk \<Rightarrow> lk \<notin> set ls | Releasing lk \<Rightarrow> lk \<notin> set ls)"

definition cpus_ok :: "conf \<Rightarrow> bool" where
  "cpus_ok cf = (case cf of (s, pcs, own) \<Rightarrow>
     distinct (map apicid (cpus s)) \<and>
     (\<forall>c < length (cpus s). cpu_ok (cpus s ! c) (pcs c) (own c)) \<and>
     (\<forall>c \<ge> length (cpus s). pcs c = Run \<and> own c = []))"

definition locks_ok :: "conf \<Rightarrow> bool" where
  "locks_ok cf = (case cf of (s, pcs, own) \<Rightarrow>
     (\<forall>lk. (locked (locks s lk) \<noteq> 0) = (\<exists>c. has pcs own c lk)) \<and>
     (\<forall>lk c c'. has pcs own c lk \<longrightarrow> has pcs own c' lk \<longrightarrow> c = c') \<and>
     (\<forall>lk c. (l_cpu (locks s lk) = Some c) = (lk \<in> set (own c))))"

definition smp_inv :: "conf \<Rightarrow> bool" where
  "smp_inv cf \<longleftrightarrow> cpus_ok cf \<and> locks_ok cf"

subsection \<open>The pieces, evaluated\<close>

lemma upd_sel [simp]:
  "cpus (lock_upd lk f s) = cpus s" "locks (cpu_upd c g s) = locks s"
  "locks (lock_upd lk f s) = (locks s)(lk := f (locks s lk))"
  "cpus (cpu_upd c g s) = (cpus s)[c := g (cpus s ! c)]"
  by (simp_all add: lock_upd_def cpu_upd_def)

lemma cpu_upd_twice [simp]:
  "c < length (cpus s) \<Longrightarrow> cpu_upd c f (cpu_upd c g s) = cpu_upd c (\<lambda>x. f (g x)) s"
  by (simp add: cpu_upd_def)

lemma mycpu_self:
  assumes "distinct (map apicid (cpus s))" "c < length (cpus s)" "\<not> IF (cpus s ! c)"
  shows "mycpu c s = Ok c s"
proof -
  have "find_index (\<lambda>x. apicid x = lapicid c s) (cpus s) = Some c"
    using assms(1,2) by (intro find_index_SomeI) (auto simp: lapicid_def distinct_conv_nth)
  then show ?thesis using assms(3) by (simp add: mycpu_def)
qed

lemma distinct_apicid_upd:
  assumes "distinct (map apicid xs)" "\<And>x. apicid (f x) = apicid x"
  shows "distinct (map apicid (xs[c := f (xs ! c)]))"
proof -
  have "map apicid (xs[c := f (xs ! c)]) = map apicid xs"
    using assms(2) by (cases "c < length xs") (auto intro!: nth_equalityI simp: nth_list_update)
  then show ?thesis using assms(1) by simp
qed

lemma pushcli_eq:
  assumes "distinct (map apicid (cpus s))" "c < length (cpus s)"
  shows "pushcli c s = Ok () (cpu_upd c
    (\<lambda>x. x\<lparr>IF := False, intena := (if ncli x = 0 then IF x else intena x), ncli := ncli x + 1\<rparr>) s)"
proof -
  let ?s = "cpu_upd c (\<lambda>x. x\<lparr>IF := False\<rparr>) s"
  have "mycpu c ?s = Ok c ?s"
    using assms by (intro mycpu_self) (auto intro!: distinct_apicid_upd)
  then show ?thesis
    using assms(2) by (auto simp: pushcli_def bnd_Ok cpu_upd_def)
qed

lemma IF_False_id: "\<not> IF x \<Longrightarrow> x\<lparr>ncli := n, IF := False\<rparr> = x\<lparr>ncli := n\<rparr>"
  by (cases x) simp

lemma popcli_eq:
  assumes "distinct (map apicid (cpus s))" "c < length (cpus s)" "\<not> IF (cpus s ! c)" "0 < ncli (cpus s ! c)"
  shows "popcli c s = Ok () (cpu_upd c
    (\<lambda>x. x\<lparr>ncli := ncli x - 1, IF := ncli x = 1 \<and> intena x\<rparr>) s)"
  using assms mycpu_self[OF assms(1-3)]
  by (auto simp: popcli_def bnd_Ok cpu_upd_def whenM_def IF_False_id)

text \<open>\<open>holding\<close> is exact: a CPU sees a lock as its own precisely when it owns it.\<close>

lemma holding_eq:
  assumes "smp_inv (s, pcs, own)" "c < length (cpus s)"
    and "\<not> IF (cpus s ! c) \<or> lk \<in> set (own c)"
  shows "holding c lk s = Ok (lk \<in> set (own c)) s"
proof -
  have ok: "cpu_ok (cpus s ! c) (pcs c) (own c)" and d: "distinct (map apicid (cpus s))"
    using assms(1,2) by (auto simp: smp_inv_def cpus_ok_def)
  have "\<not> IF (cpus s ! c)"
    using assms(3) ok by (cases "own c") (auto simp: cpu_ok_def)
  then have m: "mycpu c s = Ok c s" using d assms(2) by (intro mycpu_self)
  have "l_cpu (locks s lk) = Some c \<longleftrightarrow> lk \<in> set (own c)"
    and "lk \<in> set (own c) \<Longrightarrow> locked (locks s lk) \<noteq> 0"
    using assms(1) by (auto simp: smp_inv_def locks_ok_def has_def)
  then show ?thesis by (auto simp: holding_def bnd_Ok[of "mycpu c", OF m])
qed

subsection \<open>The invariant is kept by every step\<close>

lemma cpus_ok_upd:
  assumes "cpus_ok (s, pcs, own)" "c < length (cpus s)"
    and "cpus s' = (cpus s)[c := f (cpus s ! c)]" "\<And>x. apicid (f x) = apicid x"
    and "cpu_ok (f (cpus s ! c)) pc ls"
  shows "cpus_ok (s', pcs(c := pc), own(c := ls))"
  using assms by (auto simp: cpus_ok_def nth_list_update intro!: distinct_apicid_upd)

lemma cpus_okD:
  assumes "cpus_ok (s, pcs, own)" "c < length (cpus s)"
  shows "cpu_ok (cpus s ! c) (pcs c) (own c)" "distinct (map apicid (cpus s))"
  using assms by (auto simp: cpus_ok_def)

lemma cpus_ok_same:
  assumes "cpus_ok (s, pcs, own)" "c < length (cpus s)" "cpus s' = cpus s"
    and "cpu_ok (cpus s ! c) pc ls"
  shows "cpus_ok (s', pcs(c := pc), own(c := ls))"
  using cpus_ok_upd[OF assms(1,2), of s' "\<lambda>x. x" pc ls] assms(3,4) by simp

lemma step_acq_enter:
  assumes inv: "smp_inv (s, pcs, own)" and c: "c < length (cpus s)" "pcs c = Run"
    and e: "acquire_enter c lk s = Ok () s'"
  shows "smp_inv (s', pcs(c := Spinning lk), own)"
proof -
  let ?f = "\<lambda>x. x\<lparr>IF := False, intena := (if ncli x = 0 then IF x else intena x), ncli := ncli x + 1\<rparr>"
  have co: "cpus_ok (s, pcs, own)" and lo: "locks_ok (s, pcs, own)" using inv by (auto simp: smp_inv_def)
  note ok = cpus_okD[OF co c(1)]
  have p: "pushcli c s = Ok () (cpu_upd c ?f s)" by (rule pushcli_eq[OF ok(2) c(1)])
  then obtain h t where h: "holding c lk (cpu_upd c ?f s) = Ok h t" "\<not> h" and s': "s' = t"
    using e by (auto simp: acquire_enter_def seq_eq_Ok bnd_eq_Ok split: if_splits)
  have m: "mycpu c (cpu_upd c ?f s) = Ok c (cpu_upd c ?f s)"
    using ok(2) c(1) by (intro mycpu_self) (auto intro!: distinct_apicid_upd)
  have eq: "s' = cpu_upd c ?f s" and n: "lk \<notin> set (own c)"
    using h s' lo by (auto simp: holding_def bnd_def m locks_ok_def has_def split: if_splits)
  have "cpus_ok (s', pcs(c := Spinning lk), own(c := own c))"
    using ok(1) c n eq by (intro cpus_ok_upd[OF co c(1), of s' ?f]) (auto simp: cpu_ok_def)
  moreover have "has (pcs(c := Spinning lk)) own = has pcs own"
    using c by (auto simp: has_def fun_eq_iff)
  then have "locks_ok (s', pcs(c := Spinning lk), own)" using lo eq by (simp add: locks_ok_def)
  ultimately show ?thesis by (simp add: smp_inv_def)
qed

lemma step_acq_spin:
  assumes "smp_inv (s, pcs, own)" "acquire_xchg lk s = (old, s')" "old \<noteq> 0"
  shows "smp_inv (s', pcs, own)"
  using assms by (auto simp: smp_inv_def cpus_ok_def locks_ok_def acquire_xchg_def
      split: if_splits)

lemma step_acq_win:
  assumes inv: "smp_inv (s, pcs, own)" and c: "c < length (cpus s)" "pcs c = Spinning lk"
    and e: "acquire_xchg lk s = (0, s')"
  shows "smp_inv (s', pcs(c := Won lk), own)"
proof -
  have co: "cpus_ok (s, pcs, own)" and lo: "locks_ok (s, pcs, own)" using inv by (auto simp: smp_inv_def)
  have s': "s' = lock_upd lk (\<lambda>l. l\<lparr>locked := 1\<rparr>) s" and z: "locked (locks s lk) = 0"
    using e by (auto simp: acquire_xchg_def)
  have free: "\<not> has pcs own d lk" for d using lo z by (auto simp: locks_ok_def)
  have "cpus_ok (s', pcs(c := Won lk), own(c := own c))"
    using cpus_okD(1)[OF co c(1)] c s' by (intro cpus_ok_same[OF co c(1)]) (auto simp: cpu_ok_def)
  moreover have "has (pcs(c := Won lk)) own d l \<longleftrightarrow> (d = c \<and> l = lk) \<or> has pcs own d l" for d l
    using c by (auto simp: has_def)
  then have "locks_ok (s', pcs(c := Won lk), own)"
    using lo free by (auto simp: locks_ok_def s')
  ultimately show ?thesis by (simp add: smp_inv_def)
qed

lemma step_acq_record:
  assumes inv: "smp_inv (s, pcs, own)" and c: "c < length (cpus s)" "pcs c = Won lk"
    and e: "acquire_record c lk s = Ok () s'"
  shows "smp_inv (s', pcs(c := Run), own(c := lk # own c))"
proof -
  have co: "cpus_ok (s, pcs, own)" and lo: "locks_ok (s, pcs, own)" using inv by (auto simp: smp_inv_def)
  note ok = cpus_okD[OF co c(1)]
  have "\<not> IF (cpus s ! c)" using ok(1) c(2) by (auto simp: cpu_ok_def)
  then have m: "mycpu c s = Ok c s" using ok(2) c(1) by (intro mycpu_self)
  have s': "s' = lock_upd lk (\<lambda>l. l\<lparr>l_cpu := Some c\<rparr>) s"
    using e by (simp add: acquire_record_def bnd_Ok[of "mycpu c", OF m])
  have "has pcs own c lk" using c(2) by (simp add: has_def)
  then have only: "has pcs own d lk \<Longrightarrow> d = c" for d using lo by (auto simp: locks_ok_def)
  then have notown: "d \<noteq> c \<Longrightarrow> lk \<notin> set (own d)" for d by (auto simp: has_def)
  have "cpus_ok (s', pcs(c := Run), own(c := lk # own c))"
    using ok(1) c s' by (intro cpus_ok_same[OF co c(1)]) (auto simp: cpu_ok_def)
  moreover have "has (pcs(c := Run)) (own(c := lk # own c)) = has pcs own"
    using c(2) by (auto simp: has_def fun_eq_iff)
  then have "locks_ok (s', pcs(c := Run), own(c := lk # own c))"
    using lo notown by (auto simp: locks_ok_def s')
  ultimately show ?thesis by (simp add: smp_inv_def)
qed

lemma step_rel_clear:
  assumes inv: "smp_inv (s, pcs, own)" and c: "c < length (cpus s)" "pcs c = Run"
    and e: "release_clear c lk s = Ok () s'"
  shows "smp_inv (s', pcs(c := Releasing lk), own(c := remove1 lk (own c)))"
proof -
  have co: "cpus_ok (s, pcs, own)" and lo: "locks_ok (s, pcs, own)" using inv by (auto simp: smp_inv_def)
  note ok = cpus_okD[OF co c(1)]
  obtain h t where h: "holding c lk s = Ok h t" "h" and st: "s' = lock_upd lk (\<lambda>l. l\<lparr>l_cpu := None\<rparr>) t"
    using e by (auto simp: release_clear_def bnd_eq_Ok split: if_splits)
  have "IF (cpus s ! c) \<Longrightarrow> mycpu c s = Panic ''mycpu called with interrupts enabled''"
    by (simp add: mycpu_def)
  with h have "\<not> IF (cpus s ! c)"
    by (simp add: holding_def bnd_def split: if_splits) auto
  from holding_eq[OF inv c(1) disjI1[OF this], of lk] h
  have t: "t = s" and o: "lk \<in> set (own c)" by auto
  have "has pcs own c lk" using o by (simp add: has_def)
  then have only: "has pcs own d lk \<Longrightarrow> d = c" for d using lo by (auto simp: locks_ok_def)
  then have notown: "d \<noteq> c \<Longrightarrow> lk \<notin> set (own d)" for d by (auto simp: has_def)
  have len: "int (length (remove1 lk (own c))) = int (length (own c)) - 1" and di: "distinct (own c)"
    using o ok(1) length_pos_if_in_set[OF o]
    by (simp_all add: length_remove1 cpu_ok_def int_ops(6) Suc_leI)
  have "cpus_ok (s', pcs(c := Releasing lk), own(c := remove1 lk (own c)))"
    using ok(1) c st t o len di by (intro cpus_ok_same[OF co c(1)]) (auto simp: cpu_ok_def)
  moreover have "has (pcs(c := Releasing lk)) (own(c := remove1 lk (own c))) = has pcs own"
    using c(2) o di by (auto simp: has_def fun_eq_iff)
  then have "locks_ok (s', pcs(c := Releasing lk), own(c := remove1 lk (own c)))"
    using lo notown di by (auto simp: locks_ok_def st t)
  ultimately show ?thesis by (simp add: smp_inv_def)
qed

lemma step_rel_store:
  assumes inv: "smp_inv (s, pcs, own)" and c: "c < length (cpus s)" "pcs c = Releasing lk"
    and e: "popcli c (release_store lk s) = Ok () s'"
  shows "smp_inv (s', pcs(c := Run), own)"
proof -
  let ?f = "\<lambda>x. x\<lparr>ncli := ncli x - 1, IF := ncli x = 1 \<and> intena x\<rparr>"
  have co: "cpus_ok (s, pcs, own)" and lo: "locks_ok (s, pcs, own)" using inv by (auto simp: smp_inv_def)
  note ok = cpus_okD[OF co c(1)]
  have n: "\<not> IF (cpus s ! c)" "0 < ncli (cpus s ! c)" using ok(1) c(2) by (simp_all add: cpu_ok_def)
  have "popcli c (release_store lk s) = Ok () (cpu_upd c ?f (release_store lk s))"
    using ok(2) c(1) n by (intro popcli_eq) (simp_all add: release_store_def)
  then have s': "s' = cpu_upd c ?f (release_store lk s)" using e by simp
  have cs: "cpus s' = (cpus s)[c := ?f (cpus s ! c)]" by (simp add: s' release_store_def)
  have "cpu_ok (?f (cpus s ! c)) Run (own c)" using ok(1) c(2) by (auto simp: cpu_ok_def)
  then have "cpus_ok (s', pcs(c := Run), own(c := own c))"
    using cs by (intro cpus_ok_upd[OF co c(1), of s' ?f]) simp_all
  moreover have "has pcs own c lk" using c(2) by (simp add: has_def)
  then have only: "has pcs own d lk \<Longrightarrow> d = c" for d using lo by (auto simp: locks_ok_def)
  have "lk \<notin> set (own c)" using ok(1) c(2) by (simp add: cpu_ok_def)
  then have no: "lk \<notin> set (own d)" for d
    using only[of d] unfolding has_def by (cases "d = c") blast+
  have h: "has (pcs(c := Run)) own d l \<longleftrightarrow> l \<noteq> lk \<and> has pcs own d l" for d l
  proof (cases "d = c")
    case True
    then show ?thesis using c(2) no[of c] by (auto simp: has_def)
  next
    case False
    then show ?thesis using only[of d] by (auto simp: has_def)
  qed
  have "locks s' = (locks s)(lk := (locks s lk)\<lparr>locked := 0\<rparr>)" by (simp add: s' release_store_def)
  then have "locks_ok (s', pcs(c := Run), own)"
    using lo no by (simp add: locks_ok_def h) blast
  ultimately show ?thesis by (simp add: smp_inv_def)
qed

lemma step_intr_flag:
  assumes inv: "smp_inv (s, pcs, own)" and c: "c < length (cpus s)" "ncli (cpus s ! c) = 0"
  shows "smp_inv (cpu_upd c (\<lambda>x. x\<lparr>IF := b\<rparr>) s, pcs, own)"
proof -
  have co: "cpus_ok (s, pcs, own)" and lo: "locks_ok (s, pcs, own)" using inv by (auto simp: smp_inv_def)
  have "cpus_ok (cpu_upd c (\<lambda>x. x\<lparr>IF := b\<rparr>) s, pcs(c := pcs c), own(c := own c))"
    using cpus_okD(1)[OF co c(1)] c 
    by (intro cpus_ok_upd[OF co c(1), where f="\<lambda>x. x\<lparr>IF := b\<rparr>"]) (simp_all add: cpu_ok_def)
  then show ?thesis using lo by (simp add: smp_inv_def locks_ok_def)
qed

lemma smp_step_inv: "smp_step cf cf' \<Longrightarrow> smp_inv cf \<Longrightarrow> smp_inv cf'"
  by (induction rule: smp_step.induct)
     (blast intro: step_acq_enter step_acq_spin step_acq_win step_acq_record step_rel_clear
        step_rel_store step_intr_flag)+

lemma smp_init_inv: "distinct (map apicid cs) \<Longrightarrow> smp_inv (smp_init cs)"
  by (auto simp: smp_init_def smp_inv_def cpus_ok_def locks_ok_def has_def cpu_ok_def o_def)

lemma smp_reach_inv:
  assumes "smp_step\<^sup>*\<^sup>* (smp_init cs) cf" "distinct (map apicid cs)"
  shows "smp_inv cf"
  using assms(1) by (induction rule: rtranclp_induct) (auto intro: smp_init_inv[OF assms(2)] smp_step_inv)

subsection \<open>What a lock gives to its users\<close>

text \<open>
  Claim C1. Mutual exclusion: in every state reachable by interleaving the pieces of \<open>acquire\<close>
  and \<open>release\<close> of any number of CPUs, no two CPUs own the same lock, a CPU that owns a lock has
  its interrupts off, and \<open>ncli\<close> of a CPU outside \<open>acquire\<close> and \<open>release\<close> is the number of
  locks it owns (the test \<open>ncli != 1\<close> of \<open>sched\<close> therefore means: only \<open>ptable.lock\<close> is held).
\<close>

theorem spinlock_mutual_exclusion:
  assumes "smp_step\<^sup>*\<^sup>* (smp_init cs) (s, pcs, own)" "distinct (map apicid cs)"
    and "c < length (cpus s)" "d < length (cpus s)"
  shows "(lk \<in> set (own c) \<and> lk \<in> set (own d) \<longrightarrow> c = d) \<and>
    (own c \<noteq> [] \<longrightarrow> \<not> IF (cpus s ! c)) \<and>
    (pcs c = Run \<longrightarrow> ncli (cpus s ! c) = int (length (own c)))"
proof -
  have inv: "smp_inv (s, pcs, own)" by (rule smp_reach_inv[OF assms(1,2)])
  then have "cpu_ok (cpus s ! c) (pcs c) (own c)" using assms(3) by (simp add: smp_inv_def cpus_ok_def)
  moreover have "lk \<in> set (own c) \<and> lk \<in> set (own d) \<longrightarrow> c = d"
    using inv by (auto simp: smp_inv_def locks_ok_def has_def)
  ultimately show ?thesis by (cases "own c") (auto simp: cpu_ok_def)
qed

lemma smp_steps_example:
  "\<exists>s pcs own. smp_step\<^sup>*\<^sup>* (smp_init [\<lparr>apicid = 0, ncli = 0, intena = False, IF = True\<rparr>,
      \<lparr>apicid = 1, ncli = 0, intena = False, IF = True\<rparr>]) (s, pcs, own)
    \<and> own 0 = [L_ptable] \<and> pcs 1 = Spinning L_ptable \<and> pcs 0 = Run \<and> length (cpus s) = 2"
proof -
  let ?cs = "[\<lparr>apicid = 0, ncli = 0, intena = False, IF = True\<rparr>, \<lparr>apicid = 1, ncli = 0, intena = False, IF = True\<rparr>]"
  let ?s0 = "fst (smp_init ?cs)"
  let ?f = "\<lambda>x. x\<lparr>IF := False, intena := (if ncli x = 0 then IF x else intena x), ncli := ncli x + 1\<rparr>"
  define s1 where "s1 = cpu_upd 0 ?f ?s0"
  define s2 where "s2 = cpu_upd 1 ?f s1"
  have s1: "cpus s1 = [\<lparr>apicid = 0, ncli = 1, intena = True, IF = False\<rparr>, \<lparr>apicid = 1, ncli = 0, intena = False, IF = True\<rparr>]"
    "locks s1 = locks ?s0" by (simp_all add: s1_def smp_init_def)
  have s2: "cpus s2 = [\<lparr>apicid = 0, ncli = 1, intena = True, IF = False\<rparr>, \<lparr>apicid = 1, ncli = 1, intena = True, IF = False\<rparr>]"
    "locks s2 = locks ?s0" by (simp_all add: s2_def s1)
  have free: "locked (locks ?s0 lk) = 0" for lk by (simp add: smp_init_def)
  have "pushcli 0 ?s0 = Ok () s1" unfolding s1_def by (rule pushcli_eq) (simp_all add: smp_init_def)
  then have 1: "acquire_enter 0 L_ptable ?s0 = Ok () s1"
    by (simp add: acquire_enter_def seq_Ok bnd_def holding_def s1 free)
  have "pushcli 1 s1 = Ok () s2" unfolding s2_def by (rule pushcli_eq) (simp_all add: s1)
  then have 2: "acquire_enter 1 L_ptable s1 = Ok () s2"
    by (simp add: acquire_enter_def seq_Ok bnd_def holding_def s2 free)
  let ?s3 = "snd (acquire_xchg L_ptable s2)"
  have 3: "acquire_xchg L_ptable s2 = (0, ?s3)" "cpus ?s3 = cpus s2"
    using s2 by (simp_all add: acquire_xchg_def smp_init_def)
  obtain s4 where 4: "acquire_record 0 L_ptable ?s3 = Ok () s4" "cpus s4 = cpus s2"
    using s2 3 mycpu_self[of ?s3 0] by (auto simp: acquire_record_def bnd_Ok)
  have "smp_step (?s0, \<lambda>_. Run, \<lambda>_. []) (s1, (\<lambda>_. Run)(0 := Spinning L_ptable), \<lambda>_. [])"
    using 1 by (intro acq_enter) (simp_all add: smp_init_def)
  moreover have "smp_step (s1, (\<lambda>_. Run)(0 := Spinning L_ptable), \<lambda>_. [])
      (s2, (\<lambda>_. Run)(0 := Spinning L_ptable, 1 := Spinning L_ptable), \<lambda>_. [])"
    using 2 s1 by (intro acq_enter) simp_all
  moreover have "smp_step (s2, (\<lambda>_. Run)(0 := Spinning L_ptable, 1 := Spinning L_ptable), \<lambda>_. [])
      (?s3, (\<lambda>_. Run)(0 := Spinning L_ptable, 1 := Spinning L_ptable, 0 := Won L_ptable), \<lambda>_. [])"
    using 3 s2 by (intro acq_win) simp_all
  moreover have "smp_step (?s3, (\<lambda>_. Run)(0 := Spinning L_ptable, 1 := Spinning L_ptable, 0 := Won L_ptable), \<lambda>_. [])
      (s4, (\<lambda>_. Run)(0 := Spinning L_ptable, 1 := Spinning L_ptable, 0 := Won L_ptable, 0 := Run), (\<lambda>_. [])(0 := [L_ptable]))"
    using 3 4 s2 acq_record[of 0 ?s3
      "(\<lambda>_. Run)(0 := Spinning L_ptable, 1 := Spinning L_ptable, 0 := Won L_ptable)" L_ptable s4 "\<lambda>_. []"] by simp
  ultimately have "smp_step\<^sup>*\<^sup>* (?s0, \<lambda>_. Run, \<lambda>_. [])
      (s4, (\<lambda>_. Run)(0 := Spinning L_ptable, 1 := Spinning L_ptable, 0 := Won L_ptable, 0 := Run), (\<lambda>_. [])(0 := [L_ptable]))"
    by (meson converse_rtranclp_into_rtranclp rtranclp.rtrancl_refl)
  then show ?thesis using 4 s2 by (fastforce simp: smp_init_def)
qed

theorem spinlock_mutual_exclusion_witness:
  "\<exists>s pcs own. L_ptable \<in> set (own 0) \<and> pcs 1 = Spinning L_ptable \<and> L_ptable \<notin> set (own 1)
     \<and> \<not> IF (cpus s ! 0) \<and> ncli (cpus s ! 0) = 1 \<and>
     smp_step\<^sup>*\<^sup>* (smp_init [\<lparr>apicid = 0, ncli = 0, intena = False, IF = True\<rparr>,
      \<lparr>apicid = 1, ncli = 0, intena = False, IF = True\<rparr>]) (s, pcs, own)"
proof -
  obtain s pcs own where r: "smp_step\<^sup>*\<^sup>* (smp_init [\<lparr>apicid = 0, ncli = 0, intena = False, IF = True\<rparr>,
      \<lparr>apicid = 1, ncli = 0, intena = False, IF = True\<rparr>]) (s, pcs, own)"
    and e: "own 0 = [L_ptable]" "pcs 1 = Spinning L_ptable" "pcs 0 = Run" "length (cpus s) = 2"
    using smp_steps_example by blast
  have "(L_ptable \<in> set (own 0) \<and> L_ptable \<in> set (own 1) \<longrightarrow> (0 :: nat) = 1) \<and>
    (own 0 \<noteq> [] \<longrightarrow> \<not> IF (cpus s ! 0)) \<and> (pcs 0 = Run \<longrightarrow> ncli (cpus s ! 0) = int (length (own 0)))"
    using e by (intro spinlock_mutual_exclusion[OF r]) simp_all
  then show ?thesis using r e by (intro exI[of _ s] exI[of _ pcs] exI[of _ own]) simp
qed

text \<open>
  Claim C12. The panics of \<open>acquire\<close> and \<open>release\<close> are exact: outside the two operations a CPU
  panics in \<open>acquire\<close> precisely on a lock it owns and otherwise starts to spin, and \<open>release\<close>
  of a lock it owns never panics, while \<open>release\<close> of another lock with interrupts off always does.
\<close>

theorem spinlock_panics_exact:
  assumes "smp_step\<^sup>*\<^sup>* (smp_init cs) (s, pcs, own)" "distinct (map apicid cs)"
    and "c < length (cpus s)" "pcs c = Run"
  shows "(acquire_enter c lk s = Panic ''acquire'' \<longleftrightarrow> lk \<in> set (own c)) \<and>
    (lk \<notin> set (own c) \<longrightarrow> (\<exists>s'. acquire_enter c lk s = Ok () s')) \<and>
    (lk \<in> set (own c) \<longrightarrow> (\<exists>s'. release_clear c lk s = Ok () s')) \<and>
    (lk \<notin> set (own c) \<and> \<not> IF (cpus s ! c) \<longrightarrow> release_clear c lk s = Panic ''release'')"
proof -
  let ?f = "\<lambda>x. x\<lparr>IF := False, intena := (if ncli x = 0 then IF x else intena x), ncli := ncli x + 1\<rparr>"
  have inv: "smp_inv (s, pcs, own)" by (rule smp_reach_inv[OF assms(1,2)])
  then have d: "distinct (map apicid (cpus s))" by (simp add: smp_inv_def cpus_ok_def)
  have p: "pushcli c s = Ok () (cpu_upd c ?f s)" by (rule pushcli_eq[OF d assms(3)])
  have m: "mycpu c (cpu_upd c ?f s) = Ok c (cpu_upd c ?f s)"
    using d assms(3) by (intro mycpu_self) (auto intro!: distinct_apicid_upd)
  have l: "l_cpu (locks s lk) = Some c \<longleftrightarrow> lk \<in> set (own c)"
    "lk \<in> set (own c) \<Longrightarrow> locked (locks s lk) \<noteq> 0"
    using inv by (auto simp: smp_inv_def locks_ok_def has_def)
  have h: "holding c lk (cpu_upd c ?f s) = Ok (lk \<in> set (own c)) (cpu_upd c ?f s)"
    using l by (auto simp: holding_def bnd_Ok[of "mycpu c", OF m])
  have "acquire_enter c lk s = (if lk \<in> set (own c) then Panic ''acquire'' else Ok () (cpu_upd c ?f s))"
    by (simp add: acquire_enter_def seq_Ok[of "pushcli c", OF p] bnd_Ok[of "holding c lk", OF h])
  moreover have "lk \<in> set (own c) \<or> \<not> IF (cpus s ! c) \<Longrightarrow> release_clear c lk s =
    (if lk \<in> set (own c) then Ok () (lock_upd lk (\<lambda>l. l\<lparr>l_cpu := None\<rparr>) s) else Panic ''release'')"
    using holding_eq[OF inv assms(3), of lk] by (simp add: release_clear_def bnd_def disj_commute)
  ultimately show ?thesis by auto
qed

theorem spinlock_panics_exact_witness:
  "\<exists>s. acquire_enter 0 L_log (fst (smp_init [\<lparr>apicid = 3, ncli = 0, intena = False, IF = False\<rparr>])) = Ok () s
    \<and> release_clear 0 L_log (fst (smp_init [\<lparr>apicid = 3, ncli = 0, intena = False, IF = False\<rparr>])) = Panic ''release''"
proof -
  let ?cs = "[\<lparr>apicid = 3, ncli = 0, intena = False, IF = False\<rparr>]"
  have r: "smp_step\<^sup>*\<^sup>* (smp_init ?cs) (fst (smp_init ?cs), \<lambda>_. Run, \<lambda>_. [])"
    by (simp add: smp_init_def)
  show ?thesis
    using spinlock_panics_exact[OF r, of 0 L_log] by (simp add: smp_init_def)
qed

end
