(* ===== verification/Double.thy ===== *)
theory Double
  imports Prelude Complex_Main "HOL-Library.Log_Nat"
begin

text \<open>
  The \<open>double\<close> arithmetic the stride scheduler computes with.  A value is a rational, an
  infinity or not-a-number; the sign of zero is not kept, no expression of the kernel divides
  by a negative zero.  The kernel is compiled for the 32-bit x87 unit without optimisation:
  each operation rounds its exact result to the 64-bit extended significand and the following
  store rounds to 53 bits, both to nearest with ties to even.  Integers below \<open>2 ^ 53\<close> are
  exact, and so are their sums and differences.
\<close>

datatype double = Fin rat | PInf | NInf | NaN

subsection \<open>Rounding\<close>

definition pow2 :: "int \<Rightarrow> rat" where
  "pow2 e = (if 0 \<le> e then 2 ^ nat e else 1 / 2 ^ nat (- e))"

text \<open>The exponent of a positive rational: \<open>pow2 (expo x) \<le> x < pow2 (expo x + 1)\<close>.\<close>

definition expo :: "rat \<Rightarrow> int" where
  "expo x = (case quotient_of x of (a, b) \<Rightarrow>
     let k = bitlen a - bitlen b in if x < pow2 k then k - 1 else k)"

definition round_even :: "rat \<Rightarrow> int" where
  "round_even x = (let f = \<lfloor>x\<rfloor>; d = x - of_int f in
     if d < 1 / 2 then f else if 1 / 2 < d then f + 1 else if even f then f else f + 1)"

definition rnd :: "int \<Rightarrow> int \<Rightarrow> rat \<Rightarrow> rat" where
  "rnd p emin x = (if x = 0 then 0 else
     let e = max (expo \<bar>x\<bar> - (p - 1)) emin in of_int (round_even (x / pow2 e)) * pow2 e)"

definition huge :: rat where
  "huge = 2 ^ 1024"

definition to_double :: "rat \<Rightarrow> double" where
  "to_double x = (let y = rnd 53 (- 1074) (rnd 64 (- 16445) x) in
     if huge \<le> y then PInf else if y \<le> - huge then NInf else Fin y)"

subsection \<open>Operations\<close>

fun dadd :: "double \<Rightarrow> double \<Rightarrow> double" where
  "dadd (Fin x) (Fin y) = to_double (x + y)"
| "dadd NaN _ = NaN"
| "dadd _ NaN = NaN"
| "dadd PInf NInf = NaN"
| "dadd NInf PInf = NaN"
| "dadd PInf _ = PInf"
| "dadd NInf _ = NInf"
| "dadd (Fin _) y = y"

fun dneg :: "double \<Rightarrow> double" where
  "dneg (Fin x) = Fin (- x)"
| "dneg PInf = NInf"
| "dneg NInf = PInf"
| "dneg NaN = NaN"

definition dsub :: "double \<Rightarrow> double \<Rightarrow> double" where
  "dsub x y = dadd x (dneg y)"

text \<open>Multiplication by a small positive integer constant and division of a finite value.\<close>

fun dscale :: "rat \<Rightarrow> double \<Rightarrow> double" where
  "dscale k (Fin x) = to_double (k * x)"
| "dscale k d = d"

fun ddiv :: "rat \<Rightarrow> double \<Rightarrow> double" where
  "ddiv k (Fin x) = (if x = 0 then if k = 0 then NaN else if 0 < k then PInf else NInf
                     else to_double (k / x))"
| "ddiv k PInf = Fin 0"
| "ddiv k NInf = Fin 0"
| "ddiv k NaN = NaN"

fun dlt :: "double \<Rightarrow> double \<Rightarrow> bool" where
  "dlt (Fin x) (Fin y) = (x < y)"
| "dlt NaN _ = False"
| "dlt _ NaN = False"
| "dlt NInf NInf = False"
| "dlt NInf _ = True"
| "dlt _ PInf = True"
| "dlt _ _ = False"

definition dge :: "double \<Rightarrow> double \<Rightarrow> bool" where
  "dge x y = (dlt y x \<or> (x = y \<and> x \<noteq> NaN))"

definition dint :: "int \<Rightarrow> double" where
  "dint n = Fin (of_int n)"

text \<open>Conversion to \<open>uint\<close> discards the fraction; outside the range it is undefined.\<close>

definition rtrunc :: "rat \<Rightarrow> int" where
  "rtrunc x = (if 0 \<le> x then \<lfloor>x\<rfloor> else \<lceil>x\<rceil>)"

fun duint :: "double \<Rightarrow> uint option" where
  "duint (Fin x) = (if 0 \<le> rtrunc x \<and> rtrunc x < 2 ^ 32 then Some (word_of_int (rtrunc x)) else None)"
| "duint _ = None"

subsection \<open>Exactness on integers\<close>

lemma round_even_of_int [simp]: "round_even (of_int n) = n"
  by (simp add: round_even_def)

lemma pow2_pos [simp]: "0 < pow2 e"
  by (simp add: pow2_def)

lemma expo_of_int_le:
  assumes "0 < n" "n < 2 ^ p"
  shows "expo (of_int n) \<le> int p - 1"
proof -
  have "bitlen n \<le> int p" using assms bitlen_le_iff_power[of n "int p"] by simp
  moreover have "quotient_of (of_int n) = (n, 1)" by simp
  moreover have "bitlen 1 = (1 :: int)" by (simp add: bitlen_def compute_floorlog)
  ultimately show ?thesis by (auto simp: expo_def Let_def)
qed

lemma rnd_of_int:
  assumes "\<bar>n\<bar> < 2 ^ q" "int q \<le> p" "emin \<le> 0"
  shows "rnd p emin (of_int n) = of_int n"
proof (cases "n = 0")
  case False
  define e where "e = max (expo (of_int \<bar>n\<bar>) - (p - 1)) emin"
  have "expo (of_int \<bar>n\<bar>) \<le> int q - 1" using False assms(1) by (intro expo_of_int_le) auto
  with assms have "e \<le> 0" by (simp add: e_def)
  then have *: "(of_int n :: rat) / pow2 e = of_int (n * 2 ^ nat (- e))"
    by (auto simp: pow2_def)
  have "of_int (round_even ((of_int n :: rat) / pow2 e)) * pow2 e = (of_int n / pow2 e) * pow2 e"
    unfolding * by (simp only: round_even_of_int)
  also have "\<dots> = of_int n" using pow2_pos[of e] by (simp add: less_imp_neq[symmetric])
  finally show ?thesis using False by (simp add: rnd_def e_def Let_def)
qed (simp add: rnd_def)

lemma to_double_of_int:
  assumes "\<bar>n\<bar> < 2 ^ 53"
  shows "to_double (of_int n) = Fin (of_int n)"
proof -
  have 1: "rnd 64 (- 16445) (of_int n) = of_int n" by (rule rnd_of_int[OF assms]) auto
  have 2: "rnd 53 (- 1074) (of_int n) = of_int n" by (rule rnd_of_int[OF assms]) auto
  have "\<bar>of_int n :: rat\<bar> < 2 ^ 53"
    using assms by (metis of_int_abs of_int_less_iff of_int_numeral of_int_power)
  also have "(2 :: rat) ^ 53 < huge" unfolding huge_def by (rule power_strict_increasing) simp_all
  finally have "\<not> huge \<le> of_int n" "\<not> of_int n \<le> - huge" by linarith+
  then show ?thesis using 1 2 by (simp add: to_double_def Let_def)
qed

lemma dadd_int: "\<bar>a + b\<bar> < 2 ^ 53 \<Longrightarrow> dadd (dint a) (dint b) = dint (a + b)"
  using to_double_of_int[of "a + b"] by (simp add: dint_def)

lemma dsub_int: "\<bar>a - b\<bar> < 2 ^ 53 \<Longrightarrow> dsub (dint a) (dint b) = dint (a - b)"
  using to_double_of_int[of "a - b"] by (simp add: dint_def dsub_def)

lemma dlt_int [simp]: "dlt (dint a) (dint b) = (a < b)"
  by (simp add: dint_def)

lemma dge_int [simp]: "dge (dint a) (dint b) = (b \<le> a)"
  by (auto simp: dge_def dint_def)

lemma duint_int: "0 \<le> n \<Longrightarrow> n < 2 ^ 32 \<Longrightarrow> duint (dint n) = Some (word_of_int n)"
  by (simp add: dint_def rtrunc_def)

lemma dlt_trans_le: "dlt x y \<Longrightarrow> \<not> dlt z y \<Longrightarrow> z \<noteq> NaN \<Longrightarrow> dlt x z"
  by (cases x; cases y; cases z) auto

lemma duint_le:
  assumes "duint d = Some w" "\<not> dlt d (Fin 0)"
  shows "\<not> dlt d (dint (uint w))"
proof (cases d)
  case (Fin x)
  with assms have "0 \<le> x" and w: "w = word_of_int \<lfloor>x\<rfloor>" and "0 \<le> \<lfloor>x\<rfloor>" "\<lfloor>x\<rfloor> < 2 ^ 32"
    by (auto simp: rtrunc_def split: if_splits)
  then have "uint w = \<lfloor>x\<rfloor>" by (simp add: unsigned_of_int take_bit_int_eq_self)
  then show ?thesis using Fin by (simp add: dint_def not_less)
qed (use assms in auto)

end
