(* ===== verification/Kstate.thy ===== *)
theory Kstate
  imports Locks Double
begin

text \<open>
  The process table and the state of the running kernel thread (\<open>proc.h\<close>, the globals of
  \<open>proc.c\<close>, \<open>trap.c\<close>, \<open>sysproc.c\<close> and \<open>set_cpu_share.c\<close>), the lock discipline as the thread sees it, and
  \<open>sched\<close>, \<open>yield\<close>, \<open>sleep\<close>, \<open>wakeup\<close> and \<open>kill\<close>.

  A process pointer is an index into \<open>ptable\<close>.  The fields \<open>killed\<close>, \<open>isMLFQ\<close>, \<open>isThread\<close>,
  \<open>isMainThread\<close> and \<open>isThereExec\<close>, only ever assigned 0 and 1, are Booleans.  The trap frame and
  the saved context, which the C code keeps on the kernel stack, are values of the process.
  \<open>held\<close> lists the spin locks of the running thread, most recent first.  The record is extended
  by the later theories; every operation is polymorphic in the extension.
\<close>

subsection \<open>Data\<close>

datatype procstate = UNUSED | EMBRYO | SLEEPING | RUNNABLE | RUNNING | ZOMBIE

text \<open>The addresses the kernel sleeps on.\<close>

datatype chan = ChanNull | ChanProc nat | ChanTicks | ChanLog | ChanSleepLock slid | ChanBuf nat
  | ChanPipeR uint | ChanPipeW uint | ChanInput

record trapframe =
  tf_edi :: uint
  tf_esi :: uint
  tf_ebp :: uint
  tf_oesp :: uint
  tf_ebx :: uint
  tf_edx :: uint
  tf_ecx :: uint
  tf_eax :: uint
  tf_gs :: ushort
  tf_fs :: ushort
  tf_es :: ushort
  tf_ds :: ushort
  tf_trapno :: uint
  tf_err :: uint
  tf_eip :: uint
  tf_cs :: ushort
  tf_eflags :: uint
  tf_esp :: uint
  tf_ss :: ushort

record ctx =
  c_edi :: uint
  c_esi :: uint
  c_ebx :: uint
  c_ebp :: uint
  c_eip :: uint

record proc =
  p_sz :: uint
  p_pgdir :: uint
  p_kstack :: uint
  p_state :: procstate
  p_pid :: int
  p_parent :: "nat option"
  p_tf :: trapframe
  p_context :: ctx
  p_chan :: chan
  p_killed :: bool
  p_ofile :: "nat option list"
  p_cwd :: "nat option"
  p_name :: bytes
  p_priority :: int
  p_pticks :: int
  p_ptotalticks :: int
  p_isMLFQ :: bool
  p_share :: double
  p_stride :: double
  p_pass :: double
  p_tid :: nat
  p_retval :: uint
  p_isThread :: bool
  p_isMainThread :: bool
  p_usz :: uint
  p_isThereExec :: bool
  p_cntThread :: int
  p_totalshare :: int

record tidslot =
  t_index :: nat
  t_state :: procstate

definition NPROC :: nat where "NPROC = 64"
definition NOFILE :: nat where "NOFILE = 16"
definition STRIDENUM :: int where "STRIDENUM = 100"

record kcore =
  held :: "lockid list"
  intr :: bool \<comment> \<open>would interrupts be on if no lock were held\<close>
  c_proc :: "nat option" \<comment> \<open>\<open>mycpu()->proc\<close>\<close>
  ptable :: "proc list"
  ttable :: "tidslot list"
  initproc :: "nat option"
  nextpid :: int
  nexttid :: int
  ticks :: uint
  MLFQ_ticks :: uint
  MLFQPassVal :: double
  MLFQStrideVal :: double
  leftShare :: double
  checkpoint :: int
  levturn :: int
  cr3 :: uint \<comment> \<open>the page directory register of the CPU\<close>
  ts_esp0 :: uint \<comment> \<open>the kernel stack the CPU's task state selects\<close>
  kpgdir :: uint
  forkret_first :: bool \<comment> \<open>the static variable of \<open>forkret\<close>\<close>
  yield_i :: uint \<comment> \<open>the global \<open>i\<close> of \<open>sysproc.c\<close>\<close>

type_synonym ('a, 'b) kop = "'b kcore_scheme \<Rightarrow> ('a, 'b kcore_scheme) res"

subsection \<open>Locks and the process table, as the running thread sees them\<close>

definition acquire :: "lockid \<Rightarrow> (unit, 'b) kop" where
  "acquire lk s = (if lk \<in> set (held s) then Panic ''acquire'' else Ok () (s\<lparr>held := lk # held s\<rparr>))"

definition release :: "lockid \<Rightarrow> (unit, 'b) kop" where
  "release lk s = (if lk \<notin> set (held s) then Panic ''release'' else Ok () (s\<lparr>held := remove1 lk (held s)\<rparr>))"

definition readeflags_IF :: "'b kcore_scheme \<Rightarrow> bool" where
  "readeflags_IF s \<longleftrightarrow> held s = [] \<and> intr s"

definition pget :: "nat \<Rightarrow> 'b kcore_scheme \<Rightarrow> proc" where
  "pget i s = ptable s ! i"

definition pset :: "nat \<Rightarrow> (proc \<Rightarrow> proc) \<Rightarrow> 'b kcore_scheme \<Rightarrow> 'b kcore_scheme" where
  "pset i f s = s\<lparr>ptable := (ptable s)[i := f (ptable s ! i)]\<rparr>"

definition pmap :: "(proc \<Rightarrow> proc) \<Rightarrow> 'b kcore_scheme \<Rightarrow> 'b kcore_scheme" where
  "pmap f s = s\<lparr>ptable := map f (ptable s)\<rparr>"

definition myproc :: "(nat option, 'b) kop" where
  "myproc = gets c_proc"

text \<open>\<open>struct proc *p = myproc()\<close> followed by an access through \<open>p\<close>.\<close>

definition curproc :: "(nat, 'b) kop" where
  "curproc = bnd myproc deref"

subsection \<open>Giving up the CPU\<close>

definition sched :: "(unit, 'b) kop" where
  "sched = bnd myproc (\<lambda>p. bnd (gets held) (\<lambda>h.
     if L_ptable \<notin> set h then panic ''sched ptable.lock''
     else if length h \<noteq> 1 then panic ''sched locks''
     else bnd (deref p) (\<lambda>i. bnd (gets (pget i)) (\<lambda>pr.
       if p_state pr = RUNNING then panic ''sched running''
       else bnd (gets readeflags_IF) (\<lambda>b.
         if b then panic ''sched interruptible'' else Swtch)))))"

definition yield :: "(unit, 'b) kop" where
  "yield = seq (acquire L_ptable) (bnd curproc (\<lambda>i.
     seq (modify (pset i (\<lambda>p. p\<lparr>p_state := RUNNABLE\<rparr>))) sched))"

text \<open>What \<open>yield\<close> does once \<open>sched\<close> has returned.\<close>

definition yield_resume :: "(unit, 'b) kop" where
  "yield_resume = release L_ptable"

definition sleep :: "chan \<Rightarrow> lockid option \<Rightarrow> (unit, 'b) kop" where
  "sleep ch lk = bnd myproc (\<lambda>p. case p of None \<Rightarrow> panic ''sleep'' | Some i \<Rightarrow>
     (case lk of None \<Rightarrow> panic ''sleep without lk'' | Some l \<Rightarrow>
       seq (whenM (l \<noteq> L_ptable) (seq (acquire L_ptable) (release l)))
       (seq (modify (pset i (\<lambda>p. p\<lparr>p_chan := ch, p_state := SLEEPING\<rparr>)))
       sched)))"

definition sleep_resume :: "lockid \<Rightarrow> nat \<Rightarrow> (unit, 'b) kop" where
  "sleep_resume l i = seq (modify (pset i (\<lambda>p. p\<lparr>p_chan := ChanNull\<rparr>)))
     (whenM (l \<noteq> L_ptable) (seq (release L_ptable) (acquire l)))"

definition wake :: "chan \<Rightarrow> proc \<Rightarrow> proc" where
  "wake ch p = (if p_state p = SLEEPING \<and> p_chan p = ch then p\<lparr>p_state := RUNNABLE\<rparr> else p)"

definition wakeup1 :: "chan \<Rightarrow> (unit, 'b) kop" where
  "wakeup1 ch = modify (pmap (wake ch))"

definition wakeup :: "chan \<Rightarrow> (unit, 'b) kop" where
  "wakeup ch = seq (acquire L_ptable) (seq (wakeup1 ch) (release L_ptable))"

definition kill :: "int \<Rightarrow> (int, 'b) kop" where
  "kill pid = seq (acquire L_ptable)
     (seq (modify (pmap (\<lambda>p. if p_pid p = pid
        then p\<lparr>p_killed := True, p_state := (if p_state p = SLEEPING then RUNNABLE else p_state p)\<rparr> else p)))
     (seq (release L_ptable) (ret 0)))"

subsection \<open>Evaluation of the primitives\<close>

lemma pset_sel [simp]:
  "held (pset i f s) = held s" "intr (pset i f s) = intr s" "c_proc (pset i f s) = c_proc s"
  "ttable (pset i f s) = ttable s" "initproc (pset i f s) = initproc s"
  "nextpid (pset i f s) = nextpid s" "MLFQ_ticks (pset i f s) = MLFQ_ticks s"
  "ticks (pset i f s) = ticks s" "leftShare (pset i f s) = leftShare s"
  "MLFQPassVal (pset i f s) = MLFQPassVal s" "MLFQStrideVal (pset i f s) = MLFQStrideVal s"
  "checkpoint (pset i f s) = checkpoint s" "levturn (pset i f s) = levturn s"
  "ptable (pset i f s) = (ptable s)[i := f (ptable s ! i)]"
  by (simp_all add: pset_def)

lemma pmap_sel [simp]:
  "held (pmap f s) = held s" "intr (pmap f s) = intr s" "c_proc (pmap f s) = c_proc s"
  "ttable (pmap f s) = ttable s" "initproc (pmap f s) = initproc s"
  "nextpid (pmap f s) = nextpid s" "MLFQ_ticks (pmap f s) = MLFQ_ticks s"
  "ticks (pmap f s) = ticks s" "leftShare (pmap f s) = leftShare s"
  "MLFQPassVal (pmap f s) = MLFQPassVal s" "MLFQStrideVal (pmap f s) = MLFQStrideVal s"
  "checkpoint (pmap f s) = checkpoint s" "levturn (pmap f s) = levturn s"
  "ptable (pmap f s) = map f (ptable s)"
  by (simp_all add: pmap_def)

lemma length_ptable_pset: "length (ptable (pset i f s)) = length (ptable s)"
  by simp

lemma pget_pset:
  "i < length (ptable s) \<Longrightarrow> pget j (pset i f s) = (if i = j then f (pget i s) else pget j s)"
  by (auto simp: pget_def)

lemma acquire_ok [simp]: "lk \<notin> set (held s) \<Longrightarrow> acquire lk s = Ok () (s\<lparr>held := lk # held s\<rparr>)"
  by (simp add: acquire_def)

lemma release_ok [simp]: "lk \<in> set (held s) \<Longrightarrow> release lk s = Ok () (s\<lparr>held := remove1 lk (held s)\<rparr>)"
  by (simp add: release_def)

lemma acquire_Ok_iff: "acquire lk s = Ok u t \<longleftrightarrow> lk \<notin> set (held s) \<and> t = s\<lparr>held := lk # held s\<rparr>"
  by (auto simp: acquire_def)

lemma release_Ok_iff: "release lk s = Ok u t \<longleftrightarrow> lk \<in> set (held s) \<and> t = s\<lparr>held := remove1 lk (held s)\<rparr>"
  by (auto simp: release_def)

lemma curproc_Some [simp]: "c_proc s = Some i \<Longrightarrow> curproc s = Ok i s"
  by (simp add: curproc_def myproc_def)

lemma bnd_curproc [simp]: "c_proc s = Some i \<Longrightarrow> bnd curproc f s = f i s"
  by (simp add: bnd_Ok)

lemma bnd_myproc [simp]: "bnd myproc f s = f (c_proc s) s"
  by (simp add: myproc_def)

lemma seq_acquire [simp]: "lk \<notin> set (held s) \<Longrightarrow> seq (acquire lk) k s = k (s\<lparr>held := lk # held s\<rparr>)"
  by (simp add: seq_Ok)

lemma seq_release [simp]: "lk \<in> set (held s) \<Longrightarrow> seq (release lk) k s = k (s\<lparr>held := remove1 lk (held s)\<rparr>)"
  by (simp add: seq_Ok)

lemma pset_held [simp]: "pset i f (s\<lparr>held := h\<rparr>) = (pset i f s)\<lparr>held := h\<rparr>"
  by (simp add: pset_def)

lemma pmap_held [simp]: "pmap f (s\<lparr>held := h\<rparr>) = (pmap f s)\<lparr>held := h\<rparr>"
  by (simp add: pmap_def)

lemma held_idem [simp]: "s\<lparr>held := held s\<rparr> = s"
  by simp

lemma held_nil [simp]: "held s = [] \<Longrightarrow> s\<lparr>held := []\<rparr> = s"
  by simp

lemma wakeup_eq:
  assumes "L_ptable \<notin> set (held s)"
  shows "wakeup ch s = Ok () (pmap (wake ch) s)"
  using assms by (simp add: wakeup_def wakeup1_def seq_def bnd_def acquire_def release_def pmap_def)

lemma sched_eq:
  assumes "held s = [L_ptable]" "c_proc s = Some i" "p_state (pget i s) \<noteq> RUNNING"
  shows "sched s = Swtch s"
  using assms by (simp add: sched_def readeflags_IF_def)

lemma sleep_eq:
  assumes "c_proc s = Some i" "i < length (ptable s)"
    and "held s = [lk]"
  shows "sleep ch (Some lk) s =
    Swtch ((pset i (\<lambda>p. p\<lparr>p_chan := ch, p_state := SLEEPING\<rparr>) s)\<lparr>held := [L_ptable]\<rparr>)"
proof -
  let ?t = "(pset i (\<lambda>p. p\<lparr>p_chan := ch, p_state := SLEEPING\<rparr>) s)\<lparr>held := [L_ptable]\<rparr>"
  have sw: "sched ?t = Swtch ?t"
    using assms by (intro sched_eq[of _ i]) (simp_all add: pget_def)
  show ?thesis
  proof (cases "lk = L_ptable")
    case True
    with assms have e: "?t = pset i (\<lambda>p. p\<lparr>p_chan := ch, p_state := SLEEPING\<rparr>) s" by (simp add: pset_def)
    show ?thesis unfolding e using assms sw[unfolded e] True by (simp add: sleep_def)
  next
    case False
    then have "seq (acquire L_ptable) (release lk) s = Ok () (s\<lparr>held := [L_ptable]\<rparr>)"
      using assms by (simp add: release_def)
    then show ?thesis using assms sw False by (simp add: sleep_def seq_Ok)
  qed
qed

lemma pget_pmap [simp]: "j < length (ptable s) \<Longrightarrow> pget j (pmap f s) = f (pget j s)"
  by (simp add: pget_def)

lemma pget_held [simp]: "pget j (s\<lparr>held := h\<rparr>) = pget j s"
  by (simp add: pget_def)

subsection \<open>Properties\<close>


text \<open>
  \<open>kill\<close> marks exactly the threads of the given process as killed, wakes those that
  sleep, changes no other process and no lock, and returns 0 whether or not the process exists.
\<close>

theorem kill_marks_process:
  assumes "L_ptable \<notin> set (held s)"
  shows "\<exists>s'. kill pid s = Ok 0 s' \<and> held s' = held s \<and> length (ptable s') = length (ptable s) \<and>
    (\<forall>j < length (ptable s).
      if p_pid (pget j s) = pid
      then p_killed (pget j s') \<and> p_state (pget j s') \<noteq> SLEEPING \<and>
           (p_state (pget j s) \<noteq> SLEEPING \<longrightarrow> p_state (pget j s') = p_state (pget j s))
      else pget j s' = pget j s)"
  using assms by (simp add: kill_def pget_def)

subsection \<open>A concrete process table\<close>

text \<open>The zero-initialised process slot and table the kernel starts from, used by the examples.\<close>

definition tf0 :: trapframe where
  "tf0 = \<lparr>tf_edi = 0, tf_esi = 0, tf_ebp = 0, tf_oesp = 0, tf_ebx = 0, tf_edx = 0, tf_ecx = 0, tf_eax = 0,
     tf_gs = 0, tf_fs = 0, tf_es = 0, tf_ds = 0, tf_trapno = 0, tf_err = 0, tf_eip = 0, tf_cs = 0,
     tf_eflags = 0, tf_esp = 0, tf_ss = 0\<rparr>"

definition ctx0 :: ctx where
  "ctx0 = \<lparr>c_edi = 0, c_esi = 0, c_ebx = 0, c_ebp = 0, c_eip = 0\<rparr>"

definition proc0 :: proc where
  "proc0 = \<lparr>p_sz = 0, p_pgdir = 0, p_kstack = 0, p_state = UNUSED, p_pid = 0, p_parent = None,
     p_tf = tf0, p_context = ctx0, p_chan = ChanNull, p_killed = False, p_ofile = replicate NOFILE None,
     p_cwd = None, p_name = [], p_priority = 0, p_pticks = 0, p_ptotalticks = 0, p_isMLFQ = False,
     p_share = Fin 0, p_stride = Fin 0, p_pass = Fin 0, p_tid = 0, p_retval = 0, p_isThread = False,
     p_isMainThread = False, p_usz = 0, p_isThereExec = False, p_cntThread = 0, p_totalshare = 0\<rparr>"

lemma proc0_sel [simp]:
  "p_state proc0 = UNUSED" "p_isMLFQ proc0 = False" "p_pass proc0 = Fin 0" "p_pid proc0 = 0"
  "p_parent proc0 = None" "p_totalshare proc0 = 0" "p_priority proc0 = 0" "p_kstack proc0 = 0"
  "p_pgdir proc0 = 0" "p_stride proc0 = Fin 0" "p_cntThread proc0 = 0" "p_isMainThread proc0 = False"
  "p_isThread proc0 = False" "p_killed proc0 = False" "p_chan proc0 = ChanNull" "p_pticks proc0 = 0"
  "p_ptotalticks proc0 = 0" "p_tid proc0 = 0" "p_sz proc0 = 0" "p_usz proc0 = 0"
  "p_ofile proc0 = replicate NOFILE None" "p_cwd proc0 = None" "p_isThereExec proc0 = False"
  by (simp_all add: proc0_def)

definition kcore0 :: kcore where
  "kcore0 = \<lparr>held = [], intr = True, c_proc = None, ptable = replicate NPROC proc0,
     ttable = replicate NPROC \<lparr>t_index = 0, t_state = UNUSED\<rparr>, initproc = None, nextpid = 1, nexttid = 0,
     ticks = 0, MLFQ_ticks = 0, MLFQPassVal = Fin 0, MLFQStrideVal = Fin 0, leftShare = Fin 100,
     checkpoint = 0, levturn = 0, cr3 = 0, ts_esp0 = 0, kpgdir = 0, forkret_first = True, yield_i = 0\<rparr>"


theorem kill_marks_process_witness:
  "\<exists>s'. kill 3 (pset 2 (\<lambda>p. p\<lparr>p_pid := 3, p_state := SLEEPING\<rparr>) kcore0) = Ok 0 s' \<and> p_killed (pget 2 s')"
proof -
  let ?s = "pset 2 (\<lambda>p. p\<lparr>p_pid := 3, p_state := SLEEPING\<rparr>) kcore0"
  have "L_ptable \<notin> set (held ?s)" "2 < length (ptable ?s)" "p_pid (pget 2 ?s) = 3"
    by (simp_all add: kcore0_def NPROC_def pget_def)
  then show ?thesis using kill_marks_process[of ?s 3] by metis
qed

end
