(* ===== verification/Sched.thy ===== *)
theory Sched
  imports Kstate "HOL-Library.Signed_Division"
begin

text \<open>
  The two-level scheduler of \<open>proc.c\<close>: the multi-level feedback queue (\<open>MLFQ_Boost\<close>,
  \<open>MLFQ_Scheduler\<close>), stride scheduling (\<open>findMinPass\<close>, \<open>Stride_Scheduler\<close>), the CPU share
  accounting (\<open>cpu_share\<close>, \<open>set_cpu_share\<close>), one round of \<open>scheduler\<close>, and the quantum check
  \<open>MLFQ_Check\<close> of \<open>trap.c\<close>.

  What a process does between the \<open>swtch\<close> into it and the \<open>swtch\<close> back is a parameter \<open>run\<close>
  of the definitions: \<open>run i s\<close> is the state in which process \<open>i\<close> gives the CPU back.  The level
  scan of \<open>MLFQ_Scheduler\<close> may go on as long as processes stay runnable, so it is a partial
  function; \<open>None\<close> means that it never ends.  Signed overflow of \<open>checkpoint\<close> is undefined
  behaviour, a \<open>Fault\<close>.
\<close>

subsection \<open>Switching to a process\<close>

definition KERNBASE :: uint where "KERNBASE = 0x80000000"
definition KSTACKSIZE :: uint where "KSTACKSIZE = 4096"

definition V2P :: "uint \<Rightarrow> uint" where "V2P a = a - KERNBASE"

definition switchkvm :: "(unit, 'b) kop" where
  "switchkvm = modify (\<lambda>s. s\<lparr>cr3 := V2P (kpgdir s)\<rparr>)"

definition switchuvm :: "nat option \<Rightarrow> (unit, 'b) kop" where
  "switchuvm p = (case p of None \<Rightarrow> panic ''switchuvm: no process'' | Some i \<Rightarrow>
     bnd (gets (pget i)) (\<lambda>pr.
     if p_kstack pr = 0 then panic ''switchuvm: no kstack''
     else if p_pgdir pr = 0 then panic ''switchuvm: no pgdir''
     else modify (\<lambda>s. s\<lparr>ts_esp0 := p_kstack pr + KSTACKSIZE, cr3 := V2P (p_pgdir pr)\<rparr>)))"

definition switch_to :: "(nat \<Rightarrow> 'b kcore_scheme \<Rightarrow> 'b kcore_scheme) \<Rightarrow> nat \<Rightarrow> (unit, 'b) kop" where
  "switch_to run i = seq (modify (\<lambda>s. s\<lparr>c_proc := Some i\<rparr>)) (seq (switchuvm (Some i))
     (seq (modify (pset i (\<lambda>p. p\<lparr>p_state := RUNNING\<rparr>))) (seq (modify (run i))
     (seq switchkvm (modify (\<lambda>s. s\<lparr>c_proc := None\<rparr>))))))"

subsection \<open>Multi-level feedback queue\<close>

definition boost :: "proc \<Rightarrow> proc" where
  "boost p = (if p_isMLFQ p then p\<lparr>p_priority := 0, p_pticks := 0, p_ptotalticks := 0\<rparr> else p)"

definition MLFQ_Boost :: "'b kcore_scheme \<Rightarrow> 'b kcore_scheme" where
  "MLFQ_Boost s = (pmap boost s)\<lparr>MLFQ_ticks := 0\<rparr>"

definition boost_check :: "'b kcore_scheme \<Rightarrow> 'b kcore_scheme" where
  "boost_check s = (if 100 \<le> MLFQ_ticks s then MLFQ_Boost s else s)"

text \<open>A process the scan of level \<open>lev\<close> would run, and what running it adds to the pass value.\<close>

definition mlfq_cand :: "int \<Rightarrow> proc \<Rightarrow> bool" where
  "mlfq_cand lev p \<longleftrightarrow> p_isMLFQ p \<and> p_state p = RUNNABLE \<and> p_priority p = lev"

definition lev_pass :: "int \<Rightarrow> double \<Rightarrow> double" where
  "lev_pass lev d = (if lev = 0 then d else if lev = 1 then dscale 2 d else dscale 4 d)"

definition charge_mlfq :: "int \<Rightarrow> 'b kcore_scheme \<Rightarrow> 'b kcore_scheme" where
  "charge_mlfq lev s = (if dlt (leftShare s) (dint 100)
     then s\<lparr>MLFQPassVal := dadd (MLFQPassVal s) (lev_pass lev (MLFQStrideVal s))\<rparr> else s)"

text \<open>One iteration of a level scan; \<open>Inl\<close> ends the loop, \<open>Inr p\<close> goes on at the next slot.\<close>

definition next_turn :: "nat \<Rightarrow> (unit + nat, 'b) kop" where
  "next_turn p = bnd (gets checkpoint) (\<lambda>c. bnd (gets levturn) (\<lambda>l.
     if c = 2 ^ 31 - 1 \<or> l = 2 ^ 31 - 1 then fault
     else seq (modify (\<lambda>s. s\<lparr>levturn := l + 1, checkpoint := c + 1\<rparr>)) (ret (Inr (p + 1)))))"

definition mlfq_turn :: "(nat \<Rightarrow> 'b kcore_scheme \<Rightarrow> 'b kcore_scheme) \<Rightarrow> int \<Rightarrow> nat \<Rightarrow> (unit + nat, 'b) kop" where
  "mlfq_turn run lev p =
     (if \<not> p < NPROC then ret (Inl ()) else
      seq (modify boost_check)
      (bnd (gets levturn) (\<lambda>l. if l = 63 then ret (Inl ()) else
       bnd (gets checkpoint) (\<lambda>c.
       let q = (if c mod 63 = 0 then 0 else p) in
       bnd (gets (pget q)) (\<lambda>pr.
         if \<not> mlfq_cand lev pr then next_turn q
         else seq (modify (charge_mlfq lev)) (seq (modify (\<lambda>s. s\<lparr>levturn := 0\<rparr>))
              (seq (switch_to run q) (next_turn q))))))))"

partial_function (option) mlfq_scan ::
  "(nat \<Rightarrow> 'b kcore_scheme \<Rightarrow> 'b kcore_scheme) \<Rightarrow> int \<Rightarrow> nat \<Rightarrow> 'b kcore_scheme \<Rightarrow> (unit, 'b kcore_scheme) res option" where
  "mlfq_scan run lev p s = (case mlfq_turn run lev p s of
     Ok (Inr q) s' \<Rightarrow> mlfq_scan run lev q s'
   | Ok (Inl _) s' \<Rightarrow> Some (Ok () s')
   | Swtch s' \<Rightarrow> Some (Swtch s') | Panic e \<Rightarrow> Some (Panic e) | Fault \<Rightarrow> Some Fault | Hang \<Rightarrow> Some Hang)"

definition mlfq_level ::
  "(nat \<Rightarrow> 'b kcore_scheme \<Rightarrow> 'b kcore_scheme) \<Rightarrow> int \<Rightarrow> 'b kcore_scheme \<Rightarrow> (unit, 'b kcore_scheme) res option" where
  "mlfq_level run lev s = mlfq_scan run lev 0 (s\<lparr>checkpoint := 0, levturn := 0\<rparr>)"

definition obnd :: "('a, 's) res option \<Rightarrow> ('s \<Rightarrow> ('b, 's) res option) \<Rightarrow> ('b, 's) res option" where
  "obnd m f = (case m of None \<Rightarrow> None | Some (Ok _ s) \<Rightarrow> f s | Some (Swtch s) \<Rightarrow> Some (Swtch s)
     | Some (Panic e) \<Rightarrow> Some (Panic e) | Some Fault \<Rightarrow> Some Fault | Some Hang \<Rightarrow> Some Hang)"

definition MLFQ_Scheduler ::
  "(nat \<Rightarrow> 'b kcore_scheme \<Rightarrow> 'b kcore_scheme) \<Rightarrow> 'b kcore_scheme \<Rightarrow> (unit, 'b kcore_scheme) res option" where
  "MLFQ_Scheduler run s =
     obnd (mlfq_level run 0 (s\<lparr>c_proc := None\<rparr>)) (\<lambda>s.
     obnd (mlfq_level run 1 s) (\<lambda>s.
     obnd (mlfq_level run 2 s) (\<lambda>s. Some (Ok () (charge_mlfq 0 s)))))"

subsection \<open>Stride scheduling\<close>

fun findMinPass_scan :: "(nat \<times> proc) list \<Rightarrow> uint \<Rightarrow> nat option \<Rightarrow> (uint \<times> nat option) option" where
  "findMinPass_scan [] mx mn = Some (mx, mn)"
| "findMinPass_scan ((i, p) # ps) mx mn =
     (if p_isMLFQ p then findMinPass_scan ps mx mn
      else if p_state p \<noteq> RUNNABLE then findMinPass_scan ps mx mn
      else if dlt (p_pass p) (dint (uint mx))
      then (case duint (p_pass p) of None \<Rightarrow> None | Some w \<Rightarrow> findMinPass_scan ps w (Some i))
      else findMinPass_scan ps mx mn)"

definition findMinPass :: "(nat option, 'b) kop" where
  "findMinPass s = (case findMinPass_scan (List.enumerate 0 (ptable s)) 3000000000 None of
     None \<Rightarrow> Fault
   | Some (mx, mn) \<Rightarrow> Ok (if dlt (MLFQPassVal s) (dint (uint mx)) then None else mn) s)"

definition Stride_Scheduler :: "(nat \<Rightarrow> 'b kcore_scheme \<Rightarrow> 'b kcore_scheme) \<Rightarrow> nat \<Rightarrow> (unit, 'b) kop" where
  "Stride_Scheduler run i = seq (modify (\<lambda>s. s\<lparr>c_proc := None\<rparr>))
     (seq (modify (pset i (\<lambda>p. p\<lparr>p_pass := dadd (p_pass p) (p_stride p)\<rparr>))) (switch_to run i))"

text \<open>One iteration of the endless loop of \<open>scheduler\<close>.\<close>

definition scheduler_round ::
  "(nat \<Rightarrow> 'b kcore_scheme \<Rightarrow> 'b kcore_scheme) \<Rightarrow> 'b kcore_scheme \<Rightarrow> (unit, 'b kcore_scheme) res option" where
  "scheduler_round run s =
     obnd (Some (seq (modify boost_check) (seq (modify (\<lambda>s. s\<lparr>intr := True\<rparr>)) (acquire L_ptable)) s)) (\<lambda>s.
     obnd (if dge (leftShare s) (dint 100) then MLFQ_Scheduler run s
           else if dlt (leftShare s) (dint 100) then
             (case findMinPass s of
                Ok None s \<Rightarrow> MLFQ_Scheduler run s
              | Ok (Some i) s \<Rightarrow> Some (Stride_Scheduler run i s)
              | _ \<Rightarrow> Some Fault)
           else Some (Ok () s)) (\<lambda>s.
     Some (release L_ptable s)))"

subsection \<open>CPU shares\<close>

text \<open>The pass value a process entering stride scheduling starts from.\<close>

definition entry_pass :: "nat option \<Rightarrow> 'b kcore_scheme \<Rightarrow> double" where
  "entry_pass tmp s = (case tmp of None \<Rightarrow> MLFQPassVal s | Some j \<Rightarrow> p_pass (pget j s))"

definition charge_share :: "nat \<Rightarrow> int \<Rightarrow> (unit, 'b) kop" where
  "charge_share i share =
     bnd (gets (pget i)) (\<lambda>pr.
     seq (in_range (int_range (p_totalshare pr + share)))
     (seq (modify (pset i (\<lambda>p. p\<lparr>p_totalshare := p_totalshare p + share\<rparr>)))
     (bnd (gets (pget i)) (\<lambda>pr.
     if p_totalshare pr > 100 then panic ''cpu share overflow''
     else modify (\<lambda>s. s\<lparr>leftShare := dsub (leftShare s) (dint (p_totalshare pr))\<rparr>)))))"

definition cpu_share :: "int \<Rightarrow> (unit, 'b) kop" where
  "cpu_share share = bnd curproc (\<lambda>i. bnd (gets (pget i)) (\<lambda>p.
     seq (if p_isMainThread p then charge_share i share
          else bnd (deref (p_parent p)) (\<lambda>q. charge_share q share))
     (seq (modify (\<lambda>s. s\<lparr>MLFQStrideVal := ddiv (of_int STRIDENUM) (leftShare s)\<rparr>))
     (bnd findMinPass (\<lambda>tmp. bnd (gets (entry_pass tmp)) (\<lambda>np.
     bnd (gets (pget i)) (\<lambda>p.
     if p_isMainThread p \<and> p_cntThread p > 1 then
       modify (pmap (\<lambda>t. if p_pid t = p_pid p
         then (let sh = dint (p_totalshare p sdiv p_cntThread p) in
               t\<lparr>p_isMLFQ := False, p_share := sh, p_stride := ddiv (of_int STRIDENUM) sh, p_pass := np\<rparr>)
         else t))
     else if p_isThread p then
       bnd (deref (p_parent p)) (\<lambda>q. bnd (gets (pget q)) (\<lambda>par.
       if p_cntThread par = 0 then fault
       else modify (pmap (\<lambda>t. if p_pid t = p_pid p
         then (let sh = dint (share sdiv p_cntThread par) in
               t\<lparr>p_isMLFQ := False, p_share := sh, p_stride := ddiv (of_int STRIDENUM) sh, p_pass := np\<rparr>)
         else t))))
     else if share = 0 then fault
     else modify (pset i (\<lambda>p. p\<lparr>p_isMLFQ := False, p_share := dint share,
            p_stride := dint (STRIDENUM sdiv share), p_pass := np\<rparr>)))))))))"

definition set_cpu_share :: "int \<Rightarrow> (int, 'b) kop" where
  "set_cpu_share share = bnd (gets leftShare) (\<lambda>l.
     if dlt (dsub l (dint share)) (dint 20) then ret (- 1)
     else if share = 0 then ret (- 1)
     else seq (cpu_share share) (ret share))"

subsection \<open>Time quanta\<close>

definition timeQuantumPerQ :: "int list" where "timeQuantumPerQ = [1, 2, 4]"
definition timeAllotmentPerQ :: "int list" where "timeAllotmentPerQ = [5, 10]"

definition MLFQ_Check :: "(unit, 'b) kop" where
  "MLFQ_Check = bnd curproc (\<lambda>i. bnd (gets (pget i)) (\<lambda>p.
     seq (in_range (0 \<le> p_priority p \<and> p_priority p < 3))
     (whenM (p_pticks p \<ge> timeQuantumPerQ ! nat (p_priority p))
       (seq (modify (pset i (\<lambda>p. p\<lparr>p_pticks := 0\<rparr>)))
       (seq (whenM (p_priority p < 2 \<and> p_ptotalticks p \<ge> timeAllotmentPerQ ! nat (p_priority p))
              (modify (pset i (\<lambda>p. p\<lparr>p_ptotalticks := 0, p_priority := p_priority p + 1\<rparr>))))
        yield)))))"

text \<open>The timer part of \<open>trap\<close>: charge the tick to an MLFQ process, or preempt a stride process.\<close>

definition timer_tick :: "(unit, 'b) kop" where
  "timer_tick = bnd curproc (\<lambda>i. bnd (gets (pget i)) (\<lambda>p.
     if p_isMLFQ p then
       seq (modify (\<lambda>s. s\<lparr>MLFQ_ticks := MLFQ_ticks s + 1\<rparr>))
       (seq (modify (pset i (\<lambda>p. p\<lparr>p_pticks := p_pticks p + 1, p_ptotalticks := p_ptotalticks p + 1\<rparr>)))
        MLFQ_Check)
     else yield))"

subsection \<open>The stride scheduler picks a process of minimal truncated pass value\<close>

definition stride_cand :: "proc \<Rightarrow> bool" where
  "stride_cand p \<longleftrightarrow> \<not> p_isMLFQ p \<and> p_state p = RUNNABLE"

text \<open>The pass value as a number; the accounting keeps it finite and not negative.\<close>

definition rpass :: "double \<Rightarrow> rat" where
  "rpass d = (case d of Fin x \<Rightarrow> x | _ \<Rightarrow> 0)"

definition pass_ok :: "double \<Rightarrow> bool" where
  "pass_ok d \<longleftrightarrow> (case d of Fin x \<Rightarrow> 0 \<le> x | _ \<Rightarrow> False)"

lemma pass_okD: "pass_ok d \<Longrightarrow> d = Fin (rpass d) \<and> 0 \<le> rpass d"
  by (cases d) (auto simp: pass_ok_def rpass_def)

lemma duint_total:
  assumes "pass_ok d" "dlt d (dint (uint (mx :: uint)))"
  obtains w where "duint d = Some w" "uint w = \<lfloor>rpass d\<rfloor>" "uint w \<le> uint mx"
proof -
  obtain x where x: "d = Fin x" "0 \<le> x" "rpass d = x" using pass_okD[OF assms(1)] by metis
  have "uint mx < 2 ^ 32" using uint_lt2p[of mx] by simp
  moreover have lt: "x < of_int (uint mx)" using assms(2) x by (simp add: dint_def)
  ultimately have f: "0 \<le> \<lfloor>x\<rfloor>" "\<lfloor>x\<rfloor> < 2 ^ 32" "\<lfloor>x\<rfloor> \<le> uint mx" using x(2) by linarith+
  then have "duint d = Some (word_of_int \<lfloor>x\<rfloor>)" using x by (simp add: rtrunc_def)
  moreover have "uint (word_of_int \<lfloor>x\<rfloor> :: uint) = \<lfloor>x\<rfloor>"
    using f by (simp add: unsigned_of_int take_bit_int_eq_self)
  ultimately show ?thesis using that[of "word_of_int \<lfloor>x\<rfloor>"] x f by auto
qed

lemma findMinPass_scan_spec:
  assumes "\<forall>(i, p) \<in> set ps. stride_cand p \<longrightarrow> pass_ok (p_pass p)"
  shows "\<exists>mx mn. findMinPass_scan ps mx0 mn0 = Some (mx, mn) \<and> uint mx \<le> uint mx0 \<and>
    (\<forall>(i, p) \<in> set ps. stride_cand p \<longrightarrow> of_int (uint mx) \<le> rpass (p_pass p)) \<and>
    (mn = mn0 \<and> mx = mx0 \<or>
     (\<exists>i p. mn = Some i \<and> (i, p) \<in> set ps \<and> stride_cand p \<and> uint mx = \<lfloor>rpass (p_pass p)\<rfloor>))"
  using assms
proof (induction ps arbitrary: mx0 mn0)
  case (Cons ip ps)
  obtain i p where ip: "ip = (i, p)" by (cases ip)
  have IH: "\<forall>(i, p) \<in> set ps. stride_cand p \<longrightarrow> pass_ok (p_pass p)" using Cons.prems by simp
  note IH = Cons.IH[OF this]
  have c: "stride_cand p \<Longrightarrow> pass_ok (p_pass p)" using Cons.prems ip by simp
  show ?case
  proof (cases "stride_cand p \<and> dlt (p_pass p) (dint (uint mx0))")
    case True
    then obtain w where w: "duint (p_pass p) = Some w" "uint w = \<lfloor>rpass (p_pass p)\<rfloor>" "uint w \<le> uint mx0"
      using duint_total c by metis
    have "findMinPass_scan (ip # ps) mx0 mn0 = findMinPass_scan ps w (Some i)"
      using True w by (simp add: ip stride_cand_def)
    moreover obtain mx mn where r: "findMinPass_scan ps w (Some i) = Some (mx, mn)" "uint mx \<le> uint w"
      "\<forall>(i, p) \<in> set ps. stride_cand p \<longrightarrow> of_int (uint mx) \<le> rpass (p_pass p)"
      "mn = Some i \<and> mx = w \<or>
        (\<exists>i p. mn = Some i \<and> (i, p) \<in> set ps \<and> stride_cand p \<and> uint mx = \<lfloor>rpass (p_pass p)\<rfloor>)"
      using IH[of w "Some i"] by blast
    moreover have "of_int (uint mx) \<le> rpass (p_pass p)" using r(2) w(2) by linarith
    moreover have "\<exists>i p. mn = Some i \<and> (i, p) \<in> set (ip # ps) \<and> stride_cand p \<and> uint mx = \<lfloor>rpass (p_pass p)\<rfloor>"
      using r(4) w(2) True ip by (metis list.set_intros)
    ultimately show ?thesis using w(3) by (intro exI[of _ mx] exI[of _ mn]) (simp add: ip)
  next
    case False
    then have "findMinPass_scan (ip # ps) mx0 mn0 = findMinPass_scan ps mx0 mn0"
      by (auto simp: ip stride_cand_def)
    moreover have "stride_cand p \<Longrightarrow> of_int (uint mx0) \<le> rpass (p_pass p)"
      using False pass_okD[OF c] by (metis dint_def dlt.simps(1) not_less)
    moreover obtain mx mn where r: "findMinPass_scan ps mx0 mn0 = Some (mx, mn)" "uint mx \<le> uint mx0"
      "\<forall>(i, p) \<in> set ps. stride_cand p \<longrightarrow> of_int (uint mx) \<le> rpass (p_pass p)"
      "mn = mn0 \<and> mx = mx0 \<or>
        (\<exists>i p. mn = Some i \<and> (i, p) \<in> set ps \<and> stride_cand p \<and> uint mx = \<lfloor>rpass (p_pass p)\<rfloor>)"
      using IH[of mx0 mn0] by blast
    moreover have "of_int (uint mx) \<le> (of_int (uint mx0) :: rat)" using r(2) by (simp only: of_int_le_iff)
    ultimately have 1: "findMinPass_scan (ip # ps) mx0 mn0 = Some (mx, mn)"
      and 2: "stride_cand p \<Longrightarrow> of_int (uint mx) \<le> rpass (p_pass p)" by (auto intro: order_trans)
    have 3: "\<forall>(i, p) \<in> set (ip # ps). stride_cand p \<longrightarrow> of_int (uint mx) \<le> rpass (p_pass p)"
      using r(3) 2 by (simp add: ip)
    have 4: "mn = mn0 \<and> mx = mx0 \<or>
        (\<exists>i p. mn = Some i \<and> (i, p) \<in> set (ip # ps) \<and> stride_cand p \<and> uint mx = \<lfloor>rpass (p_pass p)\<rfloor>)"
      using r(4) by (metis list.set_intros(2))
    show ?thesis by (intro exI[of _ mx] exI[of _ mn] conjI 1 r(2) 3 4)
  qed
qed simp

lemma in_enumerate: "(i, p) \<in> set (List.enumerate 0 xs) \<longleftrightarrow> i < length xs \<and> p = xs ! i"
  by (auto simp: in_set_enumerate_eq)

text \<open>
  Claim C18. \<open>findMinPass\<close> always returns.  When it returns a process, that process is a RUNNABLE
  stride process and every RUNNABLE stride process, as well as the MLFQ scheduler, has a pass value
  not below the integer part of its pass value.  When it returns null, the MLFQ
  scheduler is strictly ahead of every RUNNABLE stride process, or none has a pass value
  below 3000000000.
\<close>

theorem findMinPass_choice:
  assumes "\<forall>i < length (ptable s). stride_cand (pget i s) \<longrightarrow> pass_ok (p_pass (pget i s))"
    and "MLFQPassVal s = Fin m"
  shows "\<exists>r. findMinPass s = Ok r s \<and> (case r of
      Some i \<Rightarrow> i < length (ptable s) \<and> stride_cand (pget i s) \<and> of_int \<lfloor>rpass (p_pass (pget i s))\<rfloor> \<le> m \<and>
        (\<forall>j < length (ptable s). stride_cand (pget j s) \<longrightarrow>
           of_int \<lfloor>rpass (p_pass (pget i s))\<rfloor> \<le> rpass (p_pass (pget j s)))
    | None \<Rightarrow>
        (\<forall>j < length (ptable s). stride_cand (pget j s) \<longrightarrow> m < rpass (p_pass (pget j s))) \<or>
        (\<forall>j < length (ptable s). stride_cand (pget j s) \<longrightarrow> 3000000000 \<le> rpass (p_pass (pget j s))))"
proof -
  have "\<forall>(i, p) \<in> set (List.enumerate 0 (ptable s)). stride_cand p \<longrightarrow> pass_ok (p_pass p)"
    using assms(1) by (auto simp: in_enumerate pget_def)
  from findMinPass_scan_spec[OF this, of 3000000000 None] obtain mx mn where
    r: "findMinPass_scan (List.enumerate 0 (ptable s)) 3000000000 None = Some (mx, mn)" and
    all0: "\<forall>(i, p) \<in> set (List.enumerate 0 (ptable s)). stride_cand p \<longrightarrow> of_int (uint mx) \<le> rpass (p_pass p)" and
    d0: "mn = None \<and> mx = 3000000000 \<or> (\<exists>i p. mn = Some i \<and> (i, p) \<in> set (List.enumerate 0 (ptable s)) \<and>
          stride_cand p \<and> uint mx = \<lfloor>rpass (p_pass p)\<rfloor>)" by blast
  have all: "\<forall>j < length (ptable s). stride_cand (pget j s) \<longrightarrow> of_int (uint mx) \<le> rpass (p_pass (pget j s))"
    using all0 unfolding pget_def by (metis (no_types, lifting) case_prodD in_enumerate)
  have d: "mn = None \<and> mx = 3000000000 \<or> (\<exists>i. mn = Some i \<and> i < length (ptable s) \<and>
          stride_cand (pget i s) \<and> uint mx = \<lfloor>rpass (p_pass (pget i s))\<rfloor>)"
    using d0 unfolding pget_def by (metis in_enumerate)
  have eq: "findMinPass s = Ok (if m < of_int (uint mx) then None else mn) s"
    by (simp add: findMinPass_def r assms(2) dint_def)
  show ?thesis
  proof (cases "m < of_int (uint mx)")
    case True
    then show ?thesis using eq all by (auto intro: less_le_trans)
  next
    case False
    from d show ?thesis
    proof
      assume n: "mn = None \<and> mx = 3000000000"
      have "uint (3000000000 :: uint) = 3000000000" by simp
      then show ?thesis using n False eq all by simp
    next
      assume "\<exists>i. mn = Some i \<and> i < length (ptable s) \<and> stride_cand (pget i s) \<and> uint mx = \<lfloor>rpass (p_pass (pget i s))\<rfloor>"
      then obtain i where i: "mn = Some i" "i < length (ptable s)" "stride_cand (pget i s)"
        "uint mx = \<lfloor>rpass (p_pass (pget i s))\<rfloor>" by blast
      show ?thesis using i False all unfolding eq i(4) by simp
    qed
  qed
qed

text \<open>Two stride processes with pass values 1.75 and 1.25.\<close>

definition two_strides :: kcore where
  "two_strides = pset 1 (\<lambda>p. p\<lparr>p_state := RUNNABLE, p_pass := Fin (5 / 4)\<rparr>)
     (pset 0 (\<lambda>p. p\<lparr>p_state := RUNNABLE, p_pass := Fin (7 / 4)\<rparr>) (kcore0\<lparr>MLFQPassVal := Fin 3\<rparr>))"

lemma two_strides_eval:
  "length (ptable two_strides) = NPROC" "MLFQPassVal two_strides = Fin 3"
  "pget 0 two_strides = proc0\<lparr>p_state := RUNNABLE, p_pass := Fin (7 / 4)\<rparr>"
  "pget (Suc 0) two_strides = proc0\<lparr>p_state := RUNNABLE, p_pass := Fin (5 / 4)\<rparr>"
  "1 < i \<Longrightarrow> i < NPROC \<Longrightarrow> pget i two_strides = proc0"
  by (simp_all add: two_strides_def kcore0_def NPROC_def pget_def nth_list_update)

lemma two_strides_cand:
  "i < NPROC \<Longrightarrow> stride_cand (pget i two_strides) \<longleftrightarrow> i = 0 \<or> i = 1"
  using two_strides_eval(5)[of i] by (cases i; cases "i - 1") (auto simp: stride_cand_def two_strides_eval)

theorem findMinPass_choice_witness:
  "\<exists>i. findMinPass two_strides = Ok (Some i) two_strides \<and> stride_cand (pget i two_strides)"
proof -
  have ok: "\<forall>i < length (ptable two_strides). stride_cand (pget i two_strides) \<longrightarrow> pass_ok (p_pass (pget i two_strides))"
    using two_strides_cand by (auto simp: two_strides_eval pass_ok_def)
  have "\<not> (\<forall>j < length (ptable two_strides). stride_cand (pget j two_strides) \<longrightarrow> 3 < rpass (p_pass (pget j two_strides)))"
    "\<not> (\<forall>j < length (ptable two_strides). stride_cand (pget j two_strides) \<longrightarrow> 3000000000 \<le> rpass (p_pass (pget j two_strides)))"
    using two_strides_cand[of 0] by (auto intro!: exI[of _ 0] simp: two_strides_eval NPROC_def rpass_def)
  then show ?thesis
    using findMinPass_choice[OF ok two_strides_eval(2)] by (auto split: option.splits)
qed

text \<open>
  The choice is not the minimum: \<open>findMinPass\<close> keeps the best pass value so far in an
  unsigned integer, so among two RUNNABLE stride processes whose pass values have the same integer
  part it returns the first in the table, here the one with the larger pass value.
\<close>

theorem findMinPass_not_minimal:
  "findMinPass two_strides = Ok (Some 0) two_strides \<and>
   stride_cand (pget 1 two_strides) \<and>
   rpass (p_pass (pget 1 two_strides)) < rpass (p_pass (pget 0 two_strides))"
proof -
  have skip: "findMinPass_scan (map (\<lambda>i. (i, proc0)) is) mx mn = Some (mx, mn)" for "is" mx mn
    by (induction "is") simp_all
  have "List.enumerate 0 (ptable two_strides) =
    (0, pget 0 two_strides) # (1, pget 1 two_strides) # map (\<lambda>i. (i, proc0)) [2..<NPROC]"
    by (rule nth_equalityI)
       (auto simp: two_strides_eval nth_enumerate_eq nth_Cons NPROC_def pget_def[symmetric] split: nat.splits)
  moreover have "\<lfloor>7 / 4 :: rat\<rfloor> = 1" by (rule floor_unique) simp_all
  ultimately have "findMinPass_scan (List.enumerate 0 (ptable two_strides)) 3000000000 None = Some (1, Some 0)"
    by (simp add: skip two_strides_eval  dint_def rtrunc_def)
  then show ?thesis
    using two_strides_cand[of 1]
    by (simp add: findMinPass_def two_strides_eval dint_def NPROC_def rpass_def )
qed

subsection \<open>The level scans\<close>

lemma boost_check_sel [simp]:
  "length (ptable (boost_check s)) = length (ptable s)" "checkpoint (boost_check s) = checkpoint s"
  "levturn (boost_check s) = levturn s" "MLFQ_ticks (boost_check s) < 100"
  "MLFQ_ticks s < 100 \<Longrightarrow> boost_check s = s"
  by (simp_all add: boost_check_def MLFQ_Boost_def not_le[symmetric])

lemma charge_mlfq_sel [simp]:
  "ptable (charge_mlfq lev s) = ptable s" "checkpoint (charge_mlfq lev s) = checkpoint s"
  "levturn (charge_mlfq lev s) = levturn s" "MLFQ_ticks (charge_mlfq lev s) = MLFQ_ticks s"
  by (simp_all add: charge_mlfq_def)

text \<open>A loop invariant of the scan, for the runs that end.\<close>

lemma mlfq_scan_invariant:
  assumes scan: "mlfq_scan run lev p s = Some (Ok () s')" and init: "I p s"
    and step: "\<And>p s q t. I p s \<Longrightarrow> mlfq_turn run lev p s = Ok (Inr q) t \<Longrightarrow> I q t"
    and exit: "\<And>p s t. I p s \<Longrightarrow> mlfq_turn run lev p s = Ok (Inl ()) t \<Longrightarrow> Q t"
  shows "Q s'"
proof -
  have "run' = run \<Longrightarrow> lev' = lev \<Longrightarrow> I p s \<Longrightarrow> r = Ok () s' \<Longrightarrow> Q s'"
    if "mlfq_scan run' lev' p s = Some r" for run' lev' p s r
    using that
  proof (induction rule: mlfq_scan.raw_induct[rotated, consumes 1, case_names body])
    case (body f run' lev' p s r)
    then show ?case using step[of p s] exit[of p s]
      by (auto split: res.splits sum.splits)
  qed
  then show ?thesis using scan init by blast
qed

text \<open>
  \<open>window d lev p s\<close>: the slot about to be tested is \<open>checkpoint mod 63\<close>, and the last
  \<open>levturn - d\<close> slots tested hold no process to run at level \<open>lev\<close>.
\<close>

definition procs_ok :: "'b kcore_scheme \<Rightarrow> bool" where
  "procs_ok s \<longleftrightarrow> (\<forall>p \<in> set (ptable s). p_state p = RUNNABLE \<longrightarrow> p_kstack p \<noteq> 0 \<and> p_pgdir p \<noteq> 0)"

definition window :: "int \<Rightarrow> int \<Rightarrow> nat \<Rightarrow> 'b kcore_scheme \<Rightarrow> bool" where
  "window d lev p s \<longleftrightarrow> length (ptable s) = NPROC \<and> (d = 0 \<longrightarrow> procs_ok s) \<and> 0 \<le> checkpoint s \<and> p \<le> 63 \<and>
     (checkpoint s mod 63 \<noteq> 0 \<longrightarrow> int p = checkpoint s mod 63) \<and>
     0 \<le> levturn s \<and> levturn s \<le> 63 \<and> (d < levturn s \<longrightarrow> MLFQ_ticks s < 100) \<and>
     (\<forall>k. 1 \<le> k \<and> k \<le> levturn s - d \<longrightarrow> \<not> mlfq_cand lev (pget (nat ((checkpoint s - k) mod 63)) s))"

text \<open>What the parameter \<open>run\<close> must respect: on a single CPU nobody else writes the scan's globals.\<close>

definition run_ok :: "(nat \<Rightarrow> 'b kcore_scheme \<Rightarrow> 'b kcore_scheme) \<Rightarrow> bool" where
  "run_ok run \<longleftrightarrow> (\<forall>i < 63. \<forall>s. length (ptable (run i s)) = length (ptable s) \<and>
     checkpoint (run i s) = checkpoint s \<and> levturn (run i s) = levturn s)"

text \<open>
  Process \<open>i\<close> leaves level \<open>lev\<close> in its turn (it sleeps, exits or has used its allotment), nobody joins the
  level meanwhile, the boost period is not over, and runnable processes have a stack and an address space.
\<close>

definition run_leaves :: "int \<Rightarrow> (nat \<Rightarrow> 'b kcore_scheme \<Rightarrow> 'b kcore_scheme) \<Rightarrow> bool" where
  "run_leaves lev run \<longleftrightarrow> (\<forall>i < 63. \<forall>s. length (ptable s) = NPROC \<and> MLFQ_ticks s < 100 \<and> procs_ok s \<longrightarrow>
     MLFQ_ticks (run i s) < 100 \<and> procs_ok (run i s) \<and>
     (\<forall>j < 63. mlfq_cand lev (pget j (run i s)) \<longrightarrow> j \<noteq> i \<and> mlfq_cand lev (pget j s)))"

lemma run_leavesD:
  assumes "run_leaves lev run" "i < 63" "length (ptable s) = NPROC" "MLFQ_ticks s < 100" "procs_ok s"
  shows "MLFQ_ticks (run i s) < 100" "procs_ok (run i s)" "\<not> mlfq_cand lev (pget i (run i s))"
    "j < 63 \<Longrightarrow> mlfq_cand lev (pget j (run i s)) \<Longrightarrow> mlfq_cand lev (pget j s)"
  using assms unfolding run_leaves_def by blast+

lemma switch_to_Ok:
  assumes "switch_to run i s = Ok u t"
  shows "\<exists>s0. t = (run i s0)\<lparr>cr3 := V2P (kpgdir (run i s0)), c_proc := None\<rparr> \<and>
    length (ptable s0) = length (ptable s) \<and> checkpoint s0 = checkpoint s \<and> levturn s0 = levturn s \<and>
    MLFQ_ticks s0 = MLFQ_ticks s \<and> ptable s0 = (ptable s)[i := (ptable s ! i)\<lparr>p_state := RUNNING\<rparr>]"
  using assms by (auto simp: switch_to_def switchuvm_def switchkvm_def Ok_elims pget_def pset_def split: if_splits)

lemma next_turn_Ok:
  "next_turn p s = Ok x t \<longleftrightarrow> checkpoint s \<noteq> 2 ^ 31 - 1 \<and> levturn s \<noteq> 2 ^ 31 - 1 \<and> x = Inr (p + 1) \<and>
     t = s\<lparr>levturn := levturn s + 1, checkpoint := checkpoint s + 1\<rparr>"
  by (auto simp: next_turn_def)

lemma procs_ok_boost [simp]: "procs_ok s \<Longrightarrow> procs_ok (boost_check s)"
  by (auto simp: procs_ok_def boost_check_def MLFQ_Boost_def boost_def)

lemma procs_ok_upd:
  "procs_ok s \<Longrightarrow> ptable s' = (ptable s)[i := (ptable s ! i)\<lparr>p_state := RUNNING\<rparr>] \<Longrightarrow> procs_ok s'"
  by (auto simp: procs_ok_def dest!: set_update_subset_insert[THEN subsetD])

lemma window_boost:
  assumes "window d lev p s" "0 \<le> d" "d \<le> 1"
  shows "window d lev p (boost_check s)"
proof (cases "d < levturn s")
  case True
  then have "MLFQ_ticks s < 100" using assms(1) by (simp add: window_def)
  then show ?thesis using assms(1) by simp
next
  case False
  then have "\<not> (1 \<le> k \<and> k \<le> levturn s - d)" for k by linarith
  then show ?thesis using assms False procs_ok_boost[of s] unfolding window_def boost_check_sel by blast
qed

lemma window_exit:
  assumes "window d lev p s" "0 \<le> d" "d \<le> 1" "levturn s = 63" "j < 63"
    and "d = 1 \<longrightarrow> int j \<noteq> checkpoint s mod 63"
  shows "\<not> mlfq_cand lev (pget j s)"
proof -
  define k where "k = (if int j < checkpoint s mod 63 then checkpoint s mod 63 - int j else checkpoint s mod 63 - int j + 63)"
  have r: "0 \<le> checkpoint s mod 63" "checkpoint s mod 63 < 63" by simp_all
  have k: "1 \<le> k" "k \<le> 63 - d" using assms r by (auto simp: k_def)
  have "(checkpoint s - k) mod 63 = (checkpoint s mod 63 - k) mod 63" by (simp add: mod_diff_left_eq)
  also have "\<dots> = int j"
  proof (cases "int j < checkpoint s mod 63")
    case True
    then show ?thesis using assms(5) by (simp add: k_def)
  next
    case False
    then have "checkpoint s mod 63 - k = int j - 63" by (simp add: k_def)
    then show ?thesis using assms(5) by simp
  qed
  finally have "(checkpoint s - k) mod 63 = int j" .
  then have "nat ((checkpoint s - k) mod 63) = j" by simp
  then show ?thesis using assms(1,4) k unfolding window_def by metis
qed

lemma mlfq_turn_Inr:
  assumes "mlfq_turn run lev p s = Ok (Inr q') t"
  defines "q \<equiv> (if checkpoint s mod 63 = 0 then 0 else p)" and "s1 \<equiv> boost_check s"
  shows "levturn s \<noteq> 63 \<and> q' = q + 1 \<and>
    (\<not> mlfq_cand lev (pget q s1) \<and> t = s1\<lparr>levturn := levturn s + 1, checkpoint := checkpoint s + 1\<rparr> \<or>
     mlfq_cand lev (pget q s1) \<and> (\<exists>s2. switch_to run q ((charge_mlfq lev s1)\<lparr>levturn := 0\<rparr>) = Ok () s2 \<and>
        t = s2\<lparr>levturn := levturn s2 + 1, checkpoint := checkpoint s2 + 1\<rparr>))"
  using assms by (auto simp: mlfq_turn_def next_turn_Ok seq_eq_Ok Let_def split: if_splits)

lemma mlfq_turn_Inl:
  assumes "mlfq_turn run lev p s = Ok (Inl u) t" "p < NPROC"
  shows "levturn s = 63 \<and> t = boost_check s"
  using assms by (auto simp: mlfq_turn_def next_turn_Ok seq_eq_Ok Let_def split: if_splits)

lemma window_shift:
  assumes "\<not> mlfq_cand lev (pget (nat (c mod 63)) s)"
    and "\<forall>k. 1 \<le> k \<and> k \<le> l - d \<longrightarrow> \<not> mlfq_cand lev (pget (nat ((c - k) mod 63)) s)"
  shows "\<forall>k. 1 \<le> k \<and> k \<le> l + 1 - d \<longrightarrow> \<not> mlfq_cand lev (pget (nat ((c + 1 - k) mod 63)) s)"
proof (intro allI impI)
  fix k assume k: "1 \<le> k \<and> k \<le> l + 1 - d"
  show "\<not> mlfq_cand lev (pget (nat ((c + 1 - k) mod 63)) s)"
  proof (cases "k = 1")
    case True
    then show ?thesis using assms(1) by simp
  next
    case False
    then have "1 \<le> k - 1 \<and> k - 1 \<le> l - d" using k by auto
    then have "\<not> mlfq_cand lev (pget (nat ((c - (k - 1)) mod 63)) s)" using assms(2) by blast
    then show ?thesis by (simp add: algebra_simps)
  qed
qed

lemma next_slot:
  assumes "(c :: int) mod 63 \<noteq> 0 \<longrightarrow> int p = c mod 63" "p \<le> 63" "0 \<le> c"
  defines "q \<equiv> (if c mod 63 = 0 then 0 else p)"
  shows "q < 63" "int q = c mod 63" "(c + 1) mod 63 \<noteq> 0 \<longrightarrow> int (q + 1) = (c + 1) mod 63" "q = nat (c mod 63)"
proof -
  show q: "int q = c mod 63" using assms by auto
  have "c mod 63 < 63" by simp
  then show "q < 63" using q by linarith
  show "(c + 1) mod 63 \<noteq> 0 \<longrightarrow> int (q + 1) = (c + 1) mod 63"
    using q by (auto simp: mod_add_eq zmod_trivial_iff) (smt (verit) mod_add_left_eq mod_pos_pos_trivial mod_self pos_mod_bound pos_mod_sign)
  show "q = nat (c mod 63)" using q by linarith
qed

lemma window_step:
  assumes w: "window d lev p s" and d: "0 \<le> d" "d \<le> 1" and run: "run_ok run"
    and lv: "d = 0 \<longrightarrow> run_leaves lev run" and turn: "mlfq_turn run lev p s = Ok (Inr q') t"
  shows "window d lev q' t"
proof -
  define q where "q = (if checkpoint s mod 63 = 0 then 0 else p)"
  define s1 where "s1 = boost_check s"
  have w1: "window d lev p s1" using window_boost[OF w d] by (simp add: s1_def)
  have c: "checkpoint s1 = checkpoint s" and l: "levturn s1 = levturn s" and tk: "MLFQ_ticks s1 < 100"
    by (simp_all add: s1_def)
  have "checkpoint s mod 63 \<noteq> 0 \<longrightarrow> int p = checkpoint s mod 63" "p \<le> 63" "0 \<le> checkpoint s"
    using w by (simp_all add: window_def)
  note n = next_slot[OF this, folded q_def]
  from mlfq_turn_Inr[OF turn, folded q_def s1_def] have l63: "levturn s \<noteq> 63" and q': "q' = q + 1"
    and alt: "\<not> mlfq_cand lev (pget q s1) \<and> t = s1\<lparr>levturn := levturn s + 1, checkpoint := checkpoint s + 1\<rparr> \<or>
     (\<exists>s2. switch_to run q ((charge_mlfq lev s1)\<lparr>levturn := 0\<rparr>) = Ok () s2 \<and>
        t = s2\<lparr>levturn := levturn s2 + 1, checkpoint := checkpoint s2 + 1\<rparr>)" by blast+
  from alt show ?thesis
  proof
    assume a: "\<not> mlfq_cand lev (pget q s1) \<and> t = s1\<lparr>levturn := levturn s + 1, checkpoint := checkpoint s + 1\<rparr>"
    then have "\<forall>k. 1 \<le> k \<and> k \<le> levturn s + 1 - d \<longrightarrow> \<not> mlfq_cand lev (pget (nat ((checkpoint s + 1 - k) mod 63)) s1)"
      using w1 n(4) by (intro window_shift) (auto simp: window_def c l)
    then show ?thesis using a w1 q' n(1,3) tk l63 by (simp add: window_def c l pget_def procs_ok_def)
  next
    assume "\<exists>s2. switch_to run q ((charge_mlfq lev s1)\<lparr>levturn := 0\<rparr>) = Ok () s2 \<and>
        t = s2\<lparr>levturn := levturn s2 + 1, checkpoint := checkpoint s2 + 1\<rparr>"
    then obtain s2 where sw: "switch_to run q ((charge_mlfq lev s1)\<lparr>levturn := 0\<rparr>) = Ok () s2"
      and t: "t = s2\<lparr>levturn := levturn s2 + 1, checkpoint := checkpoint s2 + 1\<rparr>" by blast
    from switch_to_Ok[OF sw] obtain s0 where
      s2: "s2 = (run q s0)\<lparr>cr3 := V2P (kpgdir (run q s0)), c_proc := None\<rparr>"
      and s0: "length (ptable s0) = length (ptable s1)" "checkpoint s0 = checkpoint s1" "levturn s0 = 0"
        "MLFQ_ticks s0 = MLFQ_ticks s1" "ptable s0 = (ptable s1)[q := (ptable s1 ! q)\<lparr>p_state := RUNNING\<rparr>]" by auto
    have pk: "d = 0 \<Longrightarrow> procs_ok s0" using w1 by (intro procs_ok_upd[OF _ s0(5)]) (simp add: window_def)
    have len: "length (ptable s0) = NPROC" using w1 s0(1) by (simp add: window_def)
    then have lv0: "d = 0 \<Longrightarrow> MLFQ_ticks (run q s0) < 100 \<and> procs_ok (run q s0) \<and> \<not> mlfq_cand lev (pget q (run q s0))"
      using run_leavesD(1-3)[of lev run q s0] lv s0(4) tk n(1) pk by simp
    have tt: "checkpoint t = checkpoint s + 1" "levturn t = 1" "length (ptable t) = NPROC"
      "MLFQ_ticks t = MLFQ_ticks (run q s0)" "\<And>j. pget j t = pget j (run q s0)"
      "procs_ok t = procs_ok (run q s0)"
      using run s0 len c n(1) by (simp_all add: t s2 run_ok_def pget_def procs_ok_def)
    have win: "\<not> mlfq_cand lev (pget (nat ((checkpoint t - k) mod 63)) t)" if "1 \<le> k \<and> k \<le> levturn t - d" for k
    proof -
      have "k = 1 \<and> d = 0" using that tt(2) d by linarith
      then show ?thesis using lv0 tt n(4) by simp
    qed
    show ?thesis unfolding window_def
      using tt lv0 n(1,3) q' d win w by (auto simp: window_def)
  qed
qed

lemma window_start:
  assumes "length (ptable s) = NPROC" "0 \<le> d" "d = 0 \<longrightarrow> procs_ok s"
  shows "window d lev 0 (s\<lparr>checkpoint := 0, levturn := 0\<rparr>)"
  using assms by (auto simp: window_def procs_ok_def)


subsection \<open>The scan ends\<close>

definition cands :: "int \<Rightarrow> 'b kcore_scheme \<Rightarrow> nat set" where
  "cands lev s = {j. j < 63 \<and> mlfq_cand lev (pget j s)}"

lemma finite_cands [simp]: "finite (cands lev s)"
  by (simp add: cands_def)

lemma cands_le: "card (cands lev s) \<le> 63"
proof -
  have "cands lev s \<subseteq> {..<63}" by (auto simp: cands_def)
  then have "card (cands lev s) \<le> card {..<63 :: nat}" by (intro card_mono) simp_all
  then show ?thesis by simp
qed

lemma switchuvm_ok:
  "p_kstack (pget i s) \<noteq> 0 \<Longrightarrow> p_pgdir (pget i s) \<noteq> 0 \<Longrightarrow>
   switchuvm (Some i) s = Ok () (s\<lparr>ts_esp0 := p_kstack (pget i s) + KSTACKSIZE, cr3 := V2P (p_pgdir (pget i s))\<rparr>)"
  by (simp add: switchuvm_def)

lemma switch_to_runs:
  assumes "procs_ok s" "i < length (ptable s)" "p_state (pget i s) = RUNNABLE"
  shows "\<exists>s0. switch_to run i s = Ok () ((run i s0)\<lparr>cr3 := V2P (kpgdir (run i s0)), c_proc := None\<rparr>) \<and>
    checkpoint s0 = checkpoint s \<and> levturn s0 = levturn s \<and>
    MLFQ_ticks s0 = MLFQ_ticks s \<and> ptable s0 = (ptable s)[i := (ptable s ! i)\<lparr>p_state := RUNNING\<rparr>]"
proof -
  have "p_kstack (ptable s ! i) \<noteq> 0" "p_pgdir (ptable s ! i) \<noteq> 0"
    using assms by (auto simp: procs_ok_def pget_def)
  then show ?thesis
    by (intro exI[of _ "pset i (\<lambda>p. p\<lparr>p_state := RUNNING\<rparr>) (s\<lparr>c_proc := Some i,
          ts_esp0 := p_kstack (pget i s) + KSTACKSIZE, cr3 := V2P (p_pgdir (pget i s))\<rparr>)"])
       (simp add: switch_to_def switchuvm_ok switchkvm_def pget_def pset_def seq_Ok)
qed

lemma mlfq_scan_simp:
  "mlfq_turn run lev p s = Ok (Inr q) t \<Longrightarrow> mlfq_scan run lev p s = mlfq_scan run lev q t"
  "mlfq_turn run lev p s = Ok (Inl u) t \<Longrightarrow> mlfq_scan run lev p s = Some (Ok () t)"
  by (subst mlfq_scan.simps, simp)+

lemma mlfq_turn_total:
  assumes w: "window 0 lev p s" and tk: "MLFQ_ticks s < 100" and run: "run_ok run" "run_leaves lev run"
    and l: "levturn s \<noteq> 63" and c: "checkpoint s < 2 ^ 31 - 1"
  shows "\<exists>q t. mlfq_turn run lev p s = Ok (Inr q) t \<and> MLFQ_ticks t < 100 \<and>
    checkpoint t = checkpoint s + 1 \<and>
    (levturn t = levturn s + 1 \<and> cands lev t = cands lev s \<or>
     levturn t = 1 \<and> card (cands lev t) < card (cands lev s))"
proof -
  define q where "q = (if checkpoint s mod 63 = 0 then 0 else p)"
  have b: "boost_check s = s" using tk by simp
  have "checkpoint s mod 63 \<noteq> 0 \<longrightarrow> int p = checkpoint s mod 63" "p \<le> 63" "0 \<le> checkpoint s"
    and len: "length (ptable s) = NPROC" and pk: "procs_ok s" and lr: "levturn s \<le> 63"
    using w by (simp_all add: window_def)
  note n = next_slot[OF this(1-3), folded q_def]
  have p: "p < NPROC" using \<open>p \<le> 63\<close> by (simp add: NPROC_def)
  show ?thesis
  proof (cases "mlfq_cand lev (pget q s)")
    case False
    then have "mlfq_turn run lev p s = Ok (Inr (q + 1)) (s\<lparr>levturn := levturn s + 1, checkpoint := checkpoint s + 1\<rparr>)"
      using p b l lr c by (simp add: mlfq_turn_def next_turn_def q_def Let_def)
    then show ?thesis using tk by (simp add: cands_def pget_def)
  next
    case True
    let ?s = "(charge_mlfq lev s)\<lparr>levturn := 0\<rparr>"
    obtain s0 where sw: "switch_to run q ?s = Ok () ((run q s0)\<lparr>cr3 := V2P (kpgdir (run q s0)), c_proc := None\<rparr>)"
      and s0: "checkpoint s0 = checkpoint s" "levturn s0 = 0" "MLFQ_ticks s0 = MLFQ_ticks s"
        "ptable s0 = (ptable s)[q := (ptable s ! q)\<lparr>p_state := RUNNING\<rparr>]"
      using switch_to_runs[of ?s q run] pk True n(1) len
      by (auto simp: procs_ok_def mlfq_cand_def pget_def NPROC_def)
    have len0: "length (ptable s0) = NPROC" using s0(4) len by simp
    note r = run_leavesD[OF run(2) n(1) len0 tk[folded s0(3)] procs_ok_upd[OF pk s0(4)]]
    let ?t = "(run q s0)\<lparr>cr3 := V2P (kpgdir (run q s0)), c_proc := None, levturn := 1, checkpoint := checkpoint s + 1\<rparr>"
    have "checkpoint (run q s0) = checkpoint s" "levturn (run q s0) = 0"
      using run(1) n(1) s0 by (simp_all add: run_ok_def)
    then have "mlfq_turn run lev p s = Ok (Inr (q + 1)) ?t"
      using p b l c True sw by (simp add: mlfq_turn_def next_turn_def q_def[symmetric] Let_def seq_Ok)
    moreover have "cands lev ?t \<subseteq> cands lev s - {q}"
    proof
      fix j assume "j \<in> cands lev ?t"
      then have j: "j < 63" "mlfq_cand lev (pget j (run q s0))" by (simp_all add: cands_def pget_def)
      then have "j \<noteq> q" using r(3) by auto
      moreover have "mlfq_cand lev (pget j s0)" using r(4) j by blast
      ultimately show "j \<in> cands lev s - {q}" using j(1) s0(4) by (simp add: cands_def pget_def)
    qed
    then have "card (cands lev ?t) \<le> card (cands lev s - {q})" by (intro card_mono) simp_all
    moreover have "q \<in> cands lev s" using True n(1) by (simp add: cands_def)
    ultimately have "card (cands lev ?t) < card (cands lev s)"
      using card_Diff1_less[OF finite_cands, of q lev s] by linarith
    then show ?thesis using \<open>mlfq_turn run lev p s = _\<close> r(1) by (intro exI[of _ "q + 1"] exI[of _ ?t]) simp
  qed
qed

lemma mlfq_scan_returns:
  assumes "window 0 lev p s" "MLFQ_ticks s < 100" "run_ok run" "run_leaves lev run"
    and "checkpoint s + 63 * int (card (cands lev s)) + 63 - levturn s < 2 ^ 31 - 1"
  shows "\<exists>s'. mlfq_scan run lev p s = Some (Ok () s') \<and> cands lev s' = {}"
  using assms
proof (induction "nat (63 * int (card (cands lev s)) + 63 - levturn s)" arbitrary: p s rule: less_induct)
  case less
  have l: "0 \<le> levturn s" "levturn s \<le> 63" and p: "p < NPROC" using less.prems(1) by (simp_all add: window_def NPROC_def)
  show ?case
  proof (cases "levturn s = 63")
    case True
    then have "mlfq_turn run lev p s = Ok (Inl ()) s" using p less.prems(2) by (simp add: mlfq_turn_def)
    moreover have "cands lev s = {}" using window_exit[OF less.prems(1)] True by (simp add: cands_def)
    ultimately show ?thesis using mlfq_scan_simp(2) by blast
  next
    case False
    have "checkpoint s < 2 ^ 31 - 1" using less.prems(5) l by linarith
    from mlfq_turn_total[OF less.prems(1-4) False this] obtain q t where
      turn: "mlfq_turn run lev p s = Ok (Inr q) t" and t: "MLFQ_ticks t < 100" "checkpoint t = checkpoint s + 1"
      and alt: "levturn t = levturn s + 1 \<and> cands lev t = cands lev s \<or> levturn t = 1 \<and> card (cands lev t) < card (cands lev s)"
      by blast
    have w: "window 0 lev q t" using window_step[OF less.prems(1) _ _ less.prems(3) _ turn] less.prems(4) by simp
    have "63 * int (card (cands lev t)) + 63 - levturn t < 63 * int (card (cands lev s)) + 63 - levturn s"
      using alt l False by auto
    moreover have "0 \<le> 63 * int (card (cands lev t)) + 63 - levturn t" using w by (simp add: window_def)
    ultimately have "\<exists>s'. mlfq_scan run lev q t = Some (Ok () s') \<and> cands lev s' = {}"
      using less.prems(5) t(2) by (intro less.hyps[OF _ w t(1) less.prems(3,4)]) linarith+
    then show ?thesis using mlfq_scan_simp(1)[OF turn] by simp
  qed
qed


text \<open>Two processes of level 0 in slots 2 and 7; a process sleeps in its turn.\<close>

definition two_level0 :: kcore where
  "two_level0 = pset 2 (\<lambda>p. p\<lparr>p_state := RUNNABLE, p_isMLFQ := True, p_kstack := 4096, p_pgdir := 8192\<rparr>)
     (pset 7 (\<lambda>p. p\<lparr>p_state := RUNNABLE, p_isMLFQ := True, p_kstack := 4096, p_pgdir := 8192\<rparr>) kcore0)"

definition run_sleep :: "nat \<Rightarrow> kcore \<Rightarrow> kcore" where
  "run_sleep i = pset i (\<lambda>p. p\<lparr>p_state := SLEEPING\<rparr>)"

lemma run_sleep_ok: "run_ok run_sleep" "run_leaves lev run_sleep"
  by (auto simp: run_ok_def run_leaves_def run_sleep_def procs_ok_def mlfq_cand_def pget_def nth_list_update
        NPROC_def dest!: set_update_subset_insert[THEN subsetD] split: if_splits)

lemma two_level0_ok: "length (ptable two_level0) = NPROC" "procs_ok two_level0" "MLFQ_ticks two_level0 < 100"
  by (auto simp: two_level0_def kcore0_def procs_ok_def NPROC_def dest!: set_update_subset_insert[THEN subsetD])



subsection \<open>The last slot of the process table is never scheduled\<close>

lemma mlfq_turn_cong:
  assumes "window 1 lev p s" "\<forall>i < 63. run i = run' i"
  shows "mlfq_turn run lev p s = mlfq_turn run' lev p s"
proof -
  let ?q = "if checkpoint s mod 63 = 0 then 0 else p"
  have "checkpoint s mod 63 \<noteq> 0 \<longrightarrow> int p = checkpoint s mod 63" "p \<le> 63" "0 \<le> checkpoint s"
    using assms(1) by (simp_all add: window_def)
  from next_slot(1)[OF this] have "switch_to run ?q = switch_to run' ?q"
    using assms(2) unfolding switch_to_def by metis
  then show ?thesis by (auto simp: mlfq_turn_def Let_def)
qed

lemma mlfq_scan_cong_imp:
  assumes "mlfq_scan run lev p s = Some r" "run_ok run" "\<forall>i < 63. run i = run' i" "window 1 lev p s"
  shows "mlfq_scan run' lev p s = Some r"
proof -
  have "r0 = run \<Longrightarrow> lev0 = lev \<Longrightarrow> window 1 lev p s \<Longrightarrow> mlfq_scan run' lev p s = Some r"
    if "mlfq_scan r0 lev0 p s = Some r" for r0 lev0 p s r
    using that
  proof (induction rule: mlfq_scan.raw_induct[rotated, consumes 1, case_names body])
    case (body f r0 lev0 p s r)
    have e: "mlfq_turn run' lev p s = mlfq_turn run lev p s"
      using mlfq_turn_cong[OF body.prems(3) assms(3)] by simp
    have "window 1 lev q t" if "mlfq_turn run lev p s = Ok (Inr q) t" for q t
      using window_step[OF body.prems(3) _ _ assms(2) _ that] by simp
    then show ?case
      using body.IH body.hyps body.prems(1,2)
      by (subst mlfq_scan.simps, unfold e) (simp split: res.splits sum.splits)
  qed
  then show ?thesis using assms by blast
qed



subsection \<open>Share accounting\<close>

lemma findMinPass_total:
  assumes "\<forall>p \<in> set (ptable s). stride_cand p \<longrightarrow> pass_ok (p_pass p)"
  shows "\<exists>r. findMinPass s = Ok r s"
proof -
  have "\<forall>(i, p) \<in> set (List.enumerate 0 (ptable s)). stride_cand p \<longrightarrow> pass_ok (p_pass p)"
    using assms by (auto simp: in_enumerate)
  from findMinPass_scan_spec[OF this, of 3000000000 None] show ?thesis
    by (auto simp: findMinPass_def)
qed

lemma charge_share_eq:
  assumes "int_range (p_totalshare (pget i s) + share)" "p_totalshare (pget i s) + share \<le> 100"
    and "i < length (ptable s)"
  shows "charge_share i share s = Ok () ((pset i (\<lambda>p. p\<lparr>p_totalshare := p_totalshare p + share\<rparr>) s)
    \<lparr>leftShare := dsub (leftShare s) (dint (p_totalshare (pget i s) + share))\<rparr>)"
  using assms by (simp add: charge_share_def pget_def)

text \<open>
  Claim C19. A call of \<open>set_cpu_share\<close> by a single-threaded process that passes the guards returns
  the share, moves the process to stride scheduling with stride \<open>100 / share\<close> (integer division), and
  takes from the MLFQ scheduler not the new share but the process's whole accumulated
  \<open>totalshare\<close>: a process that already has the share \<open>t\<close> is charged for it again.
\<close>

theorem set_cpu_share_charges_total:
  assumes "c_proc s = Some i" "i < length (ptable s)" "p_isMainThread (pget i s)" "\<not> p_isThread (pget i s)"
    and "p_cntThread (pget i s) = 1" "leftShare s = dint L" "0 \<le> L" "L \<le> 100"
    and "p_totalshare (pget i s) = t" "0 \<le> t" "0 < share" "t + share \<le> 100" "20 \<le> L - share"
    and "\<forall>p \<in> set (ptable s). stride_cand p \<longrightarrow> pass_ok (p_pass p)"
  shows "\<exists>s'. set_cpu_share share s = Ok share s' \<and> leftShare s' = dint (L - (t + share)) \<and>
    \<not> p_isMLFQ (pget i s') \<and> p_totalshare (pget i s') = t + share \<and>
    p_share (pget i s') = dint share \<and> p_stride (pget i s') = dint (100 div share) \<and>
    (\<forall>j. j \<noteq> i \<longrightarrow> pget j s' = pget j s)"
proof -
  let ?s1 = "(pset i (\<lambda>p. p\<lparr>p_totalshare := p_totalshare p + share\<rparr>) s)\<lparr>leftShare := dint (L - (t + share))\<rparr>"
  let ?s2 = "?s1\<lparr>MLFQStrideVal := ddiv (of_int STRIDENUM) (dint (L - (t + share)))\<rparr>"
  have "dsub (dint L) (dint (t + share)) = dint (L - (t + share))"
    using assms by (intro dsub_int) auto
  then have 1: "charge_share i share s = Ok () ?s1"
    using charge_share_eq[of i s share] assms by (simp add: int_range_def)
  have "\<forall>p \<in> set (ptable ?s2). stride_cand p \<longrightarrow> pass_ok (p_pass p)"
    using assms(2,14) by (auto simp: stride_cand_def dest!: set_update_subset_insert[THEN subsetD])
  then obtain r where 2: "findMinPass ?s2 = Ok r ?s2" using findMinPass_total by blast
  have g: "pget i ?s2 = (pget i s)\<lparr>p_totalshare := t + share\<rparr>" using assms(2,9) by (simp add: pget_def)
  let ?s3 = "pset i (\<lambda>p. p\<lparr>p_isMLFQ := False, p_share := dint share,
            p_stride := dint (STRIDENUM sdiv share), p_pass := entry_pass r ?s2\<rparr>) ?s2"
  have "cpu_share share s = Ok () ?s3"
    using assms(1-5,11) g unfolding cpu_share_def
    by (simp add: seq_Ok[of "charge_share i share", OF 1] bnd_Ok[of findMinPass, OF 2])
  moreover have "dsub (leftShare s) (dint share) = dint (L - share)"
    using assms unfolding assms(6) by (intro dsub_int) auto
  ultimately have "set_cpu_share share s = Ok share ?s3"
    using assms(11,13) by (simp add: set_cpu_share_def seq_Ok)
  moreover have "STRIDENUM sdiv share = 100 div share"
    using assms(11) by (simp add: STRIDENUM_def signed_divide_int_def)
  ultimately show ?thesis using assms(2,9) by (auto intro!: exI[of _ ?s3] simp: pget_def)
qed

text \<open>A process with share 30 asks for 30 more: 10 percent are left to the MLFQ scheduler.\<close>

theorem set_cpu_share_charges_total_witness:
  "\<exists>s'. set_cpu_share 30 ((pset 0 (\<lambda>p. p\<lparr>p_isMainThread := True, p_cntThread := 1, p_totalshare := 30\<rparr>) kcore0)
     \<lparr>c_proc := Some 0, leftShare := dint 70\<rparr>) = Ok 30 s' \<and> leftShare s' = dint 10 \<and> dlt (leftShare s') (dint 20)"
proof -
  let ?s = "(pset 0 (\<lambda>p. p\<lparr>p_isMainThread := True, p_cntThread := 1, p_totalshare := 30\<rparr>) kcore0)\<lparr>c_proc := Some 0, leftShare := dint 70\<rparr>"
  have g: "pget 0 ?s = proc0\<lparr>p_isMainThread := True, p_cntThread := 1, p_totalshare := 30\<rparr>"
    by (simp add: kcore0_def pget_def NPROC_def)
  have "\<forall>p \<in> set (ptable ?s). stride_cand p \<longrightarrow> pass_ok (p_pass p)"
    by (auto simp: kcore0_def stride_cand_def NPROC_def dest!: set_update_subset_insert[THEN subsetD])
  then show ?thesis
    using set_cpu_share_charges_total[of ?s 0 70 30 30] g by (auto simp: kcore0_def NPROC_def)
qed

subsection \<open>Demotion\<close>

text \<open>What a timer tick does to the fields of the running MLFQ process.\<close>

definition quantum_used :: "proc \<Rightarrow> bool" where
  "quantum_used p \<longleftrightarrow> timeQuantumPerQ ! nat (p_priority p) \<le> p_pticks p + 1"

definition tick_proc :: "proc \<Rightarrow> proc" where
  "tick_proc p = (let q = p\<lparr>p_pticks := p_pticks p + 1, p_ptotalticks := p_ptotalticks p + 1\<rparr> in
     if \<not> quantum_used p then q
     else if p_priority p < 2 \<and> timeAllotmentPerQ ! nat (p_priority p) \<le> p_ptotalticks q
     then q\<lparr>p_pticks := 0, p_ptotalticks := 0, p_priority := p_priority p + 1\<rparr>
     else q\<lparr>p_pticks := 0\<rparr>)"

lemma timer_tick_eq:
  assumes "c_proc s = Some i" "i < length (ptable s)" "p_isMLFQ (pget i s)" "held s = []"
    and "0 \<le> p_priority (pget i s)" "p_priority (pget i s) < 3"
  shows "timer_tick s = (let s1 = pset i tick_proc (s\<lparr>MLFQ_ticks := MLFQ_ticks s + 1\<rparr>) in
     if quantum_used (pget i s) then Swtch ((pset i (\<lambda>p. p\<lparr>p_state := RUNNABLE\<rparr>) s1)\<lparr>held := [L_ptable]\<rparr>)
     else Ok () s1)"
proof -
  let ?p = "pget i s"
  let ?q = "?p\<lparr>p_pticks := p_pticks ?p + 1, p_ptotalticks := p_ptotalticks ?p + 1\<rparr>"
  let ?s1 = "pset i (\<lambda>_. ?q) (s\<lparr>MLFQ_ticks := MLFQ_ticks s + 1\<rparr>)"
  have t1: "timer_tick s = MLFQ_Check ?s1"
    using assms(1-3) by (simp add: timer_tick_def pset_def pget_def)
  have g1: "pget i ?s1 = ?q" "c_proc ?s1 = Some i" "held ?s1 = []" using assms by (simp_all add: pget_def)
  have y: "yield t = Swtch ((pset i (\<lambda>p. p\<lparr>p_state := RUNNABLE\<rparr>) t)\<lparr>held := [L_ptable]\<rparr>)"
    if "c_proc t = Some i" "held t = []" "i < length (ptable t)" for t :: "'b kcore_scheme"
    using that by (simp add: yield_def sched_eq pget_def)
  show ?thesis
  proof (cases "quantum_used ?p")
    case False
    then show ?thesis
      using assms g1 t1 by (simp add: MLFQ_Check_def quantum_used_def tick_proc_def pget_def pset_def)
  next
    case True
    let ?lev = "p_priority ?p < 2 \<and> timeAllotmentPerQ ! nat (p_priority ?p) \<le> p_ptotalticks ?q"
    have "MLFQ_Check ?s1 = yield (pset i (\<lambda>_. tick_proc ?p) (s\<lparr>MLFQ_ticks := MLFQ_ticks s + 1\<rparr>))"
      using assms g1 True
      by (cases ?lev) (auto simp: MLFQ_Check_def quantum_used_def tick_proc_def Let_def pget_def pset_def whenM_def)
    moreover have "pset i (\<lambda>_. tick_proc ?p) (s\<lparr>MLFQ_ticks := MLFQ_ticks s + 1\<rparr>) = pset i tick_proc (s\<lparr>MLFQ_ticks := MLFQ_ticks s + 1\<rparr>)" by (simp add: pset_def pget_def)
    moreover have "yield (pset i tick_proc (s\<lparr>MLFQ_ticks := MLFQ_ticks s + 1\<rparr>)) = Swtch ((pset i
        (\<lambda>p. p\<lparr>p_state := RUNNABLE\<rparr>) (pset i tick_proc (s\<lparr>MLFQ_ticks := MLFQ_ticks s + 1\<rparr>)))\<lparr>held := [L_ptable]\<rparr>)"
      using assms by (intro y) simp_all
    ultimately show ?thesis using True t1 by (simp add: Let_def)
  qed
qed

text \<open>The level a process that never sleeps is at after \<open>n\<close> of its ticks.\<close>

lemma tick_proc_levels:
  assumes "p_priority p = 0" "p_pticks p = 0" "p_ptotalticks p = 0"
  shows "(p_priority ((tick_proc ^^ n) p), p_pticks ((tick_proc ^^ n) p), p_ptotalticks ((tick_proc ^^ n) p)) =
    (if n < 5 then (0, 0, int n) else if n < 15 then (1, int ((n - 5) mod 2), int n - 5)
     else (2, int ((n - 15) mod 4), int n - 15))"
proof (induction n)
  case 0
  then show ?case using assms by simp
next
  case (Suc n)
  define q where "q = (tick_proc ^^ n) p"
  have S: "(tick_proc ^^ Suc n) p = tick_proc q" by (simp add: q_def)
  note d = tick_proc_def quantum_used_def timeQuantumPerQ_def timeAllotmentPerQ_def Let_def
  consider "n < 4" | "n = 4" | "5 \<le> n" "n < 14" | "n = 14" | "15 \<le> n" by linarith
  then show ?case
  proof cases
    case 1
    then have "p_priority q = 0" "p_pticks q = 0" "p_ptotalticks q = int n" using Suc by (simp_all add: q_def)
    then show ?thesis using 1 unfolding S by (simp add: d)
  next
    case 2
    then have "p_priority q = 0" "p_pticks q = 0" "p_ptotalticks q = 4" using Suc by (simp_all add: q_def)
    then show ?thesis using 2 unfolding S by (simp add: d)
  next
    case 3
    then have q: "p_priority q = 1" "p_pticks q = int ((n - 5) mod 2)" "p_ptotalticks q = int n - 5" using Suc by (simp_all add: q_def)
    have "Suc n - 5 = Suc (n - 5)" using 3 by simp
    moreover have "(n - 5) mod 2 = 0 \<or> (n - 5) mod 2 = 1" by linarith
    ultimately show ?thesis using 3 q unfolding S by (auto simp: d mod_Suc)
  next
    case 4
    then have "p_priority q = 1" "p_pticks q = 1" "p_ptotalticks q = 9" using Suc by (simp_all add: q_def)
    then show ?thesis using 4 unfolding S by (simp add: d)
  next
    case 5
    then have q: "p_priority q = 2" "p_pticks q = int ((n - 15) mod 4)" "p_ptotalticks q = int n - 15" using Suc by (simp_all add: q_def)
    have "Suc n - 15 = Suc (n - 15)" using 5 by simp
    moreover have "(n - 15) mod 4 < 4" by simp
    ultimately show ?thesis using 5 q unfolding S by (auto simp: d mod_Suc)
  qed
qed

text \<open>The state after a tick, as the process sees it once it runs again.\<close>

definition after_tick :: "(unit, 'b kcore_scheme) res \<Rightarrow> 'b kcore_scheme \<Rightarrow> bool" where
  "after_tick r t \<longleftrightarrow> r = Ok () t \<or>
     (\<exists>u. r = Swtch u \<and> t = (pset (the (c_proc u)) (\<lambda>p. p\<lparr>p_state := RUNNING\<rparr>) u)\<lparr>held := []\<rparr>)"

inductive ticks_run :: "nat \<Rightarrow> 'b kcore_scheme \<Rightarrow> 'b kcore_scheme \<Rightarrow> bool" where
  ticks_0: "ticks_run 0 s s"
| ticks_Suc: "ticks_run n s t \<Longrightarrow> after_tick (timer_tick t) u \<Longrightarrow> ticks_run (Suc n) s u"

lemma tick_proc_sel [simp]:
  "p_isMLFQ (tick_proc p) = p_isMLFQ p" "p_state (tick_proc p) = p_state p"
  by (simp_all add: tick_proc_def Let_def)

lemma ticks_run_proc:
  assumes "ticks_run n s t" "c_proc s = Some i" "i < length (ptable s)" "p_isMLFQ (pget i s)" "held s = []"
    and "p_priority (pget i s) = 0" "p_pticks (pget i s) = 0" "p_ptotalticks (pget i s) = 0" "p_state (pget i s) = RUNNING"
  shows "c_proc t = Some i \<and> length (ptable t) = length (ptable s) \<and> held t = [] \<and> pget i t = (tick_proc ^^ n) (pget i s)"
  using assms
proof (induction rule: ticks_run.induct)
  case (ticks_Suc n s t u)
  have t: "c_proc t = Some i" "length (ptable t) = length (ptable s)" "held t = []" "pget i t = (tick_proc ^^ n) (pget i s)"
    using ticks_Suc by blast+
  have k: "p_isMLFQ ((tick_proc ^^ m) (pget i s))" "p_state ((tick_proc ^^ m) (pget i s)) = RUNNING" for m
    using ticks_Suc.prems by (induction m) simp_all
  have "0 \<le> p_priority (pget i t) \<and> p_priority (pget i t) < 3"
    using tick_proc_levels[OF ticks_Suc.prems(5-7), of n] t(4) by (auto split: if_splits)
  then have e: "timer_tick t = (let s1 = pset i tick_proc (t\<lparr>MLFQ_ticks := MLFQ_ticks t + 1\<rparr>) in
     if quantum_used (pget i t) then Swtch ((pset i (\<lambda>p. p\<lparr>p_state := RUNNABLE\<rparr>) s1)\<lparr>held := [L_ptable]\<rparr>)
     else Ok () s1)"
    using t k ticks_Suc.prems by (intro timer_tick_eq) auto
  have i: "i < length (ptable t)" using t ticks_Suc.prems by simp
  have r: "p\<lparr>p_state := RUNNING\<rparr> = p" if "p_state p = RUNNING" for p :: proc using that by simp
  show ?case
    using ticks_Suc.hyps(2) t i k[of "Suc n"] unfolding e after_tick_def
    by (auto simp: Let_def pget_def r split: if_splits)
qed simp


lemma ticks_run_exists:
  assumes "c_proc s = Some i" "i < length (ptable s)" "p_isMLFQ (pget i s)" "held s = []"
    and "p_priority (pget i s) = 0" "p_pticks (pget i s) = 0" "p_ptotalticks (pget i s) = 0" "p_state (pget i s) = RUNNING"
  shows "\<exists>t. ticks_run n s t"
proof (induction n)
  case (Suc n)
  then obtain t where r: "ticks_run n s t" by blast
  note t = ticks_run_proc[OF r assms]
  have "0 \<le> p_priority (pget i t) \<and> p_priority (pget i t) < 3"
    using tick_proc_levels[OF assms(5-7), of n] t by (auto split: if_splits)
  moreover have "p_isMLFQ ((tick_proc ^^ m) (pget i s))" for m using assms by (induction m) simp_all
  ultimately have "\<exists>u. after_tick (timer_tick t) u"
    using timer_tick_eq[of t i] t assms unfolding after_tick_def by (auto simp: Let_def)
  then show ?case using ticks_Suc[OF r] by blast
qed (use ticks_0 in blast)


end
