(* ===== verification/Kalloc.thy ===== *)
theory Kalloc
  imports Pool Sched Cstring
begin

text \<open>
  The page allocator (\<open>kalloc.c\<close>).  Memory is a function of the kernel virtual address; the
  free list is threaded through the first word of the free pages, as in the code.  \<open>free_pages\<close>
  reads the list back; the invariant says that it is finite, without repetition, and
  consists of page-aligned addresses of physical memory above the kernel image.  The end of the kernel
  image, a linker symbol, is the component \<open>kend\<close> of the state.
\<close>

definition PGSIZE :: uint where "PGSIZE = 4096"
definition PHYSTOP :: uint where "PHYSTOP = 0xE000000"

definition P2V :: "uint \<Rightarrow> uint" where "P2V a = a + KERNBASE"

definition PGROUNDDOWN :: "uint \<Rightarrow> uint" where
  "PGROUNDDOWN a = a AND NOT (PGSIZE - 1)"

definition PGROUNDUP :: "uint \<Rightarrow> uint" where
  "PGROUNDUP sz = (sz + PGSIZE - 1) AND NOT (PGSIZE - 1)"

record kmemst = kcore +
  mem :: mem
  freelist :: uint
  use_lock :: bool
  kend :: uint

type_synonym ('a, 'b) mop = "'b kmemst_scheme \<Rightarrow> ('a, 'b kmemst_scheme) res"

subsection \<open>Operations\<close>

definition kfree :: "uint \<Rightarrow> (unit, 'b) mop" where
  "kfree v = bnd (gets kend) (\<lambda>e.
     if v mod PGSIZE \<noteq> 0 \<or> v < e \<or> PHYSTOP \<le> V2P v then panic ''kfree''
     else seq (modify (\<lambda>s. s\<lparr>mem := memset v 1 PGSIZE (mem s)\<rparr>))
     (bnd (gets use_lock) (\<lambda>ul.
     seq (whenM ul (acquire L_kmem))
     (seq (modify (\<lambda>s. s\<lparr>mem := store32 v (freelist s) (mem s)\<rparr>))
     (seq (modify (\<lambda>s. s\<lparr>freelist := v\<rparr>))
     (whenM ul (release L_kmem)))))))"

definition kalloc :: "(uint, 'b) mop" where
  "kalloc = bnd (gets use_lock) (\<lambda>ul.
     seq (whenM ul (acquire L_kmem))
     (bnd (gets freelist) (\<lambda>r.
     seq (whenM (r \<noteq> 0) (modify (\<lambda>s. s\<lparr>freelist := load32 r (mem s)\<rparr>)))
     (seq (whenM ul (release L_kmem)) (ret r)))))"

subsection \<open>Pages of memory\<close>

definition aligned :: "uint \<Rightarrow> bool" where
  "aligned v \<longleftrightarrow> v mod PGSIZE = 0"

lemma PGSIZE_unat: "unat PGSIZE = 4096" by (simp add: PGSIZE_def)

lemma aligned_unat: "aligned v \<longleftrightarrow> 4096 dvd unat v"
  by (simp add: aligned_def word_unat_eq_iff unat_mod PGSIZE_unat dvd_eq_mod_eq_0)

lemma aligned_bound: "aligned v \<Longrightarrow> unat v \<le> 2 ^ 32 - 4096"
proof -
  assume "aligned v"
  then obtain k where k: "unat v = 4096 * k" by (auto simp: aligned_unat)
  have "unat v < 2 ^ LENGTH(32)" by (rule unsigned_less)
  then show ?thesis using k by simp
qed

text \<open>The bytes of the page at \<open>v\<close>.\<close>

definition inpage :: "uint \<Rightarrow> uint \<Rightarrow> bool" where
  "inpage v x \<longleftrightarrow> unat (x - v) < 4096"

lemma inpage_aligned: "aligned v \<Longrightarrow> inpage v x \<longleftrightarrow> unat x div 4096 = unat v div 4096"
proof -
  assume a: "aligned v"
  then obtain k where k: "unat v = 4096 * k" by (auto simp: aligned_unat)
  have b: "unat v \<le> 2 ^ 32 - 4096" using aligned_bound[OF a] .
  show ?thesis
  proof (cases "unat v \<le> unat x")
    case True
    then have "unat (x - v) = unat x - unat v" by (simp add: unat_sub word_le_nat_alt)
    then show ?thesis using True k unfolding inpage_def by simp arith
  next
    case False
    then have "unat (x - v) = 2 ^ 32 + unat x - unat v" by (simp add: unat_sub_if' word_le_nat_alt)
    then have "\<not> inpage v x" using b by (simp add: inpage_def)
    moreover have "unat x div 4096 < unat v div 4096" using False k by (simp add: div_less_iff_less_mult)
    ultimately show ?thesis by simp
  qed
qed

lemma inpage_off: "unat k < 4096 \<Longrightarrow> inpage v (v + k)"
  by (simp add: inpage_def)

lemma inpage_disjoint: "aligned v \<Longrightarrow> aligned w \<Longrightarrow> v \<noteq> w \<Longrightarrow> inpage v x \<Longrightarrow> \<not> inpage w x"
  by (auto simp: inpage_aligned aligned_unat word_unat_eq_iff elim!: dvdE)

lemma memset_page: "memset v c PGSIZE m x = (if inpage v x then ucast c else m x)"
  by (simp add: memset_stosb PGSIZE_unat stosb_apply inpage_def)

lemma load32_cong: "(\<And>k. unat k < 4 \<Longrightarrow> m (a + k) = m' (a + k)) \<Longrightarrow> load32 a m = load32 a m'"
proof -
  assume h: "\<And>k. unat k < 4 \<Longrightarrow> m (a + k) = m' (a + k)"
  from h[of 0] h[of 1] h[of 2] h[of 3] show ?thesis by (simp add: load32_def)
qed

lemma load32_page: "(\<And>x. inpage a x \<Longrightarrow> m x = m' x) \<Longrightarrow> load32 a m = load32 a m'"
  by (rule load32_cong) (simp add: inpage_off)

lemma store32_apply:
  "store32 a w m x = (if unat (x - a) < 4 then le32 w ! unat (x - a) else m x)"
proof (cases "unat (x - a) < 4")
  case True
  define d where "d = x - a"
  have x: "x = a + d" by (simp add: d_def)
  have "unat d = 0 \<or> unat d = 1 \<or> unat d = 2 \<or> unat d = 3" using True unfolding d_def by linarith
  then have "d = 0 \<or> d = 1 \<or> d = 2 \<or> d = 3" by (simp add: word_unat_eq_iff)
  then have "x = a \<or> x = a + 1 \<or> x = a + 2 \<or> x = a + 3" using x by auto
  then show ?thesis by (auto simp: store32_def le32_def)
next
  case False
  then have "x \<noteq> a" "x \<noteq> a + 1" "x \<noteq> a + 2" "x \<noteq> a + 3" by auto
  then show ?thesis using False by (simp add: store32_def)
qed

lemma store32_outside: "\<not> inpage a x \<Longrightarrow> store32 a w m x = m x"
  by (simp add: store32_apply inpage_def)

lemma load32_store32 [simp]: "load32 a (store32 a w m) = w"
proof -
  have "load32 a (store32 a w m) = un32 (le32 w)"
    by (simp add: load32_def store32_def le32_def)
  then show ?thesis by simp
qed

subsection \<open>The free list\<close>

fun chain :: "mem \<Rightarrow> uint \<Rightarrow> uint list \<Rightarrow> bool" where
  "chain m a [] \<longleftrightarrow> a = 0"
| "chain m a (p # ps) \<longleftrightarrow> a = p \<and> p \<noteq> 0 \<and> chain m (load32 p m) ps"

definition page_ok :: "'b kmemst_scheme \<Rightarrow> uint \<Rightarrow> bool" where
  "page_ok s v \<longleftrightarrow> aligned v \<and> kend s \<le> v \<and> V2P v < PHYSTOP"

definition kinv :: "'b kmemst_scheme \<Rightarrow> uint list \<Rightarrow> bool" where
  "kinv s xs \<longleftrightarrow> chain (mem s) (freelist s) xs \<and> distinct xs \<and> (\<forall>v \<in> set xs. page_ok s v) \<and>
     0 < kend s \<and> (use_lock s \<longrightarrow> L_kmem \<notin> set (held s))"

definition free_pages :: "'b kmemst_scheme \<Rightarrow> uint set" where
  "free_pages s = {v. \<exists>xs. kinv s xs \<and> v \<in> set xs}"

lemma chain_unique: "chain m a xs \<Longrightarrow> chain m a ys \<Longrightarrow> xs = ys"
proof (induction xs arbitrary: a ys)
  case Nil
  then show ?case by (cases ys) auto
next
  case (Cons x xs)
  then obtain zs where "ys = x # zs" by (cases ys) simp_all
  then show ?case using Cons.prems Cons.IH[of "load32 x m" zs] by simp
qed

lemma free_pages_eq: "kinv s xs \<Longrightarrow> free_pages s = set xs"
proof -
  assume k: "kinv s xs"
  have "ys = xs" if "kinv s ys" for ys
    using chain_unique[of "mem s" "freelist s" ys xs] that k unfolding kinv_def by blast
  then show ?thesis using k unfolding free_pages_def by blast
qed

lemma chain_cong:
  "(\<And>p. p \<in> set xs \<Longrightarrow> load32 p m = load32 p m') \<Longrightarrow> chain m a xs = chain m' a xs"
  by (induction xs arbitrary: a) auto

lemma kfree_eq:
  assumes "page_ok s v" "use_lock s \<longrightarrow> L_kmem \<notin> set (held s)"
  shows "kfree v s = Ok () (s\<lparr>mem := store32 v (freelist s) (memset v 1 PGSIZE (mem s)), freelist := v\<rparr>)"
  using assms by (auto simp: kfree_def page_ok_def aligned_def whenM_def)

lemma kalloc_eq:
  assumes "use_lock s \<longrightarrow> L_kmem \<notin> set (held s)"
  shows "kalloc s = (if freelist s = 0 then Ok 0 s
    else Ok (freelist s) (s\<lparr>freelist := load32 (freelist s) (mem s)\<rparr>))"
  using assms by (auto simp: kalloc_def whenM_def)

lemma kfree_kinv:
  assumes "kinv s xs" "page_ok s v" "v \<notin> set xs"
  shows "\<exists>s'. kfree v s = Ok () s' \<and> kinv s' (v # xs) \<and> (\<forall>x. \<not> inpage v x \<longrightarrow> mem s' x = mem s x)"
proof -
  let ?m = "store32 v (freelist s) (memset v 1 PGSIZE (mem s))"
  let ?s = "s\<lparr>mem := ?m, freelist := v\<rparr>"
  have out: "\<not> inpage v x \<Longrightarrow> ?m x = mem s x" for x by (simp add: store32_outside memset_page)
  have "load32 p ?m = load32 p (mem s)" if "p \<in> set xs" for p
    using that assms inpage_disjoint[of v p] out by (intro load32_page) (auto simp: kinv_def page_ok_def)
  then have "chain ?m (freelist s) xs" using assms(1) chain_cong[of xs ?m "mem s"] by (simp add: kinv_def)
  moreover have "v \<noteq> 0" using assms(1,2) by (auto simp: kinv_def page_ok_def)
  ultimately have "kinv ?s (v # xs)" using assms by (auto simp: kinv_def page_ok_def)
  then show ?thesis using kfree_eq[of s v] assms out by (auto simp: kinv_def)
qed

lemma kalloc_kinv:
  assumes "kinv s (v # xs)"
  shows "\<exists>s'. kalloc s = Ok v s' \<and> kinv s' xs \<and> mem s' = mem s \<and> v \<noteq> 0 \<and> page_ok s' v"
  using assms by (auto simp: kinv_def kalloc_eq page_ok_def)

lemma kalloc_empty: "kinv s [] \<Longrightarrow> kalloc s = Ok 0 s"
  by (simp add: kinv_def kalloc_eq)

subsection \<open>Initialisation\<close>

lemma kfree_Ok_range: "kfree v s = Ok u t \<Longrightarrow> unat (v + PGSIZE) = unat v + 4096"
proof -
  assume "kfree v s = Ok u t"
  then have "V2P v < PHYSTOP" by (auto simp: kfree_def not_le split: if_splits)
  then have "unat (v - 0x80000000) < 0xE000000" by (simp add: V2P_def KERNBASE_def PHYSTOP_def word_less_nat_alt)
  then have "unat v < 2 ^ 32 - 4096" by (simp add: unat_sub_if' split: if_splits)
  then show ?thesis by (simp add: unat_word_ariths PGSIZE_def)
qed

text \<open>The loop of \<open>freerange\<close>: it ends because \<open>kfree\<close> refuses addresses near the top of the address space.\<close>

function freerange_loop :: "uint \<Rightarrow> uint \<Rightarrow> (unit, 'b) mop" where
  "freerange_loop p vend s = (if p + PGSIZE \<le> vend
     then (case kfree p s of Ok _ s' \<Rightarrow> freerange_loop (p + PGSIZE) vend s'
           | Swtch s' \<Rightarrow> Swtch s' | Panic e \<Rightarrow> Panic e | Fault \<Rightarrow> Fault | Hang \<Rightarrow> Hang)
     else Ok () s)"
  by pat_completeness auto
termination
proof (relation "measure (\<lambda>(p, vend, s). unat vend - unat p)", goal_cases)
  case (2 p vend s u s')
  then have "unat (p + PGSIZE) = unat p + 4096" by (intro kfree_Ok_range)
  moreover have "unat (p + PGSIZE) \<le> unat vend" using 2(1) by (simp add: word_le_nat_alt)
  ultimately show ?case by simp
qed simp

declare freerange_loop.simps [simp del]

definition freerange :: "uint \<Rightarrow> uint \<Rightarrow> (unit, 'b) mop" where
  "freerange vstart vend = freerange_loop (PGROUNDUP vstart) vend"

definition kinit1 :: "uint \<Rightarrow> uint \<Rightarrow> (unit, 'b) mop" where
  "kinit1 vstart vend = seq (modify (\<lambda>s. s\<lparr>use_lock := False\<rparr>)) (freerange vstart vend)"

definition kinit2 :: "uint \<Rightarrow> uint \<Rightarrow> (unit, 'b) mop" where
  "kinit2 vstart vend = seq (freerange vstart vend) (modify (\<lambda>s. s\<lparr>use_lock := True\<rparr>))"

text \<open>The pages \<open>freerange\<close> frees, in its order.\<close>

definition range_pages :: "uint \<Rightarrow> uint \<Rightarrow> uint set" where
  "range_pages p vend = {v. aligned v \<and> p \<le> v \<and> unat v + 4096 \<le> unat vend}"

lemma range_pages_step:
  assumes "aligned p" "unat (p + PGSIZE) = unat p + 4096" "p + PGSIZE \<le> vend"
  shows "range_pages p vend = insert p (range_pages (p + PGSIZE) vend)"
proof -
  have "unat p + 4096 \<le> unat vend" using assms(2,3) by (simp add: word_le_nat_alt)
  moreover have "unat v = unat p \<or> unat p + 4096 \<le> unat v" if "aligned v" "p \<le> v" for v
    using that assms(1) by (auto simp: aligned_unat word_le_nat_alt elim!: dvdE)
  ultimately show ?thesis
    using assms(1,2) unfolding range_pages_def word_le_nat_alt
    by (intro set_eqI iffI) (auto simp: aligned_unat word_unat_eq_iff[of _ p] dest: add_leD1)
qed

lemma page_ok_range:
  assumes "aligned p" "kend s \<le> p" "KERNBASE \<le> p" "unat p < unat (P2V PHYSTOP)"
  shows "page_ok s p"
proof -
  have "unat p < 0x8E000000" "0x80000000 \<le> unat p"
    using assms(3,4) by (simp_all add: P2V_def PHYSTOP_def KERNBASE_def word_le_nat_alt)
  then have "unat (p - 0x80000000) < 0xE000000" by (simp add: unat_sub_if' word_le_nat_alt)
  then show ?thesis using assms(1,2)
    by (simp add: page_ok_def V2P_def KERNBASE_def PHYSTOP_def word_less_nat_alt)
qed

lemma aligned_next: "aligned p \<Longrightarrow> unat (p + PGSIZE) = unat p + 4096 \<Longrightarrow> aligned (p + PGSIZE)"
  by (simp add: aligned_unat)

lemma freerange_loop_spec:
  assumes "kinv s xs" "aligned p" "kend s \<le> p" "KERNBASE \<le> p" "p \<le> vend" "unat vend \<le> unat (P2V PHYSTOP)"
    and "set xs \<inter> range_pages p vend = {}"
  shows "\<exists>s' ys. freerange_loop p vend s = Ok () s' \<and> kinv s' ys \<and> set ys = set xs \<union> range_pages p vend
     \<and> kend s' = kend s"
  using assms
proof (induction p vend s arbitrary: xs rule: freerange_loop.induct)
  case (1 p vend s)
  note prems = 1(2-8)
  have top: "unat (P2V PHYSTOP) = 0x8E000000" by (simp add: P2V_def PHYSTOP_def KERNBASE_def)
  have nowrap: "unat (p + PGSIZE) = unat p + 4096"
    using prems(5,6) top by (simp add: unat_word_ariths PGSIZE_def word_le_nat_alt)
  show ?case
  proof (cases "p + PGSIZE \<le> vend")
    case False
    then have "range_pages p vend = {}" using nowrap by (auto simp: range_pages_def word_le_nat_alt)
    then show ?thesis using prems(1) False by (subst freerange_loop.simps) auto
  next
    case True
    have "unat p < unat (P2V PHYSTOP)" using True nowrap prems(6) by (simp add: word_le_nat_alt)
    then have ok: "page_ok s p" using prems by (intro page_ok_range)
    have rp: "range_pages p vend = insert p (range_pages (p + PGSIZE) vend)"
      using prems(2) nowrap True by (intro range_pages_step)
    then have nin: "p \<notin> set xs" using prems(7) by auto
    obtain s1 where k: "kfree p s = Ok () s1" "kinv s1 (p # xs)" using kfree_kinv[OF prems(1) ok nin] by blast
    have e: "kend s1 = kend s" using k(1) kfree_eq[OF ok] prems(1) by (auto simp: kinv_def)
    have "p \<notin> range_pages (p + PGSIZE) vend" using nowrap by (auto simp: range_pages_def word_le_nat_alt)
    then have d: "set (p # xs) \<inter> range_pages (p + PGSIZE) vend = {}" using prems(7) rp by auto
    have "kend s1 \<le> p + PGSIZE" "KERNBASE \<le> p + PGSIZE"
      using prems(3,4) nowrap e by (simp_all add: word_le_nat_alt)
    from 1(1)[OF True k(1) k(2) aligned_next[OF prems(2) nowrap] this True prems(6) d]
    show ?thesis using k(1) True rp e by (subst freerange_loop.simps) auto
  qed
qed

lemma PGROUNDDOWN_shift: "PGROUNDDOWN a = push_bit 12 (drop_bit 12 a)"
proof -
  have "PGSIZE - 1 = mask 12" by (simp add: PGSIZE_def mask_eq_exp_minus_1)
  then show ?thesis unfolding PGROUNDDOWN_def
    by (simp only:) (rule bit_word_eqI, auto simp: bit_simps)
qed

lemma PGROUNDDOWN_unat: "unat (PGROUNDDOWN a) = unat a div 4096 * 4096"
proof -
  have "unat a < 2 ^ LENGTH(32)" by (rule unsigned_less)
  then have "unat a div 4096 * 4096 < 2 ^ 32" by simp
  then show ?thesis
    by (simp add: PGROUNDDOWN_shift push_bit_eq_mult drop_bit_eq_div unat_word_ariths unat_div)
qed

lemma PGROUNDUP_unat:
  assumes "unat a + 4095 < 2 ^ 32"
  shows "unat (PGROUNDUP a) = (unat a + 4095) div 4096 * 4096"
proof -
  have "PGROUNDUP a = PGROUNDDOWN (a + 4095)" by (simp add: PGROUNDUP_def PGROUNDDOWN_def PGSIZE_def add.commute)
  then show ?thesis using assms by (simp add: PGROUNDDOWN_unat unat_word_ariths)
qed

lemma PGROUNDUP_least:
  assumes "unat a + 4095 < 2 ^ 32"
  shows "aligned (PGROUNDUP a)" "a \<le> PGROUNDUP a" "aligned v \<Longrightarrow> PGROUNDUP a \<le> v \<longleftrightarrow> a \<le> v"
proof -
  show "aligned (PGROUNDUP a)" by (simp add: aligned_unat PGROUNDUP_unat[OF assms])
  show 1: "a \<le> PGROUNDUP a" using PGROUNDUP_unat[OF assms] by (simp add: word_le_nat_alt)
  assume "aligned v"
  then obtain k where k: "unat v = 4096 * k" by (auto simp: aligned_unat)
  then show "PGROUNDUP a \<le> v \<longleftrightarrow> a \<le> v" using 1 PGROUNDUP_unat[OF assms] unfolding word_le_nat_alt by simp arith
qed

text \<open>
  Claim C20. \<open>kinit1\<close> on an empty free list puts exactly the whole pages of the given
  range on the free list, each once, and returns; the allocator's invariant holds afterwards.
\<close>

theorem kinit1_free_list:
  assumes "freelist s = 0" "0 < kend s" "kend s \<le> vstart" "KERNBASE \<le> vstart" "PGROUNDUP vstart \<le> vend"
    and "vstart < P2V PHYSTOP" "vend \<le> P2V PHYSTOP"
  shows "\<exists>s' ys. kinit1 vstart vend s = Ok () s' \<and> kinv s' ys \<and>
    set ys = {v. aligned v \<and> vstart \<le> v \<and> unat v + 4096 \<le> unat vend}"
proof -
  have top: "unat (P2V PHYSTOP) = 0x8E000000" by (simp add: P2V_def PHYSTOP_def KERNBASE_def)
  have b: "unat vstart + 4095 < 2 ^ 32" using assms(6) top by (simp add: word_less_nat_alt)
  note g = PGROUNDUP_least[OF b]
  let ?s = "s\<lparr>use_lock := False\<rparr>"
  have "kinv ?s []" using assms(1,2) by (simp add: kinv_def)
  moreover have "kend ?s \<le> PGROUNDUP vstart" "KERNBASE \<le> PGROUNDUP vstart"
    using assms(3,4) g(2) by (auto intro: order_trans)
  ultimately have "\<exists>s' ys. freerange_loop (PGROUNDUP vstart) vend ?s = Ok () s' \<and> kinv s' ys \<and>
      set ys = set [] \<union> range_pages (PGROUNDUP vstart) vend \<and> kend s' = kend ?s"
    using assms(5,7) g(1) by (intro freerange_loop_spec) (simp_all add: word_le_nat_alt)
  moreover have "range_pages (PGROUNDUP vstart) vend = {v. aligned v \<and> vstart \<le> v \<and> unat v + 4096 \<le> unat vend}"
    using g(3) by (auto simp: range_pages_def)
  ultimately show ?thesis by (auto simp: kinit1_def freerange_def)
qed

subsection \<open>The allocator provides the pool contract\<close>

definition kalloc_page :: "(uint option, 'b) mop" where
  "kalloc_page = bnd kalloc (\<lambda>r. ret (if r = 0 then None else Some r))"

definition kmem_ok :: "'b kmemst_scheme \<Rightarrow> bool" where
  "kmem_ok s \<longleftrightarrow> (\<exists>xs. kinv s xs)"

interpretation pages: pool kmem_ok free_pages kalloc_page kfree "\<lambda>v s. page_ok s v"
proof
  fix s :: "'b kmemst_scheme" assume "kmem_ok s"
  then obtain xs where xs: "kinv s xs" by (auto simp: kmem_ok_def)
  note f = free_pages_eq[OF xs]
  show "finite (free_pages s)" by (simp add: f)
  show "kalloc_page s = Ok None s" if "free_pages s = {}"
    using that xs f kalloc_empty[of s] by (simp add: kalloc_page_def bnd_Ok)
  show "\<exists>p s'. kalloc_page s = Ok (Some p) s' \<and> kmem_ok s' \<and> p \<in> free_pages s \<and>
      free_pages s' = free_pages s - {p} \<and> page_ok s' p" if ne: "free_pages s \<noteq> {}"
  proof -
    obtain v ys where v: "xs = v # ys" using ne f by (cases xs) auto
    then obtain s' where s': "kalloc s = Ok v s'" "kinv s' ys" "v \<noteq> 0" "page_ok s' v"
      using kalloc_kinv xs by blast
    have "free_pages s' = set ys" by (rule free_pages_eq[OF s'(2)])
    moreover have "v \<notin> set ys" using xs v by (simp add: kinv_def)
    ultimately show ?thesis
      using s' f v by (auto simp: kalloc_page_def bnd_Ok kmem_ok_def)
  qed
  show "\<exists>s'. kfree v s = Ok () s' \<and> kmem_ok s' \<and> free_pages s' = insert v (free_pages s)"
    if pv: "page_ok s v" and nf: "v \<notin> free_pages s" for v
  proof -
    obtain s' where "kfree v s = Ok () s'" "kinv s' (v # xs)" using kfree_kinv[OF xs pv] nf f by blast
    then show ?thesis using free_pages_eq[of s' "v # xs"] f by (auto simp: kmem_ok_def)
  qed
qed

text \<open>
  Claim C10. \<open>n\<close> calls of \<open>kalloc\<close> return pairwise distinct pages from the free list, exactly
  the smaller of \<open>n\<close> and the number of free pages many, and those pages are no longer free.
\<close>

theorem kalloc_distinct_pages:
  assumes "kmem_ok s"
  shows "\<exists>ps s'. alloc_many kalloc_page n s = Ok ps s' \<and> kmem_ok s' \<and> distinct ps \<and> set ps \<subseteq> free_pages s \<and>
    free_pages s' = free_pages s - set ps \<and> length ps = min n (card (free_pages s))"
  using assms by (rule pages.alloc_many_distinct)

text \<open>A machine whose kernel image ends at \<open>KERNBASE + 0x200000\<close>.\<close>

definition kmem0 :: kmemst where
  "kmem0 = kcore.extend kcore0 (kmemst.fields (\<lambda>_. 0) 0 False 0x80200000)"

lemma kmem0_sel [simp]: "mem kmem0 = (\<lambda>_. 0)" "freelist kmem0 = 0" "use_lock kmem0 = False" "kend kmem0 = 0x80200000"
  "held kmem0 = []"
  by (simp_all add: kmem0_def kcore.defs kmemst.defs kcore0_def)

theorem kinit1_free_list_witness:
  "\<exists>s' ys. kinit1 0x80200000 0x80203000 kmem0 = Ok () s' \<and> kinv s' ys \<and> 0x80201000 \<in> set ys"
proof -
  have "\<exists>s' ys. kinit1 0x80200000 0x80203000 kmem0 = Ok () s' \<and> kinv s' ys \<and>
    set ys = {v. aligned v \<and> 0x80200000 \<le> v \<and> unat v + 4096 \<le> unat (0x80203000 :: uint)}"
    by (rule kinit1_free_list) (simp_all add: PGROUNDUP_def PGSIZE_def KERNBASE_def P2V_def PHYSTOP_def)
  moreover have "0x80201000 \<in> {v. aligned v \<and> 0x80200000 \<le> v \<and> unat v + 4096 \<le> unat (0x80203000 :: uint)}"
    by (simp add: aligned_def PGSIZE_def)
  ultimately show ?thesis by metis
qed

theorem kalloc_distinct_pages_witness:
  "\<exists>s1 s' p. kfree 0x80200000 kmem0 = Ok () s1 \<and> alloc_many kalloc_page 3 s1 = Ok [p] s'"
proof -
  have "kinv kmem0 []" by (simp add: kinv_def)
  moreover have "page_ok kmem0 0x80200000"
    by (simp add: page_ok_def aligned_def PGSIZE_def V2P_def KERNBASE_def PHYSTOP_def)
  ultimately obtain s1 where k: "kfree 0x80200000 kmem0 = Ok () s1" "kinv s1 [0x80200000]"
    using kfree_kinv[of kmem0 "[]" "0x80200000"] by auto
  then have "free_pages s1 = {0x80200000}" using free_pages_eq[OF k(2)] by simp
  then have "card (free_pages s1) = 1" by simp
  then show ?thesis
    using kalloc_distinct_pages[of s1 3] k by (auto simp: kmem_ok_def length_Suc_conv)
qed

end
