(* ===== verification/Sleeplock.thy ===== *)
theory Sleeplock
  imports Kalloc
begin

text \<open>
  Sleep locks (\<open>sleeplock.c\<close>).  All sleep locks of the kernel live in one map, indexed by
  the buffer or inode they belong to.  A thread that finds the lock taken goes to sleep, the outcome
  \<open>Swtch\<close>; \<open>acquiresleep_wake\<close> is what it does when it runs again.
\<close>

record sleeplock =
  sl_locked :: bool
  sl_pid :: int

record slst = kmemst +
  slocks :: "slid \<Rightarrow> sleeplock"

type_synonym ('a, 'b) sop = "'b slst_scheme \<Rightarrow> ('a, 'b slst_scheme) res"

definition sl_set :: "slid \<Rightarrow> sleeplock \<Rightarrow> 'b slst_scheme \<Rightarrow> 'b slst_scheme" where
  "sl_set l v s = s\<lparr>slocks := (slocks s)(l := v)\<rparr>"

definition initsleeplock :: "slid \<Rightarrow> (unit, 'b) sop" where
  "initsleeplock l = modify (sl_set l \<lparr>sl_locked = False, sl_pid = 0\<rparr>)"

definition acquiresleep_loop :: "slid \<Rightarrow> (unit, 'b) sop" where
  "acquiresleep_loop l = bnd (gets (\<lambda>s. sl_locked (slocks s l))) (\<lambda>b.
     if b then sleep (ChanSleepLock l) (Some (L_sleep l))
     else bnd curproc (\<lambda>i. bnd (gets (pget i)) (\<lambda>p.
       seq (modify (sl_set l \<lparr>sl_locked = True, sl_pid = p_pid p\<rparr>))
       (release (L_sleep l)))))"

definition acquiresleep :: "slid \<Rightarrow> (unit, 'b) sop" where
  "acquiresleep l = seq (acquire (L_sleep l)) (acquiresleep_loop l)"

definition acquiresleep_wake :: "slid \<Rightarrow> (unit, 'b) sop" where
  "acquiresleep_wake l = bnd curproc (\<lambda>i. seq (sleep_resume (L_sleep l) i) (acquiresleep_loop l))"

definition releasesleep :: "slid \<Rightarrow> (unit, 'b) sop" where
  "releasesleep l = seq (acquire (L_sleep l))
     (seq (modify (sl_set l \<lparr>sl_locked = False, sl_pid = 0\<rparr>))
     (seq (wakeup (ChanSleepLock l)) (release (L_sleep l))))"

definition holdingsleep :: "slid \<Rightarrow> (bool, 'b) sop" where
  "holdingsleep l = seq (acquire (L_sleep l)) (bnd (gets (\<lambda>s. sl_locked (slocks s l))) (\<lambda>r.
     seq (release (L_sleep l)) (ret r)))"

subsection \<open>Behaviour in a thread that holds no spin lock\<close>

text \<open>A thread in the middle of a system call: no spin lock held, a current process.\<close>

definition thr_ok :: "'b kcore_scheme \<Rightarrow> bool" where
  "thr_ok s \<longleftrightarrow> held s = [] \<and> (\<exists>p. c_proc s = Some p \<and> p < length (ptable s))"

definition cur_pid :: "'b kcore_scheme \<Rightarrow> int" where
  "cur_pid s = p_pid (pget (the (c_proc s)) s)"

lemma sl_set_sel [simp]:
  "held (sl_set l v s) = held s" "c_proc (sl_set l v s) = c_proc s" "ptable (sl_set l v s) = ptable s"
  "slocks (sl_set l v s) = (slocks s)(l := v)" "mem (sl_set l v s) = mem s"
  "pget i (sl_set l v s) = pget i s"
  by (simp_all add: sl_set_def pget_def)

lemma sl_set_held [simp]: "sl_set l v (s\<lparr>held := h\<rparr>) = (sl_set l v s)\<lparr>held := h\<rparr>"
  by (simp add: sl_set_def)

lemma acquiresleep_free:
  assumes "thr_ok s" "\<not> sl_locked (slocks s l)"
  shows "acquiresleep l s = Ok () (sl_set l \<lparr>sl_locked = True, sl_pid = cur_pid s\<rparr> s)"
  using assms by (auto simp: acquiresleep_def acquiresleep_loop_def thr_ok_def cur_pid_def sl_set_def pget_def)

lemma acquiresleep_taken:
  assumes "thr_ok s" "sl_locked (slocks s l)"
  shows "\<exists>s'. acquiresleep l s = Swtch s' \<and> slocks s' = slocks s \<and> held s' = [L_ptable] \<and>
    p_state (pget (the (c_proc s)) s') = SLEEPING \<and> p_chan (pget (the (c_proc s)) s') = ChanSleepLock l"
proof -
  obtain p where p: "c_proc s = Some p" "p < length (ptable s)" "held s = []" using assms(1) by (auto simp: thr_ok_def)
  have "sleep (ChanSleepLock l) (Some (L_sleep l)) (s\<lparr>held := [L_sleep l]\<rparr>) =
    Swtch ((pset p (\<lambda>p. p\<lparr>p_chan := ChanSleepLock l, p_state := SLEEPING\<rparr>) (s\<lparr>held := [L_sleep l]\<rparr>))\<lparr>held := [L_ptable]\<rparr>)"
    using p by (intro sleep_eq) simp_all
  then have "acquiresleep l s = Swtch ((pset p (\<lambda>p. p\<lparr>p_chan := ChanSleepLock l, p_state := SLEEPING\<rparr>) s)\<lparr>held := [L_ptable]\<rparr>)"
    using p assms(2) by (simp add: acquiresleep_def acquiresleep_loop_def)
  then show ?thesis using p by (simp add: pget_def pset_def)
qed

lemma releasesleep_eq:
  assumes "thr_ok s"
  shows "releasesleep l s = Ok () (pmap (wake (ChanSleepLock l)) (sl_set l \<lparr>sl_locked = False, sl_pid = 0\<rparr> s))"
proof -
  have h: "held s = []" using assms by (simp add: thr_ok_def)
  let ?t = "(sl_set l \<lparr>sl_locked = False, sl_pid = 0\<rparr> s)\<lparr>held := [L_sleep l]\<rparr>"
  have "wakeup (ChanSleepLock l) ?t = Ok () (pmap (wake (ChanSleepLock l)) ?t)"
    by (rule wakeup_eq) simp
  then show ?thesis using h by (simp add: releasesleep_def seq_Ok release_def)
qed

lemma holdingsleep_eq:
  assumes "thr_ok s"
  shows "holdingsleep l s = Ok (sl_locked (slocks s l)) s"
  using assms by (simp add: holdingsleep_def thr_ok_def seq_def bnd_def release_def)

lemma thr_ok_sl_set [simp]: "thr_ok (sl_set l v s) = thr_ok s"
  by (simp add: thr_ok_def)

lemma thr_ok_pmap [simp]: "thr_ok (pmap f s) = thr_ok s"
  by (simp add: thr_ok_def)


definition sl0 :: slst where
  "sl0 = kmemst.extend kmem0 (slst.fields (\<lambda>_. \<lparr>sl_locked = False, sl_pid = 0\<rparr>))"

lemma sl0_sel [simp]: "held sl0 = []" "ptable sl0 = replicate NPROC proc0" "slocks sl0 l = \<lparr>sl_locked = False, sl_pid = 0\<rparr>"
  by (simp_all add: sl0_def kmemst.defs slst.defs kmem0_def kcore.defs kcore0_def)


end
