(* ===== verification/Bio.thy ===== *)
theory Bio
  imports Sleeplock
begin

text \<open>
  The buffer cache (\<open>bio.c\<close>) over the memory disk (\<open>memide.c\<close>).  Buffers are indexed by
  \<open>0..<NBUF\<close>, the list head is the index \<open>NBUF\<close>.  The link fields \<open>prev\<close> and \<open>next\<close> of the buffers
  and of the head are the maps \<open>bprev\<close> and \<open>bnext\<close>; the bits \<open>B_VALID\<close> and \<open>B_DIRTY\<close> of \<open>flags\<close> are
  two Booleans; the disk is a map from block numbers to blocks.  \<open>wtrace\<close> records the
  block writes that reach the disk, in order, and has no influence on the code: the crash theorems of the
  log quantify over its prefixes.

  The ring of buffers is related to an abstract list in most-recently-used order, and the
  operations to their effect on the logical contents \<open>lblk\<close> of the disk seen through the cache.
\<close>

definition NBUF :: nat where "NBUF = 30"
definition BSIZE :: nat where "BSIZE = 512"

record buf =
  b_valid :: bool
  b_dirty :: bool
  b_dev :: uint
  b_blockno :: uint
  b_refcnt :: uint
  b_data :: bytes

record biost = slst +
  bufs :: "buf list"
  bnext :: "nat \<Rightarrow> nat"
  bprev :: "nat \<Rightarrow> nat"
  disk :: "uint \<Rightarrow> bytes"
  disksize :: uint
  wtrace :: "(uint \<times> bytes) list"

type_synonym ('a, 'b) bop = "'b biost_scheme \<Rightarrow> ('a, 'b biost_scheme) res"

definition bget_buf :: "nat \<Rightarrow> 'b biost_scheme \<Rightarrow> buf" where
  "bget_buf b s = bufs s ! b"

definition bset :: "nat \<Rightarrow> (buf \<Rightarrow> buf) \<Rightarrow> 'b biost_scheme \<Rightarrow> 'b biost_scheme" where
  "bset b f s = s\<lparr>bufs := (bufs s)[b := f (bufs s ! b)]\<rparr>"

subsection \<open>The disk driver (memide.c)\<close>

definition iderw :: "nat \<Rightarrow> (unit, 'b) bop" where
  "iderw b = bnd (holdingsleep (SL_buf b)) (\<lambda>h.
     if \<not> h then panic ''iderw: buf not locked''
     else bnd (gets (bget_buf b)) (\<lambda>x.
     if b_valid x \<and> \<not> b_dirty x then panic ''iderw: nothing to do''
     else if b_dev x \<noteq> 1 then panic ''iderw: request not for disk 1''
     else bnd (gets disksize) (\<lambda>n.
     if n \<le> b_blockno x then panic ''iderw: block out of range''
     else seq (if b_dirty x
          then seq (modify (bset b (\<lambda>x. x\<lparr>b_dirty := False\<rparr>)))
               (modify (\<lambda>s. s\<lparr>disk := (disk s)(b_blockno x := b_data x),
                              wtrace := wtrace s @ [(b_blockno x, b_data x)]\<rparr>))
          else modify (\<lambda>s. bset b (\<lambda>x. x\<lparr>b_data := disk s (b_blockno x)\<rparr>) s))
     (modify (bset b (\<lambda>x. x\<lparr>b_valid := True\<rparr>))))))"

subsection \<open>The cache (bio.c)\<close>

text \<open>Put \<open>b\<close> right behind the head of the ring.\<close>

definition link_front :: "nat \<Rightarrow> 'b biost_scheme \<Rightarrow> 'b biost_scheme" where
  "link_front b s =
     (let s1 = s\<lparr>bnext := (bnext s)(b := bnext s NBUF)\<rparr>;
          s2 = s1\<lparr>bprev := (bprev s1)(b := NBUF)\<rparr>;
          s3 = s2\<lparr>bprev := (bprev s2)(bnext s2 NBUF := b)\<rparr>
      in s3\<lparr>bnext := (bnext s3)(NBUF := b)\<rparr>)"

definition binit :: "(unit, 'b) bop" where
  "binit = seq (modify (\<lambda>s. s\<lparr>bprev := (bprev s)(NBUF := NBUF), bnext := (bnext s)(NBUF := NBUF)\<rparr>))
     (forM [0..<NBUF] (\<lambda>b. seq (initsleeplock (SL_buf b)) (modify (link_front b))))"

text \<open>
  A walk along the ring from \<open>b\<close> until the head: \<open>Some (Some b)\<close> is the first hit, \<open>Some None\<close> the head.
  A walk of \<open>NBUF + 1\<close> steps that never meets the head visits a buffer twice, so it never ends.
\<close>

fun bfind :: "nat \<Rightarrow> (nat \<Rightarrow> nat) \<Rightarrow> (nat \<Rightarrow> bool) \<Rightarrow> nat \<Rightarrow> nat option option" where
  "bfind 0 nx P b = None"
| "bfind (Suc k) nx P b = (if b = NBUF then Some None else if P b then Some (Some b) else bfind k nx P (nx b))"

definition bget :: "uint \<Rightarrow> uint \<Rightarrow> (nat, 'b) bop" where
  "bget dev blockno = seq (acquire L_bcache)
     (bnd (gets (\<lambda>s. bfind (NBUF + 1) (bnext s)
        (\<lambda>b. b_dev (bufs s ! b) = dev \<and> b_blockno (bufs s ! b) = blockno) (bnext s NBUF))) (\<lambda>r.
     case r of None \<Rightarrow> hang
     | Some (Some b) \<Rightarrow>
         seq (modify (bset b (\<lambda>x. x\<lparr>b_refcnt := b_refcnt x + 1\<rparr>)))
         (seq (release L_bcache) (seq (acquiresleep (SL_buf b)) (ret b)))
     | Some None \<Rightarrow>
         bnd (gets (\<lambda>s. bfind (NBUF + 1) (bprev s)
            (\<lambda>b. b_refcnt (bufs s ! b) = 0 \<and> \<not> b_dirty (bufs s ! b)) (bprev s NBUF))) (\<lambda>r.
         case r of None \<Rightarrow> hang
         | Some None \<Rightarrow> panic ''bget: no buffers''
         | Some (Some b) \<Rightarrow>
             seq (modify (bset b (\<lambda>x. x\<lparr>b_dev := dev, b_blockno := blockno, b_valid := False, b_dirty := False, b_refcnt := 1\<rparr>)))
             (seq (release L_bcache) (seq (acquiresleep (SL_buf b)) (ret b))))))"

definition bread :: "uint \<Rightarrow> uint \<Rightarrow> (nat, 'b) bop" where
  "bread dev blockno = bnd (bget dev blockno) (\<lambda>b. bnd (gets (bget_buf b)) (\<lambda>x.
     seq (whenM (\<not> b_valid x) (iderw b)) (ret b)))"

definition bwrite :: "nat \<Rightarrow> (unit, 'b) bop" where
  "bwrite b = bnd (holdingsleep (SL_buf b)) (\<lambda>h.
     if \<not> h then panic ''bwrite''
     else seq (modify (bset b (\<lambda>x. x\<lparr>b_dirty := True\<rparr>))) (iderw b))"

definition unlink_buf :: "nat \<Rightarrow> 'b biost_scheme \<Rightarrow> 'b biost_scheme" where
  "unlink_buf b s =
     (let s1 = s\<lparr>bprev := (bprev s)(bnext s b := bprev s b)\<rparr>
      in s1\<lparr>bnext := (bnext s1)(bprev s1 b := bnext s1 b)\<rparr>)"

definition brelse :: "nat \<Rightarrow> (unit, 'b) bop" where
  "brelse b = bnd (holdingsleep (SL_buf b)) (\<lambda>h.
     if \<not> h then panic ''brelse''
     else seq (releasesleep (SL_buf b))
     (seq (acquire L_bcache)
     (seq (modify (bset b (\<lambda>x. x\<lparr>b_refcnt := b_refcnt x - 1\<rparr>)))
     (bnd (gets (bget_buf b)) (\<lambda>x.
     seq (whenM (b_refcnt x = 0) (seq (modify (unlink_buf b)) (modify (link_front b))))
     (release L_bcache))))))"

subsection \<open>Doubly linked rings\<close>

text \<open>\<open>seg nx pv p xs n\<close>: following \<open>nx\<close> from \<open>p\<close> gives \<open>xs\<close> and then \<open>n\<close>, and \<open>pv\<close> leads back.\<close>

fun seg :: "(nat \<Rightarrow> nat) \<Rightarrow> (nat \<Rightarrow> nat) \<Rightarrow> nat \<Rightarrow> nat list \<Rightarrow> nat \<Rightarrow> bool" where
  "seg nx pv p [] n \<longleftrightarrow> nx p = n \<and> pv n = p"
| "seg nx pv p (x # xs) n \<longleftrightarrow> nx p = x \<and> pv x = p \<and> seg nx pv x xs n"

definition ring :: "(nat \<Rightarrow> nat) \<Rightarrow> (nat \<Rightarrow> nat) \<Rightarrow> nat list \<Rightarrow> bool" where
  "ring nx pv xs \<longleftrightarrow> seg nx pv NBUF xs NBUF \<and> distinct xs \<and> set xs = {0..<NBUF}"

lemma seg_append: "seg nx pv p (xs @ y # ys) n \<longleftrightarrow> seg nx pv p xs y \<and> seg nx pv y ys n"
  by (induction xs arbitrary: p) auto

lemma seg_cong:
  assumes "\<And>x. x \<in> insert p (set xs) \<Longrightarrow> nx' x = nx x" "\<And>x. x \<in> insert n (set xs) \<Longrightarrow> pv' x = pv x"
  shows "seg nx' pv' p xs n = seg nx pv p xs n"
  using assms by (induction xs arbitrary: p) auto

lemma seg_fwd: "seg nx pv p xs n \<Longrightarrow> nx p = hd (xs @ [n])"
  by (cases xs) auto

lemma seg_bwd: "seg nx pv p xs n \<Longrightarrow> pv n = last (p # xs)"
  by (induction xs arbitrary: p) auto

text \<open>Taking \<open>b\<close> out of a ring, and putting it behind the head.\<close>

lemma seg_join:
  assumes "seg nx pv p us b" "seg nx pv b vs n" "distinct (us @ b # vs)"
    and "p \<notin> set (us @ b # vs)" "n \<notin> set (us @ b # vs)"
  shows "seg (nx(pv b := nx b)) (pv(nx b := pv b)) p (us @ vs) n"
  using assms
proof (induction us arbitrary: p)
  case Nil
  then have pb: "pv b = p" "nx p = b" by auto
  show ?case
  proof (cases vs)
    case Nil
    then show ?thesis using \<open>seg nx pv b vs n\<close> pb by simp
  next
    case (Cons v ws)
    then have "nx b = v" "seg nx pv v ws n" using \<open>seg nx pv b vs n\<close> by auto
    moreover have "seg (nx(p := v)) (pv(v := p)) v ws n = seg nx pv v ws n"
      using Cons Nil.prems by (intro seg_cong) auto
    moreover from calculation have "nx(pv b := nx b) = nx(p := v)" "pv(nx b := pv b) = pv(v := p)"
      using pb by simp_all
    ultimately show ?thesis using Cons unfolding append_Nil by (simp only: seg.simps fun_upd_same)
  qed
next
  case (Cons u us)
  have pb: "pv b = last (u # us)" using seg_bwd[OF Cons.prems(1)] by simp
  have nb: "nx b = hd (vs @ [n])" using seg_fwd[OF Cons.prems(2)] .
  have "seg (nx(pv b := nx b)) (pv(nx b := pv b)) u (us @ vs) n"
    using Cons.prems by (intro Cons.IH) auto
  moreover have "pv b \<noteq> p" using pb Cons.prems(4) by (metis append_Cons append_is_Nil_conv in_set_conv_decomp last_in_set list.distinct(1) Un_iff set_append)
  moreover have "nx b \<noteq> u" using nb Cons.prems(3,5) by (cases vs) auto
  ultimately show ?case using Cons.prems(1)
    by (simp only: append_Cons seg.simps fun_upd_other not_False_eq_True simp_thms)
qed

lemma ring_unlink:
  assumes "ring nx pv xs" "b < NBUF"
  obtains us vs where "xs = us @ b # vs" "seg (nx(pv b := nx b)) (pv(nx b := pv b)) NBUF (us @ vs) NBUF"
proof -
  have "b \<in> set xs" using assms by (simp add: ring_def)
  then obtain us vs where xs: "xs = us @ b # vs" by (meson split_list)
  have "seg nx pv NBUF us b" "seg nx pv b vs NBUF" using assms(1) by (auto simp: ring_def xs seg_append)
  moreover have "NBUF \<notin> set xs" "distinct xs" using assms(1) by (auto simp: ring_def)
  ultimately show ?thesis using that[OF xs] seg_join[of nx pv NBUF us b vs NBUF] by (auto simp: xs)
qed

lemma seg_push:
  assumes "seg nx pv h xs h" "b \<noteq> h" "b \<notin> set xs" "h \<notin> set xs" "distinct xs"
  shows "seg ((nx(b := nx h))(h := b)) ((pv(b := h))(nx h := b)) h (b # xs) h"
proof (cases xs)
  case Nil
  then show ?thesis using assms by auto
next
  case (Cons x ys)
  then have "nx h = x" "pv x = h" and s: "seg nx pv x ys h" using assms(1) by auto
  moreover have "seg ((nx(b := x))(h := b)) ((pv(b := h))(x := b)) x ys h = seg nx pv x ys h"
    using assms Cons by (intro seg_cong) auto
  ultimately show ?thesis using assms(2,3) Cons
    by (simp only: seg.simps fun_upd_same fun_upd_other[of b h] fun_upd_other[of x b]) auto
qed

lemma link_front_sel [simp]:
  assumes "b \<noteq> NBUF"
  shows "bnext (link_front b s) = (bnext s)(b := bnext s NBUF, NBUF := b)"
    "bprev (link_front b s) = (bprev s)(b := NBUF, bnext s NBUF := b)"
  using assms by (simp_all add: link_front_def Let_def)

lemma seg_rev: "seg nx pv p xs n \<longleftrightarrow> seg pv nx n (rev xs) p"
  by (induction xs arbitrary: p n) (auto simp: seg_append)

lemma bfind_seg:
  assumes "seg nx pv p xs NBUF" "NBUF \<notin> set xs" "length xs < k"
  shows "bfind k nx P (nx p) = Some (List.find P xs)"
  using assms
proof (induction xs arbitrary: p k)
  case Nil
  then show ?case by (cases k) auto
next
  case (Cons x xs)
  then obtain k' where "k = Suc k'" by (cases k) auto
  then show ?case using Cons by auto
qed

declare bfind.simps [simp del]

lemma ring_length: "ring nx pv xs \<Longrightarrow> length xs = NBUF"
  by (metis atLeast0LessThan card_lessThan distinct_card ring_def)

text \<open>The two scans of \<open>bget\<close> go through the buffers in most-recently-used order and back.\<close>

lemma bfind_mru:
  assumes "ring nx pv xs"
  shows "bfind (NBUF + 1) nx P (nx NBUF) = Some (List.find P xs)"
    "bfind (NBUF + 1) pv P (pv NBUF) = Some (List.find P (rev xs))"
proof -
  have s: "seg nx pv NBUF xs NBUF" "NBUF \<notin> set xs" "length xs < NBUF + 1"
    using assms ring_length[OF assms] by (auto simp: ring_def)
  show "bfind (NBUF + 1) nx P (nx NBUF) = Some (List.find P xs)" by (rule bfind_seg[OF s])
  show "bfind (NBUF + 1) pv P (pv NBUF) = Some (List.find P (rev xs))"
    using s by (intro bfind_seg[of pv nx]) (simp_all add: seg_rev[symmetric])
qed

lemma ring_move_front:
  assumes "ring nx pv xs" "b < NBUF"
  defines "nx1 \<equiv> nx(pv b := nx b)" and "pv1 \<equiv> pv(nx b := pv b)"
  shows "ring (nx1(b := nx1 NBUF, NBUF := b)) (pv1(b := NBUF, nx1 NBUF := b)) (b # remove1 b xs)"
proof -
  obtain us vs where xs: "xs = us @ b # vs" and s: "seg nx1 pv1 NBUF (us @ vs) NBUF"
    using ring_unlink[OF assms(1,2)] unfolding nx1_def pv1_def by blast
  have d: "distinct xs" "set xs = {0..<NBUF}" using assms(1) by (auto simp: ring_def)
  then have r: "remove1 b xs = us @ vs" by (simp add: xs remove1_append)
  have "seg (nx1(b := nx1 NBUF, NBUF := b)) (pv1(b := NBUF, nx1 NBUF := b)) NBUF (b # us @ vs) NBUF"
  proof (rule seg_push[OF s])
    show "NBUF \<notin> set (us @ vs)" using d unfolding xs by force
  qed (use d assms(2) xs in auto)
  moreover have "set (b # us @ vs) = {0..<NBUF}" "distinct (b # us @ vs)" using d by (auto simp: xs)
  ultimately show ?thesis by (simp only: ring_def r simp_thms)
qed

subsection \<open>The invariant of the cache\<close>

definition locked_at :: "'b biost_scheme \<Rightarrow> nat \<Rightarrow> bool" where
  "locked_at s i = sl_locked (slocks s (SL_buf i))"

definition buf_ok :: "'b biost_scheme \<Rightarrow> nat \<Rightarrow> bool" where
  "buf_ok s i \<longleftrightarrow> (let b = bufs s ! i in
     length (b_data b) = BSIZE \<and> b_refcnt b = (if locked_at s i then 1 else 0) \<and>
     (b_dev b = 1 \<longleftrightarrow> b_valid b) \<and> (b_dirty b \<or> locked_at s i \<longrightarrow> b_valid b) \<and>
     (b_valid b \<longrightarrow> b_blockno b < disksize s) \<and>
     (b_valid b \<and> \<not> b_dirty b \<and> \<not> locked_at s i \<longrightarrow> b_data b = disk s (b_blockno b)))"

definition binv :: "'b biost_scheme \<Rightarrow> bool" where
  "binv s \<longleftrightarrow> thr_ok s \<and> length (bufs s) = NBUF \<and> (\<exists>xs. ring (bnext s) (bprev s) xs) \<and>
     (\<forall>i < NBUF. buf_ok s i) \<and>
     (\<forall>i < NBUF. \<forall>j < NBUF. b_valid (bufs s ! i) \<and> b_valid (bufs s ! j) \<and>
        b_blockno (bufs s ! i) = b_blockno (bufs s ! j) \<longrightarrow> i = j) \<and>
     (\<forall>n. length (disk s n) = BSIZE)"

text \<open>The block \<open>n\<close> of the disk as the kernel sees it through the cache.\<close>

definition lblk :: "'b biost_scheme \<Rightarrow> uint \<Rightarrow> bytes" where
  "lblk s n = (case List.find (\<lambda>b. b_valid b \<and> b_blockno b = n) (bufs s) of
     Some b \<Rightarrow> b_data b | None \<Rightarrow> disk s n)"

definition lockedblks :: "'b biost_scheme \<Rightarrow> uint set" where
  "lockedblks s = {b_blockno (bufs s ! i) | i. i < NBUF \<and> locked_at s i}"

definition dirtyblks :: "'b biost_scheme \<Rightarrow> uint set" where
  "dirtyblks s = {b_blockno (bufs s ! i) | i. i < NBUF \<and> b_dirty (bufs s ! i)}"

definition avail :: "'b biost_scheme \<Rightarrow> bool" where
  "avail s \<longleftrightarrow> (\<exists>i < NBUF. \<not> locked_at s i \<and> \<not> b_dirty (bufs s ! i))"

text \<open>Operations of this layer keep the rest of the state; processes only change from SLEEPING to RUNNABLE.\<close>

definition noproc :: "proc list \<Rightarrow> proc list" where
  "noproc ps = map (\<lambda>p. p\<lparr>p_state := UNUSED\<rparr>) ps"

definition bframe :: "'b biost_scheme \<Rightarrow> 'b biost_scheme \<Rightarrow> bool" where
  "bframe s s' \<longleftrightarrow> noproc (ptable s') = noproc (ptable s) \<and>
     s' = s\<lparr>ptable := ptable s', slocks := slocks s', bufs := bufs s', bnext := bnext s', bprev := bprev s',
            disk := disk s', wtrace := wtrace s'\<rparr>"

lemma bframe_refl [simp, intro]: "bframe s s"
  by (simp add: bframe_def)

lemma bframe_trans [trans]: "bframe s t \<Longrightarrow> bframe t u \<Longrightarrow> bframe s u"
proof -
  assume 1: "bframe s t" and 2: "bframe t u"
  obtain a b c d e f g where t: "t = s\<lparr>ptable := a, slocks := b, bufs := c, bnext := d, bprev := e, disk := f, wtrace := g\<rparr>"
    using 1 unfolding bframe_def by blast
  obtain a' b' c' d' e' f' g' where u: "u = t\<lparr>ptable := a', slocks := b', bufs := c', bnext := d', bprev := e', disk := f', wtrace := g'\<rparr>"
    using 2 unfolding bframe_def by blast
  have "noproc (ptable u) = noproc (ptable s)" using 1 2 by (simp add: bframe_def)
  then show ?thesis by (simp add: bframe_def t u)
qed

lemma bframe_sel:
  assumes "bframe s s'"
  shows "held s' = held s" "c_proc s' = c_proc s" "mem s' = mem s" "freelist s' = freelist s"
    "use_lock s' = use_lock s" "kend s' = kend s" "disksize s' = disksize s" "length (ptable s') = length (ptable s)"
    "ticks s' = ticks s" "initproc s' = initproc s" "cr3 s' = cr3 s" "biost.more s' = biost.more s"
proof -
  obtain a b c d e f g where "s' = s\<lparr>ptable := a, slocks := b, bufs := c, bnext := d, bprev := e, disk := f, wtrace := g\<rparr>"
    using assms unfolding bframe_def by blast
  then show "held s' = held s" "c_proc s' = c_proc s" "mem s' = mem s" "freelist s' = freelist s"
    "use_lock s' = use_lock s" "kend s' = kend s" "disksize s' = disksize s"
    "ticks s' = ticks s" "initproc s' = initproc s" "cr3 s' = cr3 s" "biost.more s' = biost.more s" by simp_all
  show "length (ptable s') = length (ptable s)"
    using assms unfolding bframe_def noproc_def by (metis length_map)
qed

lemma noproc_wake [simp]: "noproc (map (wake ch) ps) = noproc ps"
  by (simp add: noproc_def wake_def)

lemma binvD:
  assumes "binv s"
  shows "thr_ok s" "length (bufs s) = NBUF" "\<And>i. i < NBUF \<Longrightarrow> buf_ok s i"
    "\<And>i j. i < NBUF \<Longrightarrow> j < NBUF \<Longrightarrow> b_valid (bufs s ! i) \<Longrightarrow> b_valid (bufs s ! j) \<Longrightarrow>
       b_blockno (bufs s ! i) = b_blockno (bufs s ! j) \<Longrightarrow> i = j"
    "\<And>n. length (disk s n) = BSIZE"
  using assms unfolding binv_def by blast+

lemma lblk_hit:
  assumes "binv s" "i < NBUF" "b_valid (bufs s ! i)" "b_blockno (bufs s ! i) = n"
  shows "lblk s n = b_data (bufs s ! i)"
proof (cases "List.find (\<lambda>b. b_valid b \<and> b_blockno b = n) (bufs s)")
  case None
  then have "\<not> (b_valid (bufs s ! i) \<and> b_blockno (bufs s ! i) = n)"
    using assms(2) binvD(2)[OF assms(1)] by (simp add: find_None_iff)
  then show ?thesis using assms by simp
next
  case (Some b)
  then obtain j where "j < NBUF" "b = bufs s ! j" "b_valid b" "b_blockno b = n"
    using binvD(2)[OF assms(1)] by (auto simp: find_Some_iff)
  then have "i = j" using binvD(4)[OF assms(1), of i j] assms(2-4) by simp
  then show ?thesis using Some \<open>b = bufs s ! j\<close> by (simp add: lblk_def)
qed

lemma lblk_miss:
  assumes "length (bufs s) = NBUF" "\<And>i. i < NBUF \<Longrightarrow> b_valid (bufs s ! i) \<Longrightarrow> b_blockno (bufs s ! i) \<noteq> n"
  shows "lblk s n = disk s n"
proof -
  have "List.find (\<lambda>b. b_valid b \<and> b_blockno b = n) (bufs s) = None"
    using assms by (auto simp: find_None_iff in_set_conv_nth)
  then show ?thesis by (simp add: lblk_def)
qed

lemma length_lblk:
  assumes "binv s" shows "length (lblk s n) = BSIZE"
proof (cases "\<exists>i < NBUF. b_valid (bufs s ! i) \<and> b_blockno (bufs s ! i) = n")
  case True
  then show ?thesis using lblk_hit[OF assms] binvD(3)[OF assms] by (auto simp: buf_ok_def Let_def)
next
  case False
  then show ?thesis using lblk_miss[of s n] binvD(2,5)[OF assms] by auto
qed

lemma find_SomeD: "List.find P xs = Some i \<Longrightarrow> i \<in> set xs \<and> P i"
  by (auto simp: find_Some_iff)

lemma find_unique:
  assumes "i \<in> set xs" "P i" "\<And>j. j \<in> set xs \<Longrightarrow> P j \<Longrightarrow> j = i"
  shows "List.find P xs = Some i"
proof (cases "List.find P xs")
  case None
  then have "\<not> P i" using assms(1) by (simp add: find_None_iff)
  then show ?thesis using assms(2) by simp
next
  case (Some j)
  then have "j \<in> set xs" "P j" by (auto simp: find_Some_iff)
  from assms(3)[OF this] show ?thesis using Some by simp
qed

lemma bset_sel [simp]:
  "held (bset i f s) = held s" "c_proc (bset i f s) = c_proc s" "ptable (bset i f s) = ptable s"
  "slocks (bset i f s) = slocks s" "bnext (bset i f s) = bnext s" "bprev (bset i f s) = bprev s"
  "disk (bset i f s) = disk s" "disksize (bset i f s) = disksize s" "wtrace (bset i f s) = wtrace s"
  "bufs (bset i f s) = (bufs s)[i := f (bufs s ! i)]" "cur_pid (bset i f s) = cur_pid s"
  "thr_ok (bset i f s) = thr_ok s"
  by (simp_all add: bset_def cur_pid_def pget_def thr_ok_def)

lemma bset_held [simp]: "bset i f (s\<lparr>held := h\<rparr>) = (bset i f s)\<lparr>held := h\<rparr>"
  by (simp add: bset_def)

lemma sl_set_bufs [simp]:
  "bufs (sl_set l v s) = bufs s" "disk (sl_set l v s) = disk s" "disksize (sl_set l v s) = disksize s"
  "bnext (sl_set l v s) = bnext s" "bprev (sl_set l v s) = bprev s" "wtrace (sl_set l v s) = wtrace s"
  by (simp_all add: sl_set_def)

definition take_buf :: "nat \<Rightarrow> 'b biost_scheme \<Rightarrow> 'b biost_scheme" where
  "take_buf i s = sl_set (SL_buf i) \<lparr>sl_locked = True, sl_pid = cur_pid s\<rparr> s"

lemma bget_hit:
  assumes "binv s" "i < NBUF" "b_valid (bufs s ! i)" "b_blockno (bufs s ! i) = n" "\<not> locked_at s i"
  shows "bget 1 n s = Ok i (take_buf i (bset i (\<lambda>x. x\<lparr>b_refcnt := b_refcnt x + 1\<rparr>) s))"
proof -
  obtain xs where r: "ring (bnext s) (bprev s) xs" using assms(1) by (auto simp: binv_def)
  have h: "held s = []" using binvD(1)[OF assms(1)] by (simp add: thr_ok_def)
  let ?P = "\<lambda>b. b_dev (bufs s ! b) = 1 \<and> b_blockno (bufs s ! b) = n"
  have v: "j < NBUF \<Longrightarrow> (b_dev (bufs s ! j) = 1) = b_valid (bufs s ! j)" for j
    using binvD(3)[OF assms(1)] by (simp add: buf_ok_def Let_def)
  have "List.find ?P xs = Some i"
    using r assms v binvD(4)[OF assms(1)] by (intro find_unique) (auto simp: ring_def)
  then have f: "bfind (NBUF + 1) (bnext s) ?P (bnext s NBUF) = Some (Some i)" using bfind_mru(1)[OF r] by simp
  let ?s = "bset i (\<lambda>x. x\<lparr>b_refcnt := b_refcnt x + 1\<rparr>) s"
  have "acquiresleep (SL_buf i) ?s = Ok () (take_buf i ?s)"
    using assms binvD(1)[OF assms(1)] acquiresleep_free[of ?s "SL_buf i"] by (simp add: locked_at_def take_buf_def)
  then show ?thesis using f h by (simp add: bget_def seq_Ok)
qed

lemma bget_miss:
  assumes "binv s" "avail s" "\<And>i. i < NBUF \<Longrightarrow> b_valid (bufs s ! i) \<Longrightarrow> b_blockno (bufs s ! i) \<noteq> n"
  shows "\<exists>i < NBUF. \<not> locked_at s i \<and> \<not> b_dirty (bufs s ! i) \<and>
    bget 1 n s = Ok i (take_buf i (bset i (\<lambda>x. x\<lparr>b_dev := 1, b_blockno := n, b_valid := False, b_dirty := False, b_refcnt := 1\<rparr>) s))"
proof -
  obtain xs where r: "ring (bnext s) (bprev s) xs" using assms(1) by (auto simp: binv_def)
  have xs: "set xs = {0..<NBUF}" using r by (simp add: ring_def)
  have h: "held s = []" using binvD(1)[OF assms(1)] by (simp add: thr_ok_def)
  let ?P = "\<lambda>b. b_dev (bufs s ! b) = 1 \<and> b_blockno (bufs s ! b) = n"
  let ?Q = "\<lambda>b. b_refcnt (bufs s ! b) = 0 \<and> \<not> b_dirty (bufs s ! b)"
  have v: "j < NBUF \<Longrightarrow> (b_dev (bufs s ! j) = 1) = b_valid (bufs s ! j)"
    and q: "j < NBUF \<Longrightarrow> (b_refcnt (bufs s ! j) = 0) = (\<not> locked_at s j)" for j
    using binvD(3)[OF assms(1), of j] by (auto simp: buf_ok_def Let_def)
  have "List.find ?P xs = None" using xs assms(3) v by (auto simp: find_None_iff)
  then have f: "bfind (NBUF + 1) (bnext s) ?P (bnext s NBUF) = Some None" using bfind_mru(1)[OF r] by simp
  have "List.find ?Q (rev xs) \<noteq> None" using assms(2) q xs by (auto simp: find_None_iff avail_def)
  then obtain i where i: "List.find ?Q (rev xs) = Some i" by blast
  from find_SomeD[OF this] have iN: "i < NBUF" "\<not> locked_at s i" "\<not> b_dirty (bufs s ! i)" using xs q by auto
  have g: "bfind (NBUF + 1) (bprev s) ?Q (bprev s NBUF) = Some (Some i)" using bfind_mru(2)[OF r] i by simp
  let ?s = "bset i (\<lambda>x. x\<lparr>b_dev := 1, b_blockno := n, b_valid := False, b_dirty := False, b_refcnt := 1\<rparr>) s"
  have "acquiresleep (SL_buf i) ?s = Ok () (take_buf i ?s)"
    using iN binvD(1)[OF assms(1)] acquiresleep_free[of ?s "SL_buf i"] by (simp add: locked_at_def take_buf_def)
  then have "bget 1 n s = Ok i (take_buf i ?s)" using f g h by (simp add: bget_def seq_Ok)
  then show ?thesis using iN by blast
qed

text \<open>Buffer \<open>i\<close> is locked and holds block \<open>n\<close>.\<close>

definition has_buf :: "'b biost_scheme \<Rightarrow> nat \<Rightarrow> uint \<Rightarrow> bool" where
  "has_buf s i n \<longleftrightarrow> i < NBUF \<and> locked_at s i \<and> b_valid (bufs s ! i) \<and> b_blockno (bufs s ! i) = n"

lemma take_buf_sel [simp]:
  "bufs (take_buf i s) = bufs s" "disk (take_buf i s) = disk s" "disksize (take_buf i s) = disksize s"
  "wtrace (take_buf i s) = wtrace s" "bnext (take_buf i s) = bnext s" "bprev (take_buf i s) = bprev s"
  "thr_ok (take_buf i s) = thr_ok s" "locked_at (take_buf i s) j = (i = j \<or> locked_at s j)"
  "ptable (take_buf i s) = ptable s"
  by (auto simp: take_buf_def locked_at_def)

lemma locked_at_bset [simp]: "locked_at (bset i f s) j = locked_at s j"
  by (simp add: locked_at_def)

lemma bframe_take: "bframe s (take_buf i (bset i f s))"
  by (simp add: bframe_def take_buf_def sl_set_def bset_def)

lemma bframe_bset: "bframe s (bset i f s)"
  by (simp add: bframe_def bset_def)

text \<open>Locking an unlocked buffer whose new contents agree with the logical disk.\<close>

lemma take_spec:
  assumes inv: "binv s" and i: "i < NBUF" "\<not> locked_at s i" "\<not> b_dirty (bufs s ! i) \<or> x' = (bufs s ! i)\<lparr>b_refcnt := 1\<rparr>"
    and x': "b_dev x' = 1" "b_valid x'" "b_blockno x' = n" "b_refcnt x' = 1" "n < disksize s"
      "b_data x' = lblk s n" "b_dirty x' \<longrightarrow> x' = (bufs s ! i)\<lparr>b_refcnt := 1\<rparr>"
    and only: "\<And>j. j < NBUF \<Longrightarrow> b_valid (bufs s ! j) \<Longrightarrow> b_blockno (bufs s ! j) = n \<Longrightarrow> j = i"
  defines "s' \<equiv> take_buf i (bset i (\<lambda>_. x') s)"
  shows "binv s'" "has_buf s' i n" "lblk s' = lblk s" "lockedblks s' = insert n (lockedblks s)"
    "dirtyblks s' = dirtyblks s"
proof -
  have len: "length (bufs s) = NBUF" by (rule binvD(2)[OF inv])
  have b': "bufs s' ! j = (if j = i then x' else bufs s ! j)" if "j < NBUF" for j
    using that i len by (simp add: s'_def)
  have bo: "buf_ok s j" if "j < NBUF" for j by (rule binvD(3)[OF inv that])
  have ld: "length (lblk s n) = BSIZE" by (rule length_lblk[OF inv])
  have ok: "buf_ok s' j" if "j < NBUF" for j
  proof (cases "j = i")
    case True
    then show ?thesis using x' b'[OF i(1)] ld by (simp add: buf_ok_def s'_def Let_def)
  next
    case False
    then show ?thesis using bo[OF that] b'[OF that] by (simp add: buf_ok_def s'_def Let_def)
  qed
  have uniq: "j = k" if "j < NBUF" "k < NBUF" "b_valid (bufs s' ! j)" "b_valid (bufs s' ! k)"
    "b_blockno (bufs s' ! j) = b_blockno (bufs s' ! k)" for j k
    using that b' x' only binvD(4)[OF inv] by (metis (full_types))
  show inv': "binv s'" unfolding binv_def
    using binvD[OF inv] inv ok uniq len by (auto simp: s'_def binv_def)
  show "has_buf s' i n" using i x' b'[OF i(1)] by (simp add: has_buf_def s'_def)
  show "lblk s' = lblk s"
  proof
    fix m
    show "lblk s' m = lblk s m"
    proof (cases "m = n")
      case True
      then show ?thesis using lblk_hit[OF inv' i(1)] b'[OF i(1)] x' by simp
    next
      case False
      consider (a) j where "j < NBUF" "b_valid (bufs s' ! j)" "b_blockno (bufs s' ! j) = m"
        | (b) "\<forall>j < NBUF. b_valid (bufs s' ! j) \<longrightarrow> b_blockno (bufs s' ! j) \<noteq> m" by blast
      then show ?thesis
      proof cases
        case a
        then have "j \<noteq> i" using False b' i x' by auto
        then show ?thesis using a b' lblk_hit[OF inv' a] lblk_hit[OF inv a(1), of m] by simp
      next
        case b
        then have 1: "lblk s' m = disk s m" using lblk_miss[of s' m] len by (simp add: s'_def)
        show ?thesis
        proof (cases "b_valid (bufs s ! i) \<and> b_blockno (bufs s ! i) = m")
          case True
          then have "\<not> b_dirty (bufs s ! i)" using i(3) x' False by auto
          then have "b_data (bufs s ! i) = disk s m" using bo[OF i(1)] True i(2) by (simp add: buf_ok_def Let_def)
          then show ?thesis using 1 lblk_hit[OF inv i(1)] True by simp
        next
          case False
          then have "\<And>j. j < NBUF \<Longrightarrow> b_valid (bufs s ! j) \<Longrightarrow> b_blockno (bufs s ! j) \<noteq> m" using b b' by metis
          then show ?thesis using 1 lblk_miss[OF len] by simp
        qed
      qed
    qed
  qed
  have l': "locked_at s' j = (i = j \<or> locked_at s j)" for j by (simp add: s'_def)
  show "lockedblks s' = insert n (lockedblks s)"
    unfolding lockedblks_def using l' b' i x'(3) by (auto; metis)
  show "dirtyblks s' = dirtyblks s"
    unfolding dirtyblks_def using b' i x' by (auto; metis buf.select_convs buf.update_convs buf.surjective)
qed

text \<open>
  What a successful \<open>bread\<close> gives its caller: the buffer is locked and holds the block's
  logical contents, and nothing else changes, neither on disk nor in the buffers already locked.
\<close>

definition bread_post :: "'b biost_scheme \<Rightarrow> uint \<Rightarrow> nat \<Rightarrow> 'b biost_scheme \<Rightarrow> bool" where
  "bread_post s n i s' \<longleftrightarrow> binv s' \<and> has_buf s' i n \<and> b_data (bufs s' ! i) = lblk s n \<and> lblk s' = lblk s \<and>
     disk s' = disk s \<and> wtrace s' = wtrace s \<and> lockedblks s' = insert n (lockedblks s) \<and>
     dirtyblks s' = dirtyblks s \<and> bframe s s' \<and>
     (\<forall>j m. has_buf s j m \<longrightarrow> j \<noteq> i \<and> has_buf s' j m \<and> bufs s' ! j = bufs s ! j)"

lemma has_buf_locked: "has_buf s j m \<Longrightarrow> m \<in> lockedblks s"
  by (auto simp: has_buf_def lockedblks_def)

lemma bset_cong: "f (bufs s ! i) = y \<Longrightarrow> bset i f s = bset i (\<lambda>_. y) s"
  by (simp add: bset_def)

lemma bset_take [simp]:
  "i < length (bufs s) \<Longrightarrow> bset i f (take_buf i (bset i g s)) = take_buf i (bset i (\<lambda>x. f (g x)) s)"
  by (simp add: bset_def take_buf_def sl_set_def cur_pid_def pget_def)

lemma take_post:
  assumes inv: "binv s" and i: "i < NBUF" "\<not> locked_at s i" "\<not> b_dirty (bufs s ! i) \<or> x' = (bufs s ! i)\<lparr>b_refcnt := 1\<rparr>"
    and x': "b_dev x' = 1" "b_valid x'" "b_blockno x' = n" "b_refcnt x' = 1" "n < disksize s"
      "b_data x' = lblk s n" "b_dirty x' \<longrightarrow> x' = (bufs s ! i)\<lparr>b_refcnt := 1\<rparr>"
    and only: "\<And>j. j < NBUF \<Longrightarrow> b_valid (bufs s ! j) \<Longrightarrow> b_blockno (bufs s ! j) = n \<Longrightarrow> j = i"
  shows "bread_post s n i (take_buf i (bset i (\<lambda>_. x') s))"
proof -
  let ?s = "take_buf i (bset i (\<lambda>_. x') s)"
  note t = take_spec[OF inv i x' only]
  have "has_buf s j m \<Longrightarrow> j \<noteq> i \<and> has_buf ?s j m \<and> bufs ?s ! j = bufs s ! j" for j m
    using i(2) by (cases "j = i") (simp_all add: has_buf_def)
  moreover have "b_data (bufs ?s ! i) = lblk s n" using i(1) x'(6) binvD(2)[OF inv] by simp
  ultimately show ?thesis unfolding bread_post_def
    by (intro conjI t bframe_take) simp_all
qed

lemma bread_hit:
  assumes inv: "binv s" and n: "n < disksize s" "n \<notin> lockedblks s"
    and i: "i < NBUF" "b_valid (bufs s ! i)" "b_blockno (bufs s ! i) = n"
  shows "\<exists>s'. bread 1 n s = Ok i s' \<and> bread_post s n i s'"
proof -
  have nl: "\<not> locked_at s i" using i n(2) by (auto simp: lockedblks_def)
  have len: "length (bufs s) = NBUF" by (rule binvD(2)[OF inv])
  have bo: "buf_ok s i" by (rule binvD(3)[OF inv i(1)])
  let ?x = "(bufs s ! i)\<lparr>b_refcnt := 1\<rparr>"
  let ?s = "take_buf i (bset i (\<lambda>_. ?x) s)"
  have "bset i (\<lambda>x. x\<lparr>b_refcnt := b_refcnt x + 1\<rparr>) s = bset i (\<lambda>_. ?x) s"
    using bo nl by (intro bset_cong) (simp add: buf_ok_def Let_def)
  then have g: "bget 1 n s = Ok i ?s" using bget_hit[OF inv i nl] by simp
  have "b_valid (bufs ?s ! i)" using i len by simp
  then have "bread 1 n s = Ok i ?s" by (simp add: bread_def bnd_Ok[of "bget 1 n" s, OF g] bget_buf_def)
  moreover have "b_dev (bufs s ! i) = 1" using bo i(2) by (simp add: buf_ok_def Let_def)
  then have "bread_post s n i ?s"
  proof (intro take_post[OF inv i(1) nl])
    show "j = i" if "j < NBUF" "b_valid (bufs s ! j)" "b_blockno (bufs s ! j) = n" for j
      using binvD(4)[OF inv that(1) i(1) that(2) i(2)] that(3) i(3) by simp
  qed (use i n(1) lblk_hit[OF inv i] in simp_all)
  ultimately show ?thesis by blast
qed

lemma bread_miss:
  assumes inv: "binv s" and n: "n < disksize s" and av: "avail s"
    and miss: "\<And>i. i < NBUF \<Longrightarrow> b_valid (bufs s ! i) \<Longrightarrow> b_blockno (bufs s ! i) \<noteq> n"
  shows "\<exists>i s'. bread 1 n s = Ok i s' \<and> bread_post s n i s'"
proof -
  have len: "length (bufs s) = NBUF" by (rule binvD(2)[OF inv])
  obtain i where i: "i < NBUF" "\<not> locked_at s i" "\<not> b_dirty (bufs s ! i)" and
    g: "bget 1 n s = Ok i (take_buf i (bset i (\<lambda>x. x\<lparr>b_dev := 1, b_blockno := n, b_valid := False, b_dirty := False, b_refcnt := 1\<rparr>) s))"
    using bget_miss[OF inv av miss] by blast
  let ?y = "(bufs s ! i)\<lparr>b_dev := 1, b_blockno := n, b_valid := False, b_dirty := False, b_refcnt := 1\<rparr>"
  let ?t = "take_buf i (bset i (\<lambda>_. ?y) s)"
  let ?x = "?y\<lparr>b_data := disk s n, b_valid := True\<rparr>"
  let ?s = "take_buf i (bset i (\<lambda>_. ?x) s)"
  have g0: "bget 1 n s = Ok i ?t" using g by (simp add: bset_def)
  have b0: "bufs ?t ! i = ?y" using i len by simp
  have "thr_ok ?t" using binvD(1)[OF inv] by simp
  then have "holdingsleep (SL_buf i) ?t = Ok True ?t"
    using holdingsleep_eq[of ?t "SL_buf i"] by (simp add: take_buf_def)
  then have "iderw i ?t = Ok () ?s" using i(1) len n b0 by (simp add: iderw_def bnd_Ok bget_buf_def not_le)
  then have "bread 1 n s = Ok i ?s"
    using b0 by (simp add: bread_def bnd_Ok[of "bget 1 n" s, OF g0] bget_buf_def whenM_def seq_Ok)
  moreover have "bread_post s n i ?s"
  proof (intro take_post[OF inv i(1,2)])
    show "j = i" if "j < NBUF" "b_valid (bufs s ! j)" "b_blockno (bufs s ! j) = n" for j
      using miss that by blast
  qed (use i n lblk_miss[OF len miss] in simp_all)
  ultimately show ?thesis by blast
qed

lemma bread_spec:
  assumes "binv s" "n < disksize s" "n \<notin> lockedblks s" "avail s"
  shows "\<exists>i s'. bread 1 n s = Ok i s' \<and> bread_post s n i s'"
  using bread_hit[OF assms(1-3)] bread_miss[OF assms(1,2,4)] by blast

subsection \<open>Operations on a locked buffer\<close>

text \<open>Replacing the contents or the dirty bit of a locked buffer, and possibly its block on disk.\<close>

definition upd_buf :: "nat \<Rightarrow> bytes \<Rightarrow> bool \<Rightarrow> (uint \<Rightarrow> bytes) \<Rightarrow> (uint \<times> bytes) list \<Rightarrow> 'b biost_scheme \<Rightarrow> 'b biost_scheme" where
  "upd_buf i d dirty dk w s = (bset i (\<lambda>x. x\<lparr>b_data := d, b_dirty := dirty\<rparr>) s)\<lparr>disk := dk, wtrace := wtrace s @ w\<rparr>"

lemma upd_buf_sel [simp]:
  "disk (upd_buf i d dirty dk w s) = dk" "wtrace (upd_buf i d dirty dk w s) = wtrace s @ w"
  "bufs (upd_buf i d dirty dk w s) = (bufs s)[i := (bufs s ! i)\<lparr>b_data := d, b_dirty := dirty\<rparr>]"
  "disksize (upd_buf i d dirty dk w s) = disksize s" "thr_ok (upd_buf i d dirty dk w s) = thr_ok s"
  "bnext (upd_buf i d dirty dk w s) = bnext s" "bprev (upd_buf i d dirty dk w s) = bprev s"
  "locked_at (upd_buf i d dirty dk w s) j = locked_at s j" "slocks (upd_buf i d dirty dk w s) = slocks s"
  by (simp_all add: upd_buf_def bset_def thr_ok_def locked_at_def)

lemma bframe_upd: "bframe s (upd_buf i d dirty dk w s)"
  by (simp add: bframe_def upd_buf_def bset_def)

lemma has_buf_unique:
  assumes "binv s" "has_buf s i n" "j < NBUF" "b_valid (bufs s ! j)" "b_blockno (bufs s ! j) = n"
  shows "j = i"
proof -
  have i: "i < NBUF" "b_valid (bufs s ! i)" "b_blockno (bufs s ! i) = n" using assms(2) by (simp_all add: has_buf_def)
  show ?thesis using binvD(4)[OF assms(1) assms(3) i(1) assms(4) i(2)] assms(5) i(3) by simp
qed

lemma in_lockedblks: "m \<in> lockedblks s \<longleftrightarrow> (\<exists>j < NBUF. locked_at s j \<and> b_blockno (bufs s ! j) = m)"
  by (auto simp: lockedblks_def)

lemma in_dirtyblks: "m \<in> dirtyblks s \<longleftrightarrow> (\<exists>j < NBUF. b_dirty (bufs s ! j) \<and> b_blockno (bufs s ! j) = m)"
  by (auto simp: dirtyblks_def)

lemma upd_spec:
  fixes dirty :: bool and w :: "(uint \<times> bytes) list"
  assumes inv: "binv s" and hb: "has_buf s i n" and d: "length d = BSIZE"
    and dk: "\<And>m. m \<noteq> n \<Longrightarrow> dk m = disk s m" "length (dk n) = BSIZE"
  defines "s' \<equiv> upd_buf i d dirty dk w s"
  shows "binv s'" "\<And>j m. has_buf s' j m = has_buf s j m" "lblk s' = (lblk s)(n := d)"
    "lockedblks s' = lockedblks s" "dirtyblks s' = (if dirty then insert n (dirtyblks s) else dirtyblks s - {n})"
    "b_data (bufs s' ! i) = d" "\<And>j. j \<noteq> i \<Longrightarrow> bufs s' ! j = bufs s ! j"
proof -
  have len: "length (bufs s) = NBUF" by (rule binvD(2)[OF inv])
  have i: "i < NBUF" "locked_at s i" "b_valid (bufs s ! i)" "b_blockno (bufs s ! i) = n"
    using hb by (simp_all add: has_buf_def)
  have b': "bufs s' ! j = (if j = i then (bufs s ! i)\<lparr>b_data := d, b_dirty := dirty\<rparr> else bufs s ! j)" if "j < NBUF" for j
    using that i len by (simp add: s'_def)
  have l': "locked_at s' j = locked_at s j" for j by (simp add: s'_def)
  have v': "b_valid (bufs s' ! j) = b_valid (bufs s ! j)" "b_blockno (bufs s' ! j) = b_blockno (bufs s ! j)"
    if "j < NBUF" for j using b'[OF that] by simp_all
  note uni = has_buf_unique[OF inv hb]
  have ok: "buf_ok s' j" if j: "j < NBUF" for j
  proof (cases "j = i")
    case True
    then show ?thesis using binvD(3)[OF inv i(1)] b'[OF i(1)] i d by (simp add: buf_ok_def Let_def l') (simp add: s'_def)
  next
    case False
    have "b_valid (bufs s ! j) \<Longrightarrow> b_blockno (bufs s ! j) \<noteq> n" using uni[OF j] False by blast
    then have "b_valid (bufs s ! j) \<Longrightarrow> dk (b_blockno (bufs s ! j)) = disk s (b_blockno (bufs s ! j))" using dk(1) by blast
    then show ?thesis using binvD(3)[OF inv j] b'[OF j] False
      by (simp add: buf_ok_def Let_def l') (simp add: s'_def)
  qed
  have "length (dk m) = BSIZE" for m using dk binvD(5)[OF inv, of m] by (cases "m = n") simp_all
  then show inv': "binv s'" unfolding binv_def
    using inv ok v' binvD(4)[OF inv] len unfolding binv_def by (simp add: s'_def)
  show "has_buf s' j m = has_buf s j m" for j m
    using v'[of j] by (auto simp: has_buf_def l')
  show "b_data (bufs s' ! i) = d" using b'[OF i(1)] by simp
  show "bufs s' ! j = bufs s ! j" if "j \<noteq> i" for j using that by (simp add: s'_def)
  show "lockedblks s' = lockedblks s" using v'(2) by (intro set_eqI) (metis in_lockedblks l')
  show "lblk s' = (lblk s)(n := d)"
  proof
    fix m
    consider (n) "m = n" | (a) j where "m \<noteq> n" "j < NBUF" "b_valid (bufs s ! j)" "b_blockno (bufs s ! j) = m"
      | (b) "m \<noteq> n" "\<And>j. j < NBUF \<Longrightarrow> b_valid (bufs s ! j) \<Longrightarrow> b_blockno (bufs s ! j) \<noteq> m" by blast
    then show "lblk s' m = ((lblk s)(n := d)) m"
    proof cases
      case n
      then show ?thesis using lblk_hit[OF inv' i(1), of n] v'[OF i(1)] i b'[OF i(1)] by simp
    next
      case a
      then have "j \<noteq> i" using i by auto
      then show ?thesis using a lblk_hit[OF inv' a(2), of m] lblk_hit[OF inv a(2), of m] v'[OF a(2)] b'[OF a(2)] by simp
    next
      case b
      have "lblk s' m = dk m" using lblk_miss[of s' m] b(2) v' len by (simp add: s'_def)
      then show ?thesis using lblk_miss[OF len b(2)] dk(1)[OF b(1)] b(1) by simp
    qed
  qed
  have di: "b_dirty (bufs s' ! j) = (if j = i then dirty else b_dirty (bufs s ! j))" if "j < NBUF" for j
    using b'[OF that] by simp
  have nj: "b_blockno (bufs s ! j) \<noteq> n" if "j < NBUF" "j \<noteq> i" "b_dirty (bufs s ! j)" for j
    using binvD(3)[OF inv that(1)] uni[OF that(1)] that by (auto simp: buf_ok_def Let_def)
  show "dirtyblks s' = (if dirty then insert n (dirtyblks s) else dirtyblks s - {n})"
  proof (intro set_eqI)
    fix m
    have "m \<in> dirtyblks s' \<longleftrightarrow> (\<exists>j < NBUF. (if j = i then dirty else b_dirty (bufs s ! j)) \<and> b_blockno (bufs s ! j) = m)"
      unfolding in_dirtyblks using di v'(2) by metis
    also have "\<dots> \<longleftrightarrow> m \<in> (if dirty then insert n (dirtyblks s) else dirtyblks s - {n})"
      using i nj in_dirtyblks[of m s] by (cases dirty) (simp; metis)+
    finally show "m \<in> dirtyblks s' \<longleftrightarrow> m \<in> (if dirty then insert n (dirtyblks s) else dirtyblks s - {n})" .
  qed
qed

lemma bset_bset [simp]: "i < length (bufs s) \<Longrightarrow> bset i f (bset i g s) = bset i (\<lambda>x. f (g x)) s"
  by (simp add: bset_def)

lemma bset_disk: "bset i f (s\<lparr>disk := a, wtrace := b\<rparr>) = (bset i f s)\<lparr>disk := a, wtrace := b\<rparr>"
  by (simp add: bset_def)

lemma bwrite_eq:
  assumes "binv s" "has_buf s i n"
  shows "bwrite i s = Ok () (upd_buf i (b_data (bufs s ! i)) False ((disk s)(n := b_data (bufs s ! i)))
    [(n, b_data (bufs s ! i))] s)"
proof -
  have i: "i < NBUF" "locked_at s i" "b_valid (bufs s ! i)" "b_blockno (bufs s ! i) = n"
    using assms(2) by (simp_all add: has_buf_def)
  have len: "length (bufs s) = NBUF" and t: "thr_ok s" using binvD[OF assms(1)] by simp_all
  have dev: "b_dev (bufs s ! i) = 1" "n < disksize s"
    using binvD(3)[OF assms(1) i(1)] i by (simp_all add: buf_ok_def Let_def)
  let ?s = "bset i (\<lambda>x. x\<lparr>b_dirty := True\<rparr>) s"
  have h: "holdingsleep (SL_buf i) s = Ok True s" "holdingsleep (SL_buf i) ?s = Ok True ?s"
    using holdingsleep_eq[OF t] holdingsleep_eq[of ?s] t i(2) by (simp_all add: locked_at_def)
  have "bset i (\<lambda>x. x\<lparr>b_dirty := False, b_valid := True\<rparr>) s =
      bset i (\<lambda>_. (bufs s ! i)\<lparr>b_data := b_data (bufs s ! i), b_dirty := False\<rparr>) s"
    using i(3) by (intro bset_cong) simp
  also have "\<dots> = bset i (\<lambda>x. x\<lparr>b_data := b_data (bufs s ! i), b_dirty := False\<rparr>) s"
    by (rule bset_cong[symmetric]) simp
  finally have "iderw i ?s = Ok () (upd_buf i (b_data (bufs s ! i)) False ((disk s)(n := b_data (bufs s ! i)))
    [(n, b_data (bufs s ! i))] s)"
    using i len dev unfolding iderw_def bnd_Ok[of "holdingsleep (SL_buf i)" ?s, OF h(2)]
    by (simp add: bget_buf_def not_le upd_buf_def bset_disk)
  then show ?thesis by (simp add: bwrite_def bnd_Ok[of "holdingsleep (SL_buf i)" s, OF h(1)])
qed

lemmas bwrite_spec = upd_spec[where dirty = False and w = "[(n, d)]" and dk = "(disk s)(n := d)" for s n d]

text \<open>Giving a buffer back: it must be unchanged, written through, or pinned by its dirty bit.\<close>

definition drop_buf :: "nat \<Rightarrow> 'b biost_scheme \<Rightarrow> 'b biost_scheme" where
  "drop_buf i s = (let s1 = bset i (\<lambda>x. x\<lparr>b_refcnt := 0\<rparr>) (pmap (wake (ChanSleepLock (SL_buf i)))
     (sl_set (SL_buf i) \<lparr>sl_locked = False, sl_pid = 0\<rparr> s)) in link_front i (unlink_buf i s1))"

lemma link_unlink_sel [simp]:
  "bufs (link_front b s) = bufs s" "disk (link_front b s) = disk s" "disksize (link_front b s) = disksize s"
  "wtrace (link_front b s) = wtrace s" "slocks (link_front b s) = slocks s" "thr_ok (link_front b s) = thr_ok s"
  "ptable (link_front b s) = ptable s"
  "bufs (unlink_buf b s) = bufs s" "disk (unlink_buf b s) = disk s" "disksize (unlink_buf b s) = disksize s"
  "wtrace (unlink_buf b s) = wtrace s" "slocks (unlink_buf b s) = slocks s" "thr_ok (unlink_buf b s) = thr_ok s"
  "ptable (unlink_buf b s) = ptable s"
  "link_front b (s\<lparr>held := h\<rparr>) = (link_front b s)\<lparr>held := h\<rparr>"
  "unlink_buf b (s\<lparr>held := h\<rparr>) = (unlink_buf b s)\<lparr>held := h\<rparr>"
  "held (link_front b s) = held s" "held (unlink_buf b s) = held s"
  by (simp_all add: link_front_def unlink_buf_def Let_def thr_ok_def)

lemma pmap_bufs [simp]:
  "bufs (pmap f s) = bufs s" "disk (pmap f s) = disk s" "disksize (pmap f s) = disksize s"
  "wtrace (pmap f s) = wtrace s" "slocks (pmap f s) = slocks s" "bnext (pmap f s) = bnext s" "bprev (pmap f s) = bprev s"
  by (simp_all add: pmap_def)

lemma drop_buf_sel:
  "bufs (drop_buf i s) = (bufs s)[i := (bufs s ! i)\<lparr>b_refcnt := 0\<rparr>]" "disk (drop_buf i s) = disk s"
  "disksize (drop_buf i s) = disksize s" "wtrace (drop_buf i s) = wtrace s" "thr_ok (drop_buf i s) = thr_ok s"
  "locked_at (drop_buf i s) j = (j \<noteq> i \<and> locked_at s j)"
  by (auto simp: drop_buf_def Let_def locked_at_def)

lemma bframe_drop: "bframe s (drop_buf i s)"
  by (simp add: bframe_def drop_buf_def Let_def link_front_def unlink_buf_def bset_def pmap_def sl_set_def)

lemma brelse_eq:
  assumes "binv s" "has_buf s i n"
  shows "brelse i s = Ok () (drop_buf i s)"
proof -
  have i: "i < NBUF" "locked_at s i" using assms(2) by (simp_all add: has_buf_def)
  have len: "length (bufs s) = NBUF" and t: "thr_ok s" using binvD[OF assms(1)] by simp_all
  have r: "b_refcnt (bufs s ! i) = 1" using binvD(3)[OF assms(1) i(1)] i by (simp add: buf_ok_def Let_def)
  have h: "holdingsleep (SL_buf i) s = Ok True s" using holdingsleep_eq[OF t] i(2) by (simp add: locked_at_def)
  let ?s = "pmap (wake (ChanSleepLock (SL_buf i))) (sl_set (SL_buf i) \<lparr>sl_locked = False, sl_pid = 0\<rparr> s)"
  have rel: "releasesleep (SL_buf i) s = Ok () ?s" by (rule releasesleep_eq[OF t])
  have hs: "held ?s = []" using t by (simp add: thr_ok_def)
  have "bset i (\<lambda>x. x\<lparr>b_refcnt := b_refcnt x - 1\<rparr>) ?s = bset i (\<lambda>x. x\<lparr>b_refcnt := 0\<rparr>) ?s"
    using r by (simp add: bset_def)
  then show ?thesis
    using i(1) len hs unfolding brelse_def drop_buf_def Let_def
    by (simp add: bnd_Ok[of "holdingsleep (SL_buf i)" s, OF h] seq_Ok[of "releasesleep (SL_buf i)" s, OF rel]
        bget_buf_def whenM_def)
qed

lemma drop_ring:
  assumes "ring (bnext s) (bprev s) xs" "i < NBUF"
  shows "ring (bnext (drop_buf i s)) (bprev (drop_buf i s)) (i # remove1 i xs)"
proof -
  let ?nx = "(bnext s)(bprev s i := bnext s i)" and ?pv = "(bprev s)(bnext s i := bprev s i)"
  have "bnext (drop_buf i s) = ?nx(i := ?nx NBUF, NBUF := i)" "bprev (drop_buf i s) = ?pv(i := NBUF, ?nx NBUF := i)"
    using assms(2) by (simp_all add: drop_buf_def unlink_buf_def Let_def del: fun_upd_apply) (simp_all)
  then show ?thesis using ring_move_front[OF assms] by metis
qed

lemma drop_spec:
  assumes inv: "binv s" and hb: "has_buf s i n" and c: "b_dirty (bufs s ! i) \<or> b_data (bufs s ! i) = disk s n"
  defines "s' \<equiv> drop_buf i s"
  shows "binv s'" "lblk s' = lblk s" "lockedblks s' = lockedblks s - {n}" "dirtyblks s' = dirtyblks s"
    "\<And>j m. has_buf s' j m \<longleftrightarrow> j \<noteq> i \<and> has_buf s j m" "\<And>j. j \<noteq> i \<Longrightarrow> bufs s' ! j = bufs s ! j"
proof -
  have len: "length (bufs s) = NBUF" by (rule binvD(2)[OF inv])
  have i: "i < NBUF" "locked_at s i" "b_valid (bufs s ! i)" "b_blockno (bufs s ! i) = n"
    using hb by (simp_all add: has_buf_def)
  have b': "bufs s' ! j = (if j = i then (bufs s ! i)\<lparr>b_refcnt := 0\<rparr> else bufs s ! j)" if "j < NBUF" for j
    using that i len by (simp add: s'_def drop_buf_sel)
  have l': "locked_at s' j \<longleftrightarrow> j \<noteq> i \<and> locked_at s j" for j by (simp add: s'_def drop_buf_sel)
  have v': "b_valid (bufs s' ! j) = b_valid (bufs s ! j)" "b_blockno (bufs s' ! j) = b_blockno (bufs s ! j)"
    "b_dirty (bufs s' ! j) = b_dirty (bufs s ! j)" "b_data (bufs s' ! j) = b_data (bufs s ! j)"
    if "j < NBUF" for j using b'[OF that] by simp_all
  have dk: "disk s' = disk s" "disksize s' = disksize s" by (simp_all add: s'_def drop_buf_sel)
  have ok: "buf_ok s' j" if j: "j < NBUF" for j
    using binvD(3)[OF inv j] b'[OF j] i c by (auto simp: buf_ok_def Let_def l' dk)
  obtain xs where "ring (bnext s) (bprev s) xs" using inv by (auto simp: binv_def)
  from drop_ring[OF this i(1)] have r: "\<exists>xs. ring (bnext s') (bprev s') xs" unfolding s'_def by blast
  have u: "thr_ok s'" "length (bufs s') = NBUF" using binvD(1)[OF inv] len by (simp_all add: s'_def drop_buf_sel)
  show inv': "binv s'" unfolding binv_def
    using binvD(4,5)[OF inv] u r ok v' dk by simp
  show "lblk s' = lblk s"
  proof
    fix m
    show "lblk s' m = lblk s m"
    proof (cases "\<exists>j < NBUF. b_valid (bufs s ! j) \<and> b_blockno (bufs s ! j) = m")
      case True
      then obtain j where j: "j < NBUF" "b_valid (bufs s ! j)" "b_blockno (bufs s ! j) = m" by blast
      then show ?thesis using lblk_hit[OF inv j] lblk_hit[OF inv' j(1), of m] v'[OF j(1)] by simp
    next
      case False
      then show ?thesis using lblk_miss[OF len, of m] lblk_miss[OF u(2), of m] v' dk by auto
    qed
  qed
  have nj: "b_blockno (bufs s ! j) \<noteq> n" if "j < NBUF" "j \<noteq> i" "locked_at s j" for j
    using binvD(3)[OF inv that(1)] has_buf_unique[OF inv hb that(1)] that by (auto simp: buf_ok_def Let_def)
  show "lockedblks s' = lockedblks s - {n}"
  proof (intro set_eqI)
    fix m
    have "m \<in> lockedblks s' \<longleftrightarrow> (\<exists>j < NBUF. j \<noteq> i \<and> locked_at s j \<and> b_blockno (bufs s ! j) = m)"
      unfolding in_lockedblks l' using v'(2) by metis
    then show "m \<in> lockedblks s' \<longleftrightarrow> m \<in> lockedblks s - {n}" using i nj in_lockedblks[of m s] by simp metis
  qed
  show "dirtyblks s' = dirtyblks s" using v' by (intro set_eqI) (metis in_dirtyblks)
  show "has_buf s' j m \<longleftrightarrow> j \<noteq> i \<and> has_buf s j m" for j m
    using v'[of j] by (auto simp: has_buf_def l')
  show "bufs s' ! j = bufs s ! j" if "j \<noteq> i" for j using that by (simp add: s'_def drop_buf_sel)
qed

text \<open>A free buffer exists as long as fewer than \<open>NBUF\<close> blocks are locked or dirty.\<close>

lemma avail_card:
  assumes inv: "binv s" and c: "card (lockedblks s \<union> dirtyblks s) < NBUF"
  shows "avail s"
proof (rule ccontr)
  assume "\<not> avail s"
  then have p: "locked_at s i \<or> b_dirty (bufs s ! i)" if "i < NBUF" for i using that by (auto simp: avail_def)
  then have v: "b_valid (bufs s ! i)" if "i < NBUF" for i
    using binvD(3)[OF inv that] that by (auto simp: buf_ok_def Let_def)
  let ?f = "\<lambda>i. b_blockno (bufs s ! i)"
  have "inj_on ?f {0..<NBUF}" using binvD(4)[OF inv] v by (intro inj_onI) auto
  then have "card (?f ` {0..<NBUF}) = NBUF" by (simp add: card_image)
  moreover have "?f ` {0..<NBUF} \<subseteq> lockedblks s \<union> dirtyblks s"
    using p by (intro image_subsetI) (metis UnI1 UnI2 atLeastLessThan_iff in_lockedblks in_dirtyblks)
  moreover have "finite (lockedblks s \<union> dirtyblks s)"
    by (simp add: lockedblks_def dirtyblks_def)
  ultimately show False using c card_mono by (metis not_le)
qed

subsection \<open>Initialisation and the replacement order\<close>

lemma link_front_seg:
  assumes "seg (bnext s) (bprev s) NBUF xs NBUF" "b < NBUF" "b \<notin> set xs" "NBUF \<notin> set xs" "distinct xs"
  shows "seg (bnext (link_front b s)) (bprev (link_front b s)) NBUF (b # xs) NBUF"
  using seg_push[OF assms(1) _ assms(3-5)] assms(2) by (simp only: link_front_sel less_irrefl nat_neq_iff simp_thms)

lemma binit_loop:
  assumes "k \<le> NBUF" "bnext s NBUF = NBUF" "bprev s NBUF = NBUF"
  shows "\<exists>s'. forM [0..<k] (\<lambda>b. seq (initsleeplock (SL_buf b)) (modify (link_front b))) s = Ok () s' \<and>
    seg (bnext s') (bprev s') NBUF (rev [0..<k]) NBUF \<and> (\<forall>b < k. \<not> locked_at s' b) \<and>
    bufs s' = bufs s \<and> disk s' = disk s \<and> thr_ok s' = thr_ok s \<and> disksize s' = disksize s"
  using assms(1)
proof (induction k)
  case 0
  then show ?case using assms(2,3) by simp
next
  case (Suc k)
  then have "k \<le> NBUF" by simp
  from Suc.IH[OF this] obtain t where t: "forM [0..<k] (\<lambda>b. seq (initsleeplock (SL_buf b)) (modify (link_front b))) s = Ok () t"
    "seg (bnext t) (bprev t) NBUF (rev [0..<k]) NBUF" "\<forall>b < k. \<not> locked_at t b"
    "bufs t = bufs s" "disk t = disk s" "thr_ok t = thr_ok s" "disksize t = disksize s" by blast
  let ?u = "sl_set (SL_buf k) \<lparr>sl_locked = False, sl_pid = 0\<rparr> t"
  let ?t = "link_front k ?u"
  have "forM [0..<Suc k] (\<lambda>b. seq (initsleeplock (SL_buf b)) (modify (link_front b))) s = Ok () ?t"
    unfolding upt_Suc_append[OF le0] forM_append seq_Ok[of "forM [0..<k] _" s, OF t(1)]
    by (simp add: initsleeplock_def)
  moreover have "seg (bnext ?t) (bprev ?t) NBUF (k # rev [0..<k]) NBUF"
    using t(2) Suc.prems by (intro link_front_seg) simp_all
  moreover have "\<forall>b < Suc k. \<not> locked_at ?t b" using t(3) by (simp add: locked_at_def less_Suc_eq)
  moreover have "bufs ?t = bufs s \<and> disk ?t = disk s \<and> thr_ok ?t = thr_ok s \<and> disksize ?t = disksize s"
    using t(4-7) by simp
  ultimately show ?case unfolding upt_Suc_append[OF le0] rev_append by (intro exI[of _ ?t]) (simp_all del: modify_apply)
qed

lemma binit_ring:
  "\<exists>s'. binit s = Ok () s' \<and> ring (bnext s') (bprev s') (rev [0..<NBUF]) \<and> (\<forall>b < NBUF. \<not> locked_at s' b) \<and>
     bufs s' = bufs s \<and> disk s' = disk s \<and> thr_ok s' = thr_ok s \<and> disksize s' = disksize s"
proof -
  let ?s = "s\<lparr>bprev := (bprev s)(NBUF := NBUF), bnext := (bnext s)(NBUF := NBUF)\<rparr>"
  have "bnext ?s NBUF = NBUF" "bprev ?s NBUF = NBUF" "thr_ok ?s = thr_ok s" by (simp_all add: thr_ok_def)
  with binit_loop[of NBUF ?s] show ?thesis by (auto simp: binit_def ring_def)
qed

text \<open>
  Claim C21. \<open>bread\<close> of a block that no thread holds, with a recyclable buffer left, returns
  a locked buffer with the block's current contents; it changes neither the disk nor the logical
  contents of any block nor a buffer that is already held, and keeps the cache invariant (each cached block
  in one buffer, clean unlocked buffers equal to the disk, the buffers in one doubly linked ring).
\<close>

theorem bread_returns_block:
  assumes "binv s" "n < disksize s" "n \<notin> lockedblks s" "card (lockedblks s \<union> dirtyblks s) < NBUF"
  shows "\<exists>i s'. bread 1 n s = Ok i s' \<and> binv s' \<and> has_buf s' i n \<and> b_data (bufs s' ! i) = lblk s n \<and>
    lblk s' = lblk s \<and> disk s' = disk s \<and> lockedblks s' = insert n (lockedblks s) \<and>
    (\<forall>j m. has_buf s j m \<longrightarrow> has_buf s' j m \<and> bufs s' ! j = bufs s ! j)"
  using bread_spec[OF assms(1-3) avail_card[OF assms(1,4)]] unfolding bread_post_def by blast

text \<open>
  Claim C22. The ring of buffers is a most-recently-used list: \<open>brelse\<close> moves the released
  buffer to its front, and a \<open>bget\<close> that has to recycle takes the least recently used
  buffer that is neither referenced nor dirty.
\<close>

theorem bcache_lru:
  assumes "binv s" "ring (bnext s) (bprev s) xs"
  shows "(has_buf s i n \<longrightarrow> (\<exists>s'. brelse i s = Ok () s' \<and> ring (bnext s') (bprev s') (i # remove1 i xs))) \<and>
    (avail s \<and> (\<forall>j < NBUF. b_valid (bufs s ! j) \<longrightarrow> b_blockno (bufs s ! j) \<noteq> m) \<longrightarrow>
      (\<exists>b s'. bget 1 m s = Ok b s' \<and>
        List.find (\<lambda>b. b_refcnt (bufs s ! b) = 0 \<and> \<not> b_dirty (bufs s ! b)) (rev xs) = Some b))"
proof (intro conjI impI)
  assume h: "has_buf s i n"
  then have "i < NBUF" by (simp add: has_buf_def)
  then show "\<exists>s'. brelse i s = Ok () s' \<and> ring (bnext s') (bprev s') (i # remove1 i xs)"
    using brelse_eq[OF assms(1) h] drop_ring[OF assms(2)] by blast
next
  assume a: "avail s \<and> (\<forall>j < NBUF. b_valid (bufs s ! j) \<longrightarrow> b_blockno (bufs s ! j) \<noteq> m)"
  let ?P = "\<lambda>b. b_dev (bufs s ! b) = 1 \<and> b_blockno (bufs s ! b) = m"
  let ?Q = "\<lambda>b. b_refcnt (bufs s ! b) = 0 \<and> \<not> b_dirty (bufs s ! b)"
  have xs: "set xs = {0..<NBUF}" using assms(2) by (simp add: ring_def)
  have "(b_dev (bufs s ! j) = 1) = b_valid (bufs s ! j)" if "j < NBUF" for j
    using binvD(3)[OF assms(1) that] by (simp add: buf_ok_def Let_def)
  then have "List.find ?P xs = None" using xs a by (auto simp: find_None_iff)
  then have f: "bfind (NBUF + 1) (bnext s) ?P (bnext s NBUF) = Some None" using bfind_mru(1)[OF assms(2)] by simp
  obtain b s' where g: "bget 1 m s = Ok b s'" using bget_miss[OF assms(1)] a by blast
  have h: "held s = []" using binvD(1)[OF assms(1)] by (simp add: thr_ok_def)
  have "List.find ?Q (rev xs) = Some b"
    using g f h bfind_mru(2)[OF assms(2), of ?Q]
    by (cases "List.find ?Q (rev xs)") (auto simp: bget_def bnd_eq_Ok seq_eq_Ok split: if_splits)
  then show "\<exists>b s'. bget 1 m s = Ok b s' \<and> List.find ?Q (rev xs) = Some b" using g by blast
qed

text \<open>The cache of a machine that has just booted from the disk \<open>d\<close> of \<open>n\<close> blocks.\<close>

definition buf0 :: buf where
  "buf0 = \<lparr>b_valid = False, b_dirty = False, b_dev = 0, b_blockno = 0, b_refcnt = 0, b_data = replicate BSIZE 0\<rparr>"

definition fresh_cache :: "(uint \<Rightarrow> bytes) \<Rightarrow> uint \<Rightarrow> 'b biost_scheme \<Rightarrow> 'b biost_scheme" where
  "fresh_cache d n s = s\<lparr>bufs := replicate NBUF buf0, disk := d, disksize := n, wtrace := []\<rparr>"

lemma fresh_cache_ok:
  assumes "thr_ok s" "\<And>m. length (d m) = BSIZE"
  shows "\<exists>s'. binit (fresh_cache d n s) = Ok () s' \<and> binv s' \<and> lblk s' = d \<and> lockedblks s' = {} \<and>
    dirtyblks s' = {} \<and> disk s' = d \<and> disksize s' = n"
proof -
  have f: "bufs (fresh_cache d n s) = replicate NBUF buf0" "disk (fresh_cache d n s) = d"
    "disksize (fresh_cache d n s) = n" "thr_ok (fresh_cache d n s)"
    using assms(1) by (simp_all add: fresh_cache_def thr_ok_def)
  obtain s' where s': "binit (fresh_cache d n s) = Ok () s'" "ring (bnext s') (bprev s') (rev [0..<NBUF])"
    "\<forall>b < NBUF. \<not> locked_at s' b" "bufs s' = replicate NBUF buf0" "disk s' = d" "thr_ok s'" "disksize s' = n"
    using binit_ring[of "fresh_cache d n s"] f by auto
  have b: "bufs s' ! i = buf0" if "i < NBUF" for i using that s'(4) by simp
  have "binv s'" unfolding binv_def using s' b assms(2) by (auto simp: buf_ok_def Let_def buf0_def)
  moreover have "lblk s' m = d m" for m
    using lblk_miss[of s' m] b s'(4,5) by (simp add: buf0_def)
  moreover have "lockedblks s' = {}" "dirtyblks s' = {}"
    using s'(3) b by (auto simp: in_lockedblks in_dirtyblks buf0_def)
  ultimately show ?thesis using s' by (intro exI[of _ s']) auto
qed

definition bio0 :: biost where
  "bio0 = slst.extend (sl0\<lparr>c_proc := Some 0\<rparr>) (biost.fields [] id id (\<lambda>_. replicate BSIZE 7) 0 [])"

lemma bio0_thr_ok: "thr_ok bio0"
proof -
  have "held bio0 = held sl0" "c_proc bio0 = Some 0" "ptable bio0 = ptable sl0"
    by (simp_all add: bio0_def slst.defs biost.defs)
  then show ?thesis by (simp add: thr_ok_def NPROC_def)
qed

theorem bread_returns_block_witness:
  "\<exists>s i s'. binit (fresh_cache (\<lambda>_. replicate BSIZE 7) 1000 bio0) = Ok () s \<and> bread 1 5 s = Ok i s' \<and>
     b_data (bufs s' ! i) = replicate BSIZE 7"
proof -
  obtain s where s: "binit (fresh_cache (\<lambda>_. replicate BSIZE 7) 1000 bio0) = Ok () s" "binv s"
    "lblk s = (\<lambda>_. replicate BSIZE 7)" "lockedblks s = {}" "dirtyblks s = {}" "disksize s = 1000"
    using fresh_cache_ok[OF bio0_thr_ok, of "\<lambda>_. replicate BSIZE 7" 1000] by auto
  then show ?thesis using bread_returns_block[of s 5] by (fastforce simp: NBUF_def)
qed

theorem bcache_lru_witness:
  "\<exists>s b s'. binit (fresh_cache (\<lambda>_. replicate BSIZE 7) 1000 bio0) = Ok () s \<and> bget 1 5 s = Ok b s' \<and> b = 0"
proof -
  obtain s where s: "binit (fresh_cache (\<lambda>_. replicate BSIZE 7) 1000 bio0) = Ok () s" "binv s"
    "lockedblks s = {}" "dirtyblks s = {}"
    using fresh_cache_ok[OF bio0_thr_ok, of "\<lambda>_. replicate BSIZE 7" 1000] by auto
  obtain s2 where s2: "binit (fresh_cache (\<lambda>_. replicate BSIZE 7) 1000 bio0) = Ok () s2"
    "ring (bnext s2) (bprev s2) (rev [0..<NBUF])" "bufs s2 = replicate NBUF buf0"
    using binit_ring[of "fresh_cache (\<lambda>_. replicate BSIZE 7) 1000 bio0"] by (auto simp: fresh_cache_def)
  have "s2 = s" using s(1) s2(1) by simp
  moreover have "avail s" using avail_card[OF s(2)] s(3,4) by (simp add: NBUF_def)
  moreover have "List.find (\<lambda>b. b_refcnt (bufs s ! b) = 0 \<and> \<not> b_dirty (bufs s ! b)) [0..<NBUF] = Some 0"
    using s2(3) \<open>s2 = s\<close> by (simp add: upt_conv_Cons NBUF_def buf0_def)
  ultimately show ?thesis
    using bcache_lru[OF s(2), of "rev [0..<NBUF]" _ _ 5] s s2 by (auto simp: buf0_def)
qed

end
