(* ===== verification/Ide.thy ===== *)
theory Ide
  imports Bio
begin

text \<open>
  The driver of the disk controller (ide.c), with its queue of requests.  \<open>portin\<close> lists the values the status port will
  return and \<open>datain\<close> the blocks the data port will deliver; a wait that has read all of them does not end.  \<open>portout\<close> records what is
  written to the ports.  The field \<open>qnext\<close> of the buffers is a map.  Routing the interrupt (\<open>ioapicenable\<close>) is left out.
\<close>

record idest = biost +
  idequeue :: "nat option"
  qnext :: "nat \<Rightarrow> nat option"
  havedisk1 :: bool
  portin :: "uchar list"
  datain :: "bytes list"
  portout :: "(uint \<times> bytes) list"

type_synonym ('a, 'b) iop = "'b idest_scheme \<Rightarrow> ('a, 'b idest_scheme) res"

definition FSSIZE :: uint where "FSSIZE = 40000"
definition IDE_CMD_READ :: uchar where "IDE_CMD_READ = 0x20"
definition IDE_CMD_WRITE :: uchar where "IDE_CMD_WRITE = 0x30"

definition outb :: "uint \<Rightarrow> uchar \<Rightarrow> (unit, 'b) iop" where
  "outb port v = modify (\<lambda>s. s\<lparr>portout := portout s @ [(port, [v])]\<rparr>)"

definition outsl :: "uint \<Rightarrow> bytes \<Rightarrow> (unit, 'b) iop" where
  "outsl port d = modify (\<lambda>s. s\<lparr>portout := portout s @ [(port, d)]\<rparr>)"

definition insl :: "nat \<Rightarrow> (unit, 'b) iop" where
  "insl b = bnd (gets datain) (\<lambda>ds. case ds of [] \<Rightarrow> hang
     | d # ds \<Rightarrow> seq (modify (\<lambda>s. s\<lparr>datain := ds\<rparr>)) (modify (bset b (\<lambda>x. x\<lparr>b_data := d\<rparr>))))"

fun idewait_loop :: "uchar list \<Rightarrow> (uchar \<times> uchar list) option" where
  "idewait_loop [] = None"
| "idewait_loop (r # rs) = (if r AND 0xC0 \<noteq> 0x40 then idewait_loop rs else Some (r, rs))"

definition idewait :: "bool \<Rightarrow> (int, 'b) iop" where
  "idewait checkerr = bnd (gets portin) (\<lambda>rs. case idewait_loop rs of None \<Rightarrow> hang
     | Some (r, rs) \<Rightarrow> seq (modify (\<lambda>s. s\<lparr>portin := rs\<rparr>)) (ret (if checkerr \<and> r AND 0x21 \<noteq> 0 then - 1 else 0)))"

text \<open>At most \<open>k\<close> reads of the status port to see whether there is a disk 1.\<close>

fun probe :: "nat \<Rightarrow> uchar list \<Rightarrow> (bool \<times> uchar list) option" where
  "probe 0 rs = Some (False, rs)"
| "probe (Suc k) [] = None"
| "probe (Suc k) (r # rs) = (if r \<noteq> 0 then Some (True, rs) else probe k rs)"

definition ideinit :: "(unit, 'b) iop" where
  "ideinit = seq (idewait False) (seq (outb 0x1F6 0xF0) (bnd (gets portin) (\<lambda>rs. case probe 1000 rs of None \<Rightarrow> hang
     | Some (d, rs) \<Rightarrow> seq (modify (\<lambda>s. s\<lparr>portin := rs, havedisk1 := havedisk1 s \<or> d\<rparr>)) (outb 0x1F6 0xE0))))"

text \<open>A block is one sector.\<close>

definition idestart :: "nat option \<Rightarrow> (unit, 'b) iop" where
  "idestart q = (case q of None \<Rightarrow> panic ''idestart'' | Some b \<Rightarrow> bnd (gets (bget_buf b)) (\<lambda>x.
     if b_blockno x \<ge> FSSIZE then panic ''incorrect blockno''
     else let sector = b_blockno x in
       seq (idewait False) (seq (outb 0x3F6 0) (seq (outb 0x1F2 1) (seq (outb 0x1F3 (ucast (sector AND 0xFF)))
       (seq (outb 0x1F4 (ucast (drop_bit 8 sector AND 0xFF))) (seq (outb 0x1F5 (ucast (drop_bit 16 sector AND 0xFF)))
       (seq (outb 0x1F6 (ucast (0xE0 OR push_bit 4 (b_dev x AND 1) OR (drop_bit 24 sector AND 0xF))))
       (if b_dirty x then seq (outb 0x1F7 IDE_CMD_WRITE) (outsl 0x1F0 (b_data x)) else outb 0x1F7 IDE_CMD_READ)))))))))"

definition ideintr :: "(unit, 'b) iop" where
  "ideintr = seq (acquire L_ide) (bnd (gets idequeue) (\<lambda>q. case q of None \<Rightarrow> release L_ide | Some b \<Rightarrow>
     seq (modify (\<lambda>s. s\<lparr>idequeue := qnext s b\<rparr>)) (bnd (gets (bget_buf b)) (\<lambda>x.
     seq (whenM (\<not> b_dirty x) (bnd (idewait True) (\<lambda>e. whenM (e \<ge> 0) (insl b))))
     (seq (modify (bset b (\<lambda>x. x\<lparr>b_valid := True, b_dirty := False\<rparr>))) (seq (wakeup (ChanBuf b))
     (bnd (gets idequeue) (\<lambda>q. seq (whenM (q \<noteq> None) (idestart q)) (release L_ide)))))))))"

text \<open>The last buffer of the queue.  A walk of more than \<open>NBUF\<close> steps meets a buffer twice and never ends.\<close>

fun ide_last :: "nat \<Rightarrow> (nat \<Rightarrow> nat option) \<Rightarrow> nat \<Rightarrow> nat option" where
  "ide_last 0 nx b = None"
| "ide_last (Suc k) nx b = (case nx b of None \<Rightarrow> Some b | Some c \<Rightarrow> ide_last k nx c)"

definition ide_enqueue :: "nat \<Rightarrow> (unit, 'b) iop" where
  "ide_enqueue b = seq (modify (\<lambda>s. s\<lparr>qnext := (qnext s)(b := None)\<rparr>)) (bnd (gets idequeue) (\<lambda>q. case q of
     None \<Rightarrow> modify (\<lambda>s. s\<lparr>idequeue := Some b\<rparr>)
   | Some h \<Rightarrow> bnd (gets (\<lambda>s. ide_last (NBUF + 1) (qnext s) h)) (\<lambda>r. case r of None \<Rightarrow> hang
     | Some l \<Rightarrow> modify (\<lambda>s. s\<lparr>qnext := (qnext s)(l := Some b)\<rparr>))))"

text \<open>The loop that waits for the end of the request, entered with the lock held.\<close>

definition ide_iderw_wait :: "nat \<Rightarrow> (unit, 'b) iop" where
  "ide_iderw_wait b = bnd (gets (bget_buf b)) (\<lambda>x. if \<not> (b_valid x \<and> \<not> b_dirty x) then sleep (ChanBuf b) (Some L_ide) else release L_ide)"

definition ide_iderw :: "nat \<Rightarrow> (unit, 'b) iop" where
  "ide_iderw b = bnd (holdingsleep (SL_buf b)) (\<lambda>h. if \<not> h then panic ''iderw: buf not locked''
     else bnd (gets (bget_buf b)) (\<lambda>x. if b_valid x \<and> \<not> b_dirty x then panic ''iderw: nothing to do''
     else bnd (gets havedisk1) (\<lambda>d. if b_dev x \<noteq> 0 \<and> \<not> d then panic ''iderw: ide disk 1 not present''
     else seq (acquire L_ide) (seq (ide_enqueue b) (bnd (gets idequeue) (\<lambda>q. seq (whenM (q = Some b) (idestart q)) (ide_iderw_wait b)))))))"

definition ide_iderw_wake :: "nat \<Rightarrow> (unit, 'b) iop" where
  "ide_iderw_wake b = bnd curproc (\<lambda>c. seq (sleep_resume L_ide c) (ide_iderw_wait b))"

subsection \<open>The queue as a list\<close>

fun linked :: "(nat \<Rightarrow> nat option) \<Rightarrow> nat option \<Rightarrow> nat list \<Rightarrow> bool" where
  "linked nx q [] \<longleftrightarrow> q = None"
| "linked nx q (b # bs) \<longleftrightarrow> q = Some b \<and> linked nx (nx b) bs"

definition ide_ok :: "'b idest_scheme \<Rightarrow> nat list \<Rightarrow> bool" where
  "ide_ok s bs \<longleftrightarrow> linked (qnext s) (idequeue s) bs \<and> distinct bs \<and> set bs \<subseteq> {..<NBUF} \<and> length (bufs s) = NBUF \<and>
     (\<forall>b \<in> set bs. b_blockno (bufs s ! b) < FSSIZE)"

text \<open>The controller gets ready at least \<open>k\<close> times more.\<close>

fun ready :: "nat \<Rightarrow> uchar list \<Rightarrow> bool" where
  "ready 0 rs \<longleftrightarrow> True"
| "ready (Suc k) rs \<longleftrightarrow> (case idewait_loop rs of None \<Rightarrow> False | Some (_, rs) \<Rightarrow> ready k rs)"

lemma linked_cong: "linked nx q bs \<Longrightarrow> (\<And>b. b \<in> set bs \<Longrightarrow> nx b = nx' b) \<Longrightarrow> linked nx' q bs"
  by (induction bs arbitrary: q) auto

lemma linked_last:
  "linked nx (Some h) bs \<Longrightarrow> length bs \<le> k \<Longrightarrow> ide_last k nx h = Some (last bs)"
proof (induction k arbitrary: h bs)
  case (Suc k)
  then obtain cs where c: "bs = h # cs" "linked nx (nx h) cs" by (cases bs) auto
  show ?case
  proof (cases cs)
    case Nil
    then show ?thesis using c by simp
  next
    case (Cons d ds)
    then have "nx h = Some d" using c by simp
    then show ?thesis using Suc.IH[of d cs] Suc.prems(2) c Cons by simp
  qed
qed simp

declare ide_last.simps [simp del]

lemma linked_append: "linked nx q bs \<Longrightarrow> bs \<noteq> [] \<Longrightarrow> distinct bs \<Longrightarrow> b \<notin> set bs \<Longrightarrow> nx b = None \<Longrightarrow> linked (nx(last bs := Some b)) q (bs @ [b])"
proof (induction bs arbitrary: q)
  case (Cons c cs)
  show ?case
  proof (cases cs)
    case Nil
    then show ?thesis using Cons.prems by auto
  next
    case (Cons d ds)
    then have "c \<noteq> last cs" using Cons.prems(3) last_in_set[of cs] by auto
    then show ?thesis using Cons.IH[of "nx c"] Cons.prems Cons by auto
  qed
qed simp

lemma idewait_ready:
  assumes "ready (Suc k) (portin s)"
  obtains r rs where "idewait c s = Ok r (s\<lparr>portin := rs\<rparr>)" "ready k rs"
  using assms that by (auto simp: idewait_def split: option.splits)

lemma idestart_ready:
  assumes "b_blockno (bufs s ! b) < FSSIZE" "ready (Suc k) (portin s)"
  obtains rs out where "idestart (Some b) s = Ok () (s\<lparr>portin := rs, portout := out\<rparr>)" "ready k rs" "out \<noteq> portout s"
proof -
  obtain r rs where w: "idewait False s = Ok r (s\<lparr>portin := rs\<rparr>)" "ready k rs" by (rule idewait_ready[OF assms(2)])
  have "\<exists>out. idestart (Some b) s = Ok () (s\<lparr>portin := rs, portout := portout s @ out\<rparr>) \<and> out \<noteq> []"
    using assms(1) by (auto simp: idestart_def Let_def bget_buf_def seq_Ok[of "idewait False" s, OF w(1)] outb_def outsl_def)
  then show thesis using that w(2) by (metis append_self_conv)
qed

lemma ide_ok_length: "ide_ok s bs \<Longrightarrow> length bs \<le> NBUF"
  unfolding ide_ok_def by (metis card_lessThan card_mono distinct_card finite_lessThan)

lemma ide_enqueue_ok:
  assumes "ide_ok s bs" "b \<notin> set bs"
  obtains q nx where "ide_enqueue b s = Ok () (s\<lparr>idequeue := q, qnext := nx\<rparr>)" "linked nx q (bs @ [b])" "bs \<noteq> [] \<Longrightarrow> q = idequeue s"
proof (cases bs)
  case Nil
  then have "idequeue s = None" using assms(1) by (simp add: ide_ok_def)
  then have "ide_enqueue b s = Ok () (s\<lparr>idequeue := Some b, qnext := (qnext s)(b := None)\<rparr>)" by (simp add: ide_enqueue_def)
  then show thesis by (rule that) (simp_all add: Nil)
next
  case (Cons h cs)
  let ?nx = "(qnext s)(b := None)"
  have o: "linked (qnext s) (idequeue s) bs" "distinct bs" using assms(1) unfolding ide_ok_def by blast+
  have q: "idequeue s = Some h" using o(1) unfolding Cons by simp
  have l: "linked ?nx (Some h) bs" by (rule linked_cong[OF o(1)[unfolded q]]) (use assms(2) in fastforce)
  have "length bs \<le> NBUF + 1" using ide_ok_length[OF assms(1)] by linarith
  then have n: "ide_last (NBUF + 1) ?nx h = Some (last bs)" by (rule linked_last[OF l])
  have "bs \<noteq> []" using Cons by simp
  then have k: "linked (?nx(last bs := Some b)) (Some h) (bs @ [b])" by (rule linked_append[OF l _ o(2) assms(2)]) (rule fun_upd_same)
  let ?s = "s\<lparr>qnext := ?nx\<rparr>"
  have "ide_enqueue b s = bnd (gets (\<lambda>s. ide_last (NBUF + 1) (qnext s) h)) (\<lambda>r. case r of None \<Rightarrow> hang
     | Some l \<Rightarrow> modify (\<lambda>s. s\<lparr>qnext := (qnext s)(l := Some b)\<rparr>)) ?s"
    unfolding ide_enqueue_def by (simp add: q)
  also have "\<dots> = Ok () (?s\<lparr>qnext := ?nx(last bs := Some b)\<rparr>)" using n by (simp only: bnd_gets idest.select_convs idest.simps option.case) (simp add: modify_def)
  finally have "ide_enqueue b s = Ok () (s\<lparr>idequeue := Some h, qnext := ?nx(last bs := Some b)\<rparr>)" using q by simp
  from this k show thesis by (rule that) (simp add: q)
qed

lemma ide_ok_append:
  assumes "ide_ok s bs" "linked (qnext t) (idequeue t) (bs @ [b])" "b \<notin> set bs" "b < NBUF" "bufs t = bufs s" "b_blockno (bufs s ! b) < FSSIZE"
  shows "ide_ok t (bs @ [b])"
  using assms unfolding ide_ok_def by simp

lemma ide_ok_tail:
  assumes "ide_ok s (b # cs)" "linked (qnext t) (idequeue t) cs" "bufs t = (bufs s)[b := y]"
  shows "ide_ok t cs"
proof -
  have o: "distinct (b # cs)" "set (b # cs) \<subseteq> {..<NBUF}" "length (bufs s) = NBUF" "\<forall>c \<in> set (b # cs). b_blockno (bufs s ! c) < FSSIZE"
    using assms(1) unfolding ide_ok_def by blast+
  have "\<forall>c \<in> set cs. b_blockno (bufs t ! c) < FSSIZE"
  proof
    fix c assume c: "c \<in> set cs"
    then have "c \<noteq> b" using o(1) by auto
    then show "b_blockno (bufs t ! c) < FSSIZE" using o(4) c unfolding assms(3) by simp
  qed
  then show ?thesis unfolding ide_ok_def using o(1-3) assms(2,3) by simp
qed

text \<open>
  Claim C39. A request for a locked buffer that is not in the queue is appended to it and the caller sleeps until its buffer is done; the
  controller is started for it exactly when the queue was empty.
\<close>

theorem ide_request_queued:
  assumes "thr_ok s" "ide_ok s bs" "ready 1 (portin s)" "b < NBUF" "b \<notin> set bs" "sl_locked (slocks s (SL_buf b))"
    "\<not> (b_valid (bufs s ! b) \<and> \<not> b_dirty (bufs s ! b))" "b_dev (bufs s ! b) = 0 \<or> havedisk1 s" "b_blockno (bufs s ! b) < FSSIZE" "c_proc s = Some c"
  shows "\<exists>s'. ide_iderw b s = Swtch s' \<and> ide_ok s' (bs @ [b]) \<and> held s' = [L_ptable] \<and> p_state (pget c s') = SLEEPING \<and>
    p_chan (pget c s') = ChanBuf b \<and> bufs s' = bufs s \<and> (portout s' = portout s \<longleftrightarrow> bs \<noteq> [])"
proof -
  have h: "held s = []" "c < length (ptable s)" using assms(1,10) by (auto simp: thr_ok_def)
  let ?s = "s\<lparr>held := [L_ide]\<rparr>"
  have i: "ide_ok ?s bs" using assms(2) unfolding ide_ok_def by simp
  obtain q nx where q: "ide_enqueue b ?s = Ok () (?s\<lparr>idequeue := q, qnext := nx\<rparr>)" "linked nx q (bs @ [b])" "bs \<noteq> [] \<Longrightarrow> q = idequeue ?s"
    using ide_enqueue_ok[OF i assms(5)] by metis
  let ?t = "?s\<lparr>idequeue := q, qnext := nx\<rparr>"
  have e: "ide_iderw b s = seq (whenM (q = Some b) (idestart q)) (ide_iderw_wait b) ?t"
    using h assms(6-9) by (auto simp: ide_iderw_def bnd_Ok holdingsleep_eq[OF assms(1)] bget_buf_def seq_Ok[of "ide_enqueue b" ?s, OF q(1)])
  have qb: "q = Some b \<longleftrightarrow> bs = []" using q(2) assms(5) by (cases bs) auto
  have "\<exists>rs out. seq (whenM (q = Some b) (idestart q)) (ide_iderw_wait b) ?t = ide_iderw_wait b (?t\<lparr>portin := rs, portout := out\<rparr>) \<and> (out = portout s \<longleftrightarrow> bs \<noteq> [])"
  proof (cases "bs = []")
    case True
    have "b_blockno (bufs ?t ! b) < FSSIZE" "ready (Suc 0) (portin ?t)" using assms(3,9) by simp_all
    from idestart_ready[OF this] obtain rs out where i: "idestart (Some b) ?t = Ok () (?t\<lparr>portin := rs, portout := out\<rparr>)" "out \<noteq> portout ?t" by metis
    show ?thesis using True qb i by (intro exI[of _ rs] exI[of _ out]) (simp add: whenM_def seq_Ok)
  next
    case False
    then show ?thesis using qb by (intro exI[of _ "portin s"] exI[of _ "portout s"]) (simp add: whenM_def seq_Ok)
  qed
  then obtain rs out where w: "ide_iderw b s = ide_iderw_wait b (?t\<lparr>portin := rs, portout := out\<rparr>)" "out = portout s \<longleftrightarrow> bs \<noteq> []" using e by auto
  let ?u = "?t\<lparr>portin := rs, portout := out\<rparr>"
  have "ide_iderw_wait b ?u = sleep (ChanBuf b) (Some L_ide) ?u" using assms(7) by (simp add: ide_iderw_wait_def bget_buf_def)
  also have "\<dots> = Swtch ((pset c (\<lambda>p. p\<lparr>p_chan := ChanBuf b, p_state := SLEEPING\<rparr>) ?u)\<lparr>held := [L_ptable]\<rparr>)"
    using h assms(10) by (intro sleep_eq) simp_all
  finally have f: "ide_iderw b s = Swtch ((pset c (\<lambda>p. p\<lparr>p_chan := ChanBuf b, p_state := SLEEPING\<rparr>) ?u)\<lparr>held := [L_ptable]\<rparr>)" using w(1) by simp
  let ?v = "(pset c (\<lambda>p. p\<lparr>p_chan := ChanBuf b, p_state := SLEEPING\<rparr>) ?u)\<lparr>held := [L_ptable]\<rparr>"
  have "ide_ok ?v (bs @ [b])" by (rule ide_ok_append[OF assms(2) _ assms(5,4) _ assms(9)]) (simp_all add: pset_def q(2))
  moreover have "bufs ?v = bufs s" "portout ?v = out" "pget c ?v = (pget c s)\<lparr>p_chan := ChanBuf b, p_state := SLEEPING\<rparr>"
    using h(2) by (simp_all add: pset_def pget_def)
  ultimately show ?thesis using f w(2) by (intro exI[of _ ?v]) simp
qed

lemma ide_finish_read:
  assumes "ready 2 (portin s)" "datain s \<noteq> []"
  obtains v y where "whenM d (bnd (idewait True) (\<lambda>e. whenM (e \<ge> 0) (insl b))) s = Ok () v" "held v = held s" "idequeue v = idequeue s" "qnext v = qnext s"
    "ptable v = ptable s" "bufs v = (bufs s)[b := y]" "ready 1 (portin v)"
proof -
  have "ready (Suc 1) (portin s)" using assms(1) by (simp add: numeral_2_eq_2)
  then obtain r rs where r: "idewait True s = Ok r (s\<lparr>portin := rs\<rparr>)" "ready 1 rs" by (rule idewait_ready)
  obtain x xs where x: "datain s = x # xs" using assms(2) by (cases "datain s") auto
  have r1: "ready 1 (portin s)" using assms(1) by (simp add: numeral_2_eq_2 split: option.splits)
  have i: "insl b (s\<lparr>portin := rs\<rparr>) = Ok () (bset b (\<lambda>y. y\<lparr>b_data := x\<rparr>) (s\<lparr>portin := rs, datain := xs\<rparr>))" using x by (simp add: insl_def)
  consider "\<not> d" | "d" "\<not> r \<ge> 0" | "d" "r \<ge> 0" by linarith
  then show thesis
  proof cases
    case 1
    then show ?thesis using r1 by (intro that[of s "bufs s ! b"]) (simp_all add: whenM_def)
  next
    case 2
    then show ?thesis using r by (intro that[of "s\<lparr>portin := rs\<rparr>" "bufs s ! b"]) (simp_all add: whenM_def bnd_Ok)
  next
    case 3
    then have "whenM d (bnd (idewait True) (\<lambda>e. whenM (e \<ge> 0) (insl b))) s = insl b (s\<lparr>portin := rs\<rparr>)"
      by (simp add: whenM_def bnd_Ok[of "idewait True" s, OF r(1)])
    from this[unfolded i] show ?thesis by (rule that) (use r(2) in \<open>simp_all add: bset_def\<close>)
  qed
qed

lemma ide_start_next:
  assumes "held s = [L_ide]" "ready 1 (portin s)" "\<And>c. q = Some c \<Longrightarrow> b_blockno (bufs s ! c) < FSSIZE"
  obtains u where "seq (whenM (q \<noteq> None) (idestart q)) (release L_ide) s = Ok () u" "held u = []" "idequeue u = idequeue s" "qnext u = qnext s"
    "ptable u = ptable s" "bufs u = bufs s"
proof (cases q)
  case None
  then show ?thesis using assms(1) by (intro that[of "s\<lparr>held := []\<rparr>"]) (simp_all add: whenM_def seq_Ok)
next
  case (Some c)
  have "ready (Suc 0) (portin s)" using assms(2) by simp
  then obtain rs out where i: "idestart (Some c) s = Ok () (s\<lparr>portin := rs, portout := out\<rparr>)"
    using idestart_ready[OF assms(3)[OF Some]] by metis
  have "seq (whenM (q \<noteq> None) (idestart q)) (release L_ide) s = release L_ide (s\<lparr>portin := rs, portout := out\<rparr>)"
    unfolding Some using seq_Ok[of "idestart (Some c)" s, OF i] by (simp add: whenM_def)
  then show ?thesis using assms(1) by (intro that[of "s\<lparr>portin := rs, portout := out, held := []\<rparr>"]) simp_all
qed


text \<open>Locked buffers for block 5 of disk 0, and a controller that is ready.\<close>

definition ide0 :: idest where
  "ide0 = biost.extend (bio0\<lparr>slocks := (\<lambda>_. \<lparr>sl_locked = True, sl_pid = 1\<rparr>),
     bufs := replicate NBUF \<lparr>b_valid = False, b_dirty = False, b_dev = 0, b_blockno = 5, b_refcnt = 1, b_data = []\<rparr>\<rparr>)
     (idest.fields None (\<lambda>_. None) False [0x40, 0x40] [replicate BSIZE 7] [])"

lemma ide0_sel: "held ide0 = []" "c_proc ide0 = Some 0" "ptable ide0 = replicate NPROC proc0" "portin ide0 = [0x40, 0x40]" "datain ide0 = [replicate BSIZE 7]"
  "bufs ide0 = replicate NBUF \<lparr>b_valid = False, b_dirty = False, b_dev = 0, b_blockno = 5, b_refcnt = 1, b_data = []\<rparr>"
  "slocks ide0 l = \<lparr>sl_locked = True, sl_pid = 1\<rparr>" "idequeue ide0 = None" "qnext ide0 = (\<lambda>_. None)"
  by (simp_all add: ide0_def biost.defs idest.defs bio0_def slst.defs sl0_def kmemst.defs kmem0_def kcore.defs kcore0_def)

theorem ide_request_queued_witness: "\<exists>s'. ide_iderw 3 ide0 = Swtch s' \<and> ide_ok s' [3] \<and> p_chan (pget 0 s') = ChanBuf 3"
proof -
  have n: "(3 :: nat) < NBUF" by (simp add: NBUF_def)
  have t: "thr_ok ide0" by (simp add: thr_ok_def ide0_sel NPROC_def)
  have i: "ide_ok ide0 []" by (simp add: ide_ok_def ide0_sel)
  have r: "ready 1 (portin ide0)" by (simp add: ide0_sel)
  have l: "sl_locked (slocks ide0 (SL_buf 3))" by (simp add: ide0_sel)
  have b: "bufs ide0 ! 3 = \<lparr>b_valid = False, b_dirty = False, b_dev = 0, b_blockno = 5, b_refcnt = 1, b_data = []\<rparr>" using n by (simp add: ide0_sel)
  show ?thesis using ide_request_queued[OF t i r n _ l _ _ _ ide0_sel(2)] by (auto simp: b FSSIZE_def)
qed


end
