(* ===== verification/Log.thy ===== *)
theory Log
  imports Bio
begin

text \<open>
  The redo log (\<open>log.c\<close>) and the reader of the super block (\<open>readsb\<close> of \<open>fs.c\<close>, which
  \<open>initlog\<close> calls).  The in-memory log is a layer of the kernel state on top of the buffer cache; the
  on-disk header is the first 124 bytes of block \<open>log.start\<close>, little-endian.

  The first group of lemmas describes what a transaction sees: \<open>tx s L K\<close> says that the calling thread
  sees the blocks \<open>L\<close> and holds the buffers \<open>K\<close>, and \<open>bread\<close>, \<open>brelse\<close> and an update followed by
  \<open>log_write\<close> are specified by their effect on \<open>L\<close> and \<open>K\<close>.  The second group is about
  \<open>commit\<close> and \<open>recover_from_log\<close>: for every prefix of the block writes that reach the disk, recovery
  leaves either none or all of a transaction.
\<close>

definition MAXOPBLOCKS :: int where "MAXOPBLOCKS = 10"
definition LOGSIZE :: nat where "LOGSIZE = 30"

record superblock =
  sb_size :: uint
  sb_nblocks :: uint
  sb_ninodes :: uint
  sb_nlog :: uint
  sb_logstart :: uint
  sb_inodestart :: uint
  sb_bmapstart :: uint

record logst = biost +
  lg_start :: uint
  lg_size :: int
  lg_outstanding :: int
  lg_committing :: bool
  lg_dev :: uint
  lh_n :: int
  lh_block :: "uint list"

type_synonym ('a, 'b) lop = "'b logst_scheme \<Rightarrow> ('a, 'b logst_scheme) res"

text \<open>Reading the contents of a locked buffer, and assigning to them.\<close>

definition bdata :: "nat \<Rightarrow> (bytes, 'b) bop" where
  "bdata b = gets (\<lambda>s. b_data (bufs s ! b))"

definition set_bdata :: "nat \<Rightarrow> bytes \<Rightarrow> (unit, 'b) bop" where
  "set_bdata b d = modify (bset b (\<lambda>x. x\<lparr>b_data := d\<rparr>))"

text \<open>The word at byte \<open>o\<close> of a block.\<close>

definition word_at :: "bytes \<Rightarrow> nat \<Rightarrow> uint" where
  "word_at d o' = un32 (slice d o' 4)"

definition sb_of :: "bytes \<Rightarrow> superblock" where
  "sb_of d = \<lparr>sb_size = word_at d 0, sb_nblocks = word_at d 4, sb_ninodes = word_at d 8, sb_nlog = word_at d 12,
     sb_logstart = word_at d 16, sb_inodestart = word_at d 20, sb_bmapstart = word_at d 24\<rparr>"

definition readsb :: "uint \<Rightarrow> (superblock, 'b) bop" where
  "readsb dev = bnd (bread dev 1) (\<lambda>bp. bnd (bdata bp) (\<lambda>d. seq (brelse bp) (ret (sb_of d))))"

text \<open>The bodies of the loops of \<open>install_trans\<close> and \<open>write_log\<close> are definitions of their own.\<close>

definition install_block :: "nat \<Rightarrow> (unit, 'b) lop" where
  "install_block tail = bnd (gets lg_dev) (\<lambda>dev. bnd (gets lg_start) (\<lambda>start.
     bnd (bread dev (start + of_nat tail + 1)) (\<lambda>lbuf.
     seq (in_range (tail < LOGSIZE)) (bnd (gets (\<lambda>s. lh_block s ! tail)) (\<lambda>bn.
     bnd (bread dev bn) (\<lambda>dbuf.
     bnd (bdata lbuf) (\<lambda>d. seq (set_bdata dbuf d)
     (seq (bwrite dbuf) (seq (brelse lbuf) (brelse dbuf))))))))))"

definition install_trans :: "(unit, 'b) lop" where
  "install_trans = bnd (gets lh_n) (\<lambda>n. forM [0..<nat n] install_block)"

definition read_head :: "(unit, 'b) lop" where
  "read_head = bnd (gets lg_dev) (\<lambda>dev. bnd (gets lg_start) (\<lambda>start.
     bnd (bread dev start) (\<lambda>buf. bnd (bdata buf) (\<lambda>d.
     seq (modify (\<lambda>s. s\<lparr>lh_n := sint (word_at d 0)\<rparr>))
     (seq (forM [0..<nat (sint (word_at d 0))] (\<lambda>i. seq (in_range (i < LOGSIZE))
        (modify (\<lambda>s. s\<lparr>lh_block := (lh_block s)[i := word_at d (4 + 4 * i)]\<rparr>))))
     (brelse buf))))))"

definition write_head :: "(unit, 'b) lop" where
  "write_head = bnd (gets lg_dev) (\<lambda>dev. bnd (gets lg_start) (\<lambda>start.
     bnd (bread dev start) (\<lambda>buf. bnd (gets lh_n) (\<lambda>n.
     seq (bnd (bdata buf) (\<lambda>d. set_bdata buf (splice d 0 (le32 (of_int n)))))
     (seq (forM [0..<nat n] (\<lambda>i. seq (in_range (i < LOGSIZE)) (bnd (bdata buf) (\<lambda>d.
        bnd (gets (\<lambda>s. lh_block s ! i)) (\<lambda>b. set_bdata buf (splice d (4 + 4 * i) (le32 b)))))))
     (seq (bwrite buf) (brelse buf)))))))"

definition recover_from_log :: "(unit, 'b) lop" where
  "recover_from_log = seq read_head (seq install_trans (seq (modify (\<lambda>s. s\<lparr>lh_n := 0\<rparr>)) write_head))"

definition initlog :: "uint \<Rightarrow> (unit, 'b) lop" where
  "initlog dev = bnd (readsb dev) (\<lambda>sb.
     seq (modify (\<lambda>s. s\<lparr>lg_start := sb_logstart sb, lg_size := sint (sb_nlog sb), lg_dev := dev\<rparr>)) recover_from_log)"

text \<open>One pass of the loop of \<open>begin_op\<close>, entered with the log lock held; a thread that sleeps runs it again.\<close>

definition begin_op_loop :: "(unit, 'b) lop" where
  "begin_op_loop = bnd (gets lg_committing) (\<lambda>c. bnd (gets (\<lambda>s. lh_n s + (lg_outstanding s + 1) * MAXOPBLOCKS)) (\<lambda>k.
     if c then sleep ChanLog (Some L_log)
     else if k > int LOGSIZE then sleep ChanLog (Some L_log)
     else seq (modify (\<lambda>s. s\<lparr>lg_outstanding := lg_outstanding s + 1\<rparr>)) (release L_log)))"

definition begin_op :: "(unit, 'b) lop" where
  "begin_op = seq (acquire L_log) begin_op_loop"

definition begin_op_wake :: "nat \<Rightarrow> (unit, 'b) lop" where
  "begin_op_wake i = seq (sleep_resume L_log i) begin_op_loop"

definition log_block :: "nat \<Rightarrow> (unit, 'b) lop" where
  "log_block tail = bnd (gets lg_dev) (\<lambda>dev. bnd (gets lg_start) (\<lambda>start.
     bnd (bread dev (start + of_nat tail + 1)) (\<lambda>to.
     seq (in_range (tail < LOGSIZE)) (bnd (gets (\<lambda>s. lh_block s ! tail)) (\<lambda>bn.
     bnd (bread dev bn) (\<lambda>from.
     bnd (bdata from) (\<lambda>d. seq (set_bdata to d)
     (seq (bwrite to) (seq (brelse from) (brelse to))))))))))"

definition write_log :: "(unit, 'b) lop" where
  "write_log = bnd (gets lh_n) (\<lambda>n. forM [0..<nat n] log_block)"

definition commit :: "(unit, 'b) lop" where
  "commit = bnd (gets lh_n) (\<lambda>n. whenM (n > 0)
     (seq write_log (seq write_head (seq install_trans
     (seq (modify (\<lambda>s. s\<lparr>lh_n := 0\<rparr>)) write_head)))))"

definition end_op :: "(unit, 'b) lop" where
  "end_op = seq (acquire L_log)
     (seq (modify (\<lambda>s. s\<lparr>lg_outstanding := lg_outstanding s - 1\<rparr>))
     (bnd (gets lg_committing) (\<lambda>c. if c then panic ''log.committing'' else
     bnd (gets lg_outstanding) (\<lambda>o'.
     if o' = 0 then seq (modify (\<lambda>s. s\<lparr>lg_committing := True\<rparr>))
       (seq (release L_log) (seq commit (seq (acquire L_log)
       (seq (modify (\<lambda>s. s\<lparr>lg_committing := False\<rparr>)) (seq (wakeup ChanLog) (release L_log))))))
     else seq (wakeup ChanLog) (release L_log)))))"

definition log_absorb :: "uint \<Rightarrow> 'b logst_scheme \<Rightarrow> nat" where
  "log_absorb n s = (case find_index ((=) n) (take (nat (lh_n s)) (lh_block s)) of Some i \<Rightarrow> i | None \<Rightarrow> nat (lh_n s))"

definition log_write :: "nat \<Rightarrow> (unit, 'b) lop" where
  "log_write b = bnd (gets (\<lambda>s. lh_n s \<ge> int LOGSIZE \<or> lh_n s \<ge> lg_size s - 1)) (\<lambda>full.
     if full then panic ''too big a transaction'' else
     bnd (gets lg_outstanding) (\<lambda>o'. if o' < 1 then panic ''log_write outside of trans'' else
     seq (acquire L_log) (bnd (gets (\<lambda>s. b_blockno (bufs s ! b))) (\<lambda>n.
     bnd (gets (log_absorb n)) (\<lambda>i.
     seq (modify (\<lambda>s. s\<lparr>lh_block := (lh_block s)[i := n]\<rparr>))
     (seq (modify (\<lambda>s. if int i = lh_n s then s\<lparr>lh_n := lh_n s + 1\<rparr> else s))
     (seq (modify (bset b (\<lambda>x. x\<lparr>b_dirty := True\<rparr>))) (release L_log))))))))"

subsection \<open>The cache as its clients see it\<close>

text \<open>
  \<open>bview s L D T W K\<close>: the cache invariant holds, the blocks read as \<open>L\<close>, the disk holds \<open>D\<close> after the writes
  \<open>T\<close>, the blocks \<open>W\<close> are dirty, and the calling thread holds the buffers \<open>K\<close>, none of them with a change
  that is neither on disk nor pinned.
\<close>

definition bheld :: "'b biost_scheme \<Rightarrow> (uint \<rightharpoonup> nat) \<Rightarrow> bool" where
  "bheld s K \<longleftrightarrow> lockedblks s = dom K \<and>
     (\<forall>n i. K n = Some i \<longrightarrow> has_buf s i n \<and> (b_dirty (bufs s ! i) \<or> b_data (bufs s ! i) = disk s n))"

definition bview :: "'b biost_scheme \<Rightarrow> (uint \<Rightarrow> bytes) \<Rightarrow> (uint \<Rightarrow> bytes) \<Rightarrow> (uint \<times> bytes) list \<Rightarrow> uint set \<Rightarrow> (uint \<rightharpoonup> nat) \<Rightarrow> bool" where
  "bview s L D T W K \<longleftrightarrow> binv s \<and> lblk s = L \<and> disk s = D \<and> wtrace s = T \<and> dirtyblks s = W \<and> bheld s K"

lemma bheldD:
  assumes "bheld s K" "K n = Some i"
  shows "has_buf s i n" "b_dirty (bufs s ! i) \<or> b_data (bufs s ! i) = disk s n"
  using assms by (auto simp: bheld_def)

lemma lblk_clean:
  assumes inv: "binv s" and n: "n \<notin> dirtyblks s" "n \<notin> lockedblks s"
  shows "lblk s n = disk s n"
proof (cases "\<exists>i < NBUF. b_valid (bufs s ! i) \<and> b_blockno (bufs s ! i) = n")
  case True
  then obtain i where i: "i < NBUF" "b_valid (bufs s ! i)" "b_blockno (bufs s ! i) = n" by blast
  then have "\<not> b_dirty (bufs s ! i)" "\<not> locked_at s i" using n by (auto simp: in_dirtyblks in_lockedblks)
  then have "b_data (bufs s ! i) = disk s n" using binvD(3)[OF inv i(1)] i by (simp add: buf_ok_def Let_def)
  then show ?thesis using lblk_hit[OF inv i] by simp
next
  case False
  then show ?thesis using lblk_miss[of s n] binvD(2)[OF inv] by blast
qed

lemma has_buf_dirty: "binv s \<Longrightarrow> has_buf s i n \<Longrightarrow> n \<in> dirtyblks s \<longleftrightarrow> b_dirty (bufs s ! i)"
  unfolding in_dirtyblks
proof (intro iffI)
  assume inv: "binv s" and hb: "has_buf s i n" and "\<exists>j < NBUF. b_dirty (bufs s ! j) \<and> b_blockno (bufs s ! j) = n"
  then obtain j where j: "j < NBUF" "b_dirty (bufs s ! j)" "b_blockno (bufs s ! j) = n" by blast
  then have "b_valid (bufs s ! j)" using binvD(3)[OF inv j(1)] by (simp add: buf_ok_def Let_def)
  then have "j = i" using has_buf_unique[OF inv hb j(1)] j(3) by simp
  then show "b_dirty (bufs s ! i)" using j(2) by simp
qed (auto simp: has_buf_def)

lemma bview_data:
  assumes "bview s L D T W K" "K n = Some i"
  shows "b_data (bufs s ! i) = L n" "b_blockno (bufs s ! i) = n" "i < NBUF" "i < length (bufs s)"
proof -
  have inv: "binv s" "lblk s = L" and hb: "has_buf s i n" using assms by (auto simp: bview_def dest: bheldD)
  then show "b_data (bufs s ! i) = L n" "b_blockno (bufs s ! i) = n" "i < NBUF"
    using lblk_hit[OF inv(1), of i n] by (simp_all add: has_buf_def)
  then show "i < length (bufs s)" using binvD(2)[OF inv(1)] by simp
qed

lemma bview_inj:
  assumes "bview s L D T W K" "K n = Some i" "K m = Some i" shows "n = m"
  using bview_data(2)[OF assms(1,2)] bview_data(2)[OF assms(1,3)] by simp

lemma bview_clean:
  assumes "bview s L D T W K" "n \<notin> W" shows "L n = D n"
proof (cases "K n")
  case None
  then show ?thesis using assms lblk_clean[of s n] by (auto simp: bview_def bheld_def)
next
  case (Some i)
  then have "has_buf s i n" "b_dirty (bufs s ! i) \<or> b_data (bufs s ! i) = disk s n"
    using assms by (auto simp: bview_def dest: bheldD)
  then have "b_data (bufs s ! i) = disk s n" using assms has_buf_dirty[of s i n] by (auto simp: bview_def)
  then show ?thesis using bview_data(1)[OF assms(1) Some] assms(1) by (simp add: bview_def)
qed

lemma bread_view:
  assumes v: "bview s L D T W K" and n: "n < disksize s" "K n = None" and c: "card (dom K \<union> W) < NBUF \<or> n \<in> W"
  shows "\<exists>i s'. bread 1 n s = Ok i s' \<and> bview s' L D T W (K(n \<mapsto> i)) \<and> bframe s s'"
proof -
  have inv: "binv s" and K: "bheld s K" and e: "lblk s = L" "disk s = D" "wtrace s = T" "dirtyblks s = W"
    using v by (auto simp: bview_def)
  have nl: "n \<notin> lockedblks s" using K n(2) by (auto simp: bheld_def)
  have "\<exists>i s'. bread 1 n s = Ok i s' \<and> bread_post s n i s'"
  proof (cases "n \<in> W")
    case True
    then obtain i where i: "i < NBUF" "b_dirty (bufs s ! i)" "b_blockno (bufs s ! i) = n" using e by (auto simp: in_dirtyblks)
    then have "b_valid (bufs s ! i)" using binvD(3)[OF inv i(1)] by (simp add: buf_ok_def Let_def)
    then show ?thesis using bread_hit[OF inv n(1) nl i(1) _ i(3)] by blast
  next
    case False
    then show ?thesis using bread_spec[OF inv n(1) nl avail_card[OF inv]] c K e by (simp add: bheld_def)
  qed
  then obtain i s' where b: "bread 1 n s = Ok i s'" "bread_post s n i s'" by blast
  then have p: "binv s'" "has_buf s' i n" "b_data (bufs s' ! i) = lblk s n" "lblk s' = lblk s" "disk s' = disk s"
    "wtrace s' = wtrace s" "lockedblks s' = insert n (lockedblks s)" "dirtyblks s' = dirtyblks s" "bframe s s'"
    "\<And>j m. has_buf s j m \<Longrightarrow> has_buf s' j m \<and> bufs s' ! j = bufs s ! j" by (auto simp: bread_post_def)
  have "b_dirty (bufs s' ! i) \<or> b_data (bufs s' ! i) = disk s' n"
    using has_buf_dirty[OF p(1,2)] lblk_clean[OF inv _ nl] p(3,5,8) by auto
  moreover have "has_buf s' j m \<and> (b_dirty (bufs s' ! j) \<or> b_data (bufs s' ! j) = disk s' m)" if "K m = Some j" for m j
    using p(10)[OF bheldD(1)[OF K that]] bheldD(2)[OF K that] p(5) by auto
  moreover have "lockedblks s' = dom (K(n \<mapsto> i))" using K p(7) by (simp add: bheld_def)
  ultimately have "bheld s' (K(n \<mapsto> i))" using p(2) unfolding bheld_def by simp
  then show ?thesis using b(1) p e by (auto simp: bview_def)
qed

lemma brelse_view:
  assumes v: "bview s L D T W K" and n: "K n = Some i"
  shows "\<exists>s'. brelse i s = Ok () s' \<and> bview s' L D T W (K(n := None)) \<and> bframe s s'"
proof -
  have inv: "binv s" and K: "bheld s K" and e: "lblk s = L" "disk s = D" "wtrace s = T" "dirtyblks s = W"
    using v by (auto simp: bview_def)
  note d = drop_spec[OF inv bheldD[OF K n]]
  have "bheld (drop_buf i s) (K(n := None))" unfolding bheld_def
  proof (intro conjI allI impI)
    show "lockedblks (drop_buf i s) = dom (K(n := None))" using d(3) K by (auto simp: bheld_def)
    fix m j
    assume a: "(K(n := None)) m = Some j"
    then have m: "m \<noteq> n" "K m = Some j" by (auto split: if_splits)
    then have "j \<noteq> i" using bview_inj[OF v n, of m] by auto
    then show "has_buf (drop_buf i s) j m"
      "b_dirty (bufs (drop_buf i s) ! j) \<or> b_data (bufs (drop_buf i s) ! j) = disk (drop_buf i s) m"
      using d(5,6) bheldD[OF K m(2)] by (auto simp: drop_buf_sel(2))
  qed
  then show ?thesis using brelse_eq[OF inv bheldD(1)[OF K n]] d e bframe_drop[of s i]
    by (auto simp: bview_def drop_buf_sel)
qed

lemma upd_view:
  assumes v: "bview s L D T W K" and n: "K n = Some i" and d: "length d = BSIZE"
    and D': "D' = D \<or> D' = D(n := d)" and ok: "dirty \<or> D' = D(n := d)"
  shows "bview (upd_buf i d dirty D' w s) (L(n := d)) D' (T @ w) (if dirty then insert n W else W - {n}) K"
proof -
  have inv: "binv s" and K: "bheld s K" and e: "lblk s = L" "disk s = D" "wtrace s = T" "dirtyblks s = W"
    using v by (auto simp: bview_def)
  have hb: "has_buf s i n" using bheldD(1)[OF K n] .
  have "\<And>m. m \<noteq> n \<Longrightarrow> D' m = disk s m" "length (D' n) = BSIZE" using D' e d binvD(5)[OF inv, of n] by auto
  note u = upd_spec[OF inv hb d this, where dirty = dirty and w = w]
  let ?s = "upd_buf i d dirty D' w s"
  have "bheld ?s K" unfolding bheld_def
  proof (intro conjI allI impI)
    show "lockedblks ?s = dom K" using u(4) K by (simp add: bheld_def)
    fix m j
    assume a: "K m = Some j"
    then show "has_buf ?s j m" using u(2) bheldD(1)[OF K a] by simp
    show "b_dirty (bufs ?s ! j) \<or> b_data (bufs ?s ! j) = disk ?s m"
    proof (cases "j = i")
      case True
      then have "m = n" using bview_inj[OF v a] n by simp
      then show ?thesis using True ok bview_data(4)[OF v n] by auto
    next
      case False
      then have "m \<noteq> n" using a n by auto
      then show ?thesis using False u(7) bheldD(2)[OF K a] D' e by auto
    qed
  qed
  then show ?thesis using u e by (simp add: bview_def)
qed

lemma set_bdata_eq: "seq (set_bdata i d) k s = k (upd_buf i d (b_dirty (bufs s ! i)) (disk s) [] s)"
  by (simp add: set_bdata_def upd_buf_def bset_def)

text \<open>A change followed by \<open>bwrite\<close>.\<close>

lemma upd_buf_upd_buf: "i < length (bufs s) \<Longrightarrow> upd_buf i d b D w (upd_buf i d' b' D' w' s) = upd_buf i d b D (w' @ w) s"
  by (simp add: upd_buf_def bset_def)

lemma bwrite_view:
  assumes v: "bview s L D T W K" and n: "K n = Some i" and d: "length d = BSIZE"
  shows "\<exists>s'. bwrite i (upd_buf i d dirty D [] s) = Ok () s' \<and> bview s' (L(n := d)) (D(n := d)) (T @ [(n, d)]) (W - {n}) K \<and> bframe s s'"
proof -
  have inv: "binv s" and K: "bheld s K" and e: "disk s = D" using v by (auto simp: bview_def)
  have hb: "has_buf s i n" using bheldD(1)[OF K n] .
  have il: "i < length (bufs s)" using bview_data(4)[OF v n] .
  have "\<And>m. m \<noteq> n \<Longrightarrow> D m = disk s m" "length (D n) = BSIZE" using e binvD(5)[OF inv, of n] by auto
  note u = upd_spec[OF inv hb d this, where dirty = dirty and w = "[]"]
  let ?s = "upd_buf i d dirty D [] s"
  have "bwrite i ?s = Ok () (upd_buf i d False (D(n := d)) [(n, d)] s)"
    using bwrite_eq[of ?s i n] u hb il e by (simp add: upd_buf_upd_buf)
  then show ?thesis using upd_view[OF v n d, of "D(n := d)" False "[(n, d)]"] bframe_upd by (metis (full_types))
qed

subsection \<open>Sequences of block writes and the log header\<close>

definition apply_writes :: "(uint \<times> bytes) list \<Rightarrow> (uint \<Rightarrow> bytes) \<Rightarrow> uint \<Rightarrow> bytes" where
  "apply_writes ws D = fold (\<lambda>(n, d) D. D(n := d)) ws D"

lemma apply_writes_simps [simp]:
  "apply_writes [] D = D" "apply_writes ((n, d) # ws) D = apply_writes ws (D(n := d))"
  "apply_writes (ws @ vs) D = apply_writes vs (apply_writes ws D)"
  by (simp_all add: apply_writes_def)

lemma apply_writes_other: "m \<notin> fst ` set ws \<Longrightarrow> apply_writes ws D m = D m"
  by (induction ws arbitrary: D) auto

lemma apply_writes_map_hit:
  assumes "i < k" "\<forall>j < k. f i = f j \<longrightarrow> g i = g j"
  shows "apply_writes (map (\<lambda>i. (f i, g i)) [0..<k]) D (f i) = g i"
  using assms
proof (induction k)
  case (Suc k)
  show ?case
  proof (cases "f i = f k")
    case True
    then have "g k = g i" using Suc.prems(2) by (metis lessI)
    then show ?thesis using True by (simp del: upt_Suc add: upt_Suc_append)
  next
    case False
    then have "i < k" using Suc.prems(1) by (metis less_antisym)
    moreover have "\<forall>j < k. f i = f j \<longrightarrow> g i = g j" using Suc.prems(2) by (metis less_SucI)
    ultimately have "apply_writes (map (\<lambda>i. (f i, g i)) [0..<k]) D (f i) = g i" by (rule Suc.IH)
    then show ?thesis using False by simp
  qed
qed simp

lemma apply_writes_map_other:
  "m \<notin> f ` {0..<k} \<Longrightarrow> apply_writes (map (\<lambda>i. (f i, g i)) [0..<k]) D m = D m"
  by (rule apply_writes_other) auto

text \<open>The header block after \<open>write_head\<close>.\<close>

definition enc_head :: "int \<Rightarrow> uint list \<Rightarrow> bytes \<Rightarrow> bytes" where
  "enc_head n bl d = fold (\<lambda>i d. splice d (4 + 4 * i) (le32 (bl ! i))) [0..<nat n] (splice d 0 (le32 (of_int n)))"

lemma word_at_splice:
  assumes "length d = BSIZE" "p + 4 \<le> BSIZE" "q + 4 \<le> BSIZE" "q = p \<or> q + 4 \<le> p \<or> p + 4 \<le> q"
  shows "length (splice d p (le32 w)) = BSIZE" "word_at (splice d p (le32 w)) q = (if q = p then w else word_at d q)"
proof -
  show "length (splice d p (le32 w)) = BSIZE" using assms by simp
  show "word_at (splice d p (le32 w)) q = (if q = p then w else word_at d q)"
    using assms slice_splice_same[of p "le32 w" d] slice_splice_other[of p "le32 w" d q 4]
    by (auto simp: word_at_def)
qed

lemma enc_head_steps:
  fixes w :: uint and bl :: "uint list"
  assumes d: "length d = BSIZE" and k: "k \<le> LOGSIZE"
  shows "length (fold (\<lambda>i d. splice d (4 + 4 * i) (le32 (bl ! i))) [0..<k] (splice d 0 (le32 w))) = BSIZE \<and>
    word_at (fold (\<lambda>i d. splice d (4 + 4 * i) (le32 (bl ! i))) [0..<k] (splice d 0 (le32 w))) 0 = w \<and>
    (\<forall>i < k. word_at (fold (\<lambda>i d. splice d (4 + 4 * i) (le32 (bl ! i))) [0..<k] (splice d 0 (le32 w))) (4 + 4 * i) = bl ! i)"
  using k
proof (induction k)
  case 0
  show ?case using word_at_splice[of d 0 0 w] d by (simp add: BSIZE_def)
next
  case (Suc k)
  let ?d = "fold (\<lambda>i d. splice d (4 + 4 * i) (le32 (bl ! i))) [0..<k] (splice d 0 (le32 w))"
  have IH: "length ?d = BSIZE" "word_at ?d 0 = w" "\<And>i. i < k \<Longrightarrow> word_at ?d (4 + 4 * i) = bl ! i"
    using Suc by auto
  have b: "4 + 4 * i + 4 \<le> BSIZE" if "i \<le> k" for i using that Suc.prems by (simp add: LOGSIZE_def BSIZE_def)
  note w = word_at_splice[OF IH(1) b[OF order_refl], of _ "bl ! k"]
  have "word_at (splice ?d (4 + 4 * k) (le32 (bl ! k))) (4 + 4 * i) = bl ! i" if "i < Suc k" for i
    using w(2)[of "4 + 4 * i"] b[of i] that IH(3)[of i] by (cases "i = k") auto
  moreover have "word_at (splice ?d (4 + 4 * k) (le32 (bl ! k))) 0 = w" using w(2)[of 0] IH(2) by (simp add: BSIZE_def)
  ultimately show ?case using w(1)[of "4 + 4 * k"] b[of k] by simp
qed

lemma enc_head_ok:
  assumes "length d = BSIZE" "0 \<le> n" "n \<le> int LOGSIZE"
  shows "length (enc_head n bl d) = BSIZE" "sint (word_at (enc_head n bl d) 0) = n"
    "\<And>i. i < nat n \<Longrightarrow> word_at (enc_head n bl d) (4 + 4 * i) = bl ! i"
proof -
  have k: "nat n \<le> LOGSIZE" using assms by simp
  note e = enc_head_steps[OF assms(1) k, of bl "of_int n", folded enc_head_def]
  show "length (enc_head n bl d) = BSIZE" using e by blast
  show "word_at (enc_head n bl d) (4 + 4 * i) = bl ! i" if "i < nat n" for i using e that by blast
  have "sint (of_int n :: uint) = n" using assms by (simp add: signed_of_int signed_take_bit_int_eq_self LOGSIZE_def)
  then show "sint (word_at (enc_head n bl d) 0) = n" using e by simp
qed

subsection \<open>The disk writes of a commit\<close>

lemma bframe_log:
  fixes s :: "'b logst_scheme"
  assumes "bframe s s'"
  shows "lg_start s' = lg_start s" "lg_size s' = lg_size s" "lg_outstanding s' = lg_outstanding s"
    "lg_committing s' = lg_committing s" "lg_dev s' = lg_dev s" "lh_n s' = lh_n s" "lh_block s' = lh_block s"
    "disksize s' = disksize s" "logst.more s' = logst.more s"
proof -
  obtain a b c d e f g where "s' = s\<lparr>ptable := a, slocks := b, bufs := c, bnext := d, bprev := e, disk := f, wtrace := g\<rparr>"
    using assms unfolding bframe_def by blast
  then show "lg_start s' = lg_start s" "lg_size s' = lg_size s" "lg_outstanding s' = lg_outstanding s"
    "lg_committing s' = lg_committing s" "lg_dev s' = lg_dev s" "lh_n s' = lh_n s" "lh_block s' = lh_block s"
    "disksize s' = disksize s" "logst.more s' = logst.more s" by simp_all
qed

text \<open>The view depends on the cache part of the state only.\<close>

lemma bview_cong:
  assumes "bufs s = bufs t" "disk s = disk t" "wtrace s = wtrace t" "slocks s = slocks t" "bnext s = bnext t"
    "bprev s = bprev t" "disksize s = disksize t" "thr_ok s = thr_ok t"
  shows "bview s = bview t"
proof -
  have l: "locked_at s = locked_at t" "lblk s = lblk t" "dirtyblks s = dirtyblks t"
    by (intro ext, simp only: assms locked_at_def lblk_def) (intro ext, simp only: assms lblk_def, simp only: assms dirtyblks_def)
  have m: "lockedblks s = lockedblks t" "buf_ok s = buf_ok t" "has_buf s = has_buf t"
    by (simp only: assms l lockedblks_def) (intro ext, simp only: assms l buf_ok_def has_buf_def)+
  have "binv s = binv t" by (simp only: assms m binv_def)
  moreover have "bheld s = bheld t" by (intro ext) (simp only: assms m bheld_def)
  ultimately show ?thesis by (intro ext) (simp only: assms l bview_def)
qed

lemma bview_log [simp]:
  "bview (s\<lparr>lh_n := x\<rparr>) = bview s" "bview (s\<lparr>lh_block := y\<rparr>) = bview s"
  "bview (s\<lparr>lg_outstanding := x\<rparr>) = bview s" "bview (s\<lparr>lg_committing := c\<rparr>) = bview s"
  "bview (s\<lparr>lg_start := z, lg_size := x, lg_dev := z'\<rparr>) = bview s"
  by (rule bview_cong; simp add: thr_ok_def)+

lemma bview_length: "bview s L D T W K \<Longrightarrow> length (L n) = BSIZE \<and> length (D n) = BSIZE"
  using length_lblk[of s n] by (auto simp: bview_def dest: binvD)

lemma bview_finite: "bview s L D T W K \<Longrightarrow> finite W"
  by (auto simp: bview_def dirtyblks_def)

lemma copy_block:
  assumes v: "bview s L D T W K" and K: "K a = Some i" "K b = Some j" "a \<noteq> b" "dom K = {a, b}"
  shows "\<exists>s'. bnd (bdata i) (\<lambda>d. seq (set_bdata j d) (seq (bwrite j) (seq (brelse i) (brelse j)))) s = Ok () s' \<and>
    bview s' (L(b := L a)) (D(b := L a)) (T @ [(b, L a)]) (W - {b}) Map.empty \<and> bframe s s'"
proof -
  let ?s = "upd_buf j (L a) (b_dirty (bufs s ! j)) (disk s) [] s"
  have D: "disk s = D" using v by (simp add: bview_def)
  from bwrite_view[OF v K(2), of "L a" "b_dirty (bufs s ! j)"] bview_length[OF v] obtain t where
    t: "bwrite j ?s = Ok () t" "bview t (L(b := L a)) (D(b := L a)) (T @ [(b, L a)]) (W - {b}) K" "bframe s t" unfolding D by blast
  from brelse_view[OF t(2) K(1)] obtain u where
    u: "brelse i t = Ok () u" "bview u (L(b := L a)) (D(b := L a)) (T @ [(b, L a)]) (W - {b}) (K(a := None))" "bframe t u" by blast
  have "(K(a := None)) b = Some j" using K by simp
  from brelse_view[OF u(2) this] obtain w where
    w: "brelse j u = Ok () w" "bview w (L(b := L a)) (D(b := L a)) (T @ [(b, L a)]) (W - {b}) (K(a := None, b := None))" "bframe u w" by blast
  have "K(a := None, b := None) = Map.empty" using K(4) by (intro ext) (auto simp: domIff)
  moreover have "bframe s w" using t(3) u(3) w(3) bframe_trans by blast
  ultimately show ?thesis using t(1) u(1) w(1,2) bview_data(1)[OF v K(1)]
    by (simp add: bdata_def set_bdata_eq seq_Ok)
qed

lemma two_breads:
  assumes v: "bview s L D T W Map.empty" and n: "a < disksize s" "b < disksize s" "a \<noteq> b"
    and c: "card W < NBUF" "b \<in> W \<or> W = {}"
  shows "\<exists>i j t. bread 1 a s = Ok i t \<and> bframe s t \<and> (\<exists>u. bread 1 b t = Ok j u \<and> bframe s u \<and>
    bview u L D T W [a \<mapsto> i, b \<mapsto> j])"
proof -
  from bread_view[OF v n(1)] c obtain i t where
    t: "bread 1 a s = Ok i t" "bview t L D T W [a \<mapsto> i]" "bframe s t" by auto
  have "b < disksize t" "[a \<mapsto> i] b = None" using n bframe_sel(7)[OF t(3)] by auto
  moreover have "card (dom [a \<mapsto> i] \<union> W) < NBUF \<or> b \<in> W" using c by (auto simp: NBUF_def)
  ultimately obtain j u where
    u: "bread 1 b t = Ok j u" "bview u L D T W ([a \<mapsto> i](b \<mapsto> j))" "bframe t u"
    using bread_view[OF t(2)] by blast
  then show ?thesis using t bframe_trans[OF t(3) u(3)] by blast
qed

lemma log_block_step:
  assumes v: "bview s L D T W Map.empty" and k: "k < LOGSIZE" "lg_dev s = 1" and c: "card W < NBUF"
    and n: "lg_start s + of_nat k + 1 < disksize s" "lh_block s ! k < disksize s" "lh_block s ! k \<in> W"
      "lg_start s + of_nat k + 1 \<noteq> lh_block s ! k"
  defines "a \<equiv> lh_block s ! k" and "b \<equiv> lg_start s + of_nat k + 1"
  shows "\<exists>s'. log_block k s = Ok () s' \<and>
    bview s' (L(b := L a)) (D(b := L a)) (T @ [(b, L a)]) (W - {b}) Map.empty \<and> bframe s s'"
proof -
  from two_breads[OF v n(1,2,4) c] n(3) obtain i j t u where
    t: "bread 1 b s = Ok i t" "bframe s t" "bread 1 a t = Ok j u" "bframe s u" "bview u L D T W [b \<mapsto> i, a \<mapsto> j]"
    unfolding a_def b_def by blast
  have ab: "a \<noteq> b" using n(4) by (simp add: a_def b_def)
  then have K: "[b \<mapsto> i, a \<mapsto> j] a = Some j" "[b \<mapsto> i, a \<mapsto> j] b = Some i" "dom [b \<mapsto> i, a \<mapsto> j] = {a, b}" by auto
  from copy_block[OF t(5) K(1,2) ab K(3)] obtain w where
    w: "bnd (bdata j) (\<lambda>d. seq (set_bdata i d) (seq (bwrite i) (seq (brelse j) (brelse i)))) u = Ok () w"
      "bview w (L(b := L a)) (D(b := L a)) (T @ [(b, L a)]) (W - {b}) Map.empty" "bframe u w" by blast
  have "log_block k s = Ok () w"
    using k(1) t(1,3) w(1) bframe_log(7)[OF t(2)] k(2)
    by (simp add: log_block_def bnd_Ok a_def b_def)
  then show ?thesis using w(2) bframe_trans[OF t(4) w(3)] by blast
qed

lemma install_block_step:
  assumes v: "bview s L D T W Map.empty" and k: "k < LOGSIZE" "lg_dev s = 1" and c: "card W < NBUF"
    and n: "lg_start s + of_nat k + 1 < disksize s" "lh_block s ! k < disksize s" "lh_block s ! k \<in> W \<or> W = {}"
      "lg_start s + of_nat k + 1 \<noteq> lh_block s ! k"
  defines "b \<equiv> lh_block s ! k" and "a \<equiv> lg_start s + of_nat k + 1"
  shows "\<exists>s'. install_block k s = Ok () s' \<and>
    bview s' (L(b := L a)) (D(b := L a)) (T @ [(b, L a)]) (W - {b}) Map.empty \<and> bframe s s'"
proof -
  from two_breads[OF v n(1,2,4) c n(3)] obtain i j t u where
    t: "bread 1 a s = Ok i t" "bframe s t" "bread 1 b t = Ok j u" "bframe s u" "bview u L D T W [a \<mapsto> i, b \<mapsto> j]"
    unfolding a_def b_def by blast
  have ab: "a \<noteq> b" using n(4) by (simp add: a_def b_def)
  then have K: "[a \<mapsto> i, b \<mapsto> j] a = Some i" "[a \<mapsto> i, b \<mapsto> j] b = Some j" "dom [a \<mapsto> i, b \<mapsto> j] = {a, b}" by auto
  from copy_block[OF t(5) K(1,2) ab K(3)] obtain w where
    w: "bnd (bdata i) (\<lambda>d. seq (set_bdata j d) (seq (bwrite j) (seq (brelse i) (brelse j)))) u = Ok () w"
      "bview w (L(b := L a)) (D(b := L a)) (T @ [(b, L a)]) (W - {b}) Map.empty" "bframe u w" by blast
  have "install_block k s = Ok () w"
    using k(1) t(1,3) w(1) bframe_log(7)[OF t(2)] k(2)
    by (simp add: install_block_def bnd_Ok a_def b_def)
  then show ?thesis using w(2) bframe_trans[OF t(4) w(3)] by blast
qed

text \<open>
  The place of the log on disk, and a log of \<open>n\<close> blocks with distinct home locations outside it.
\<close>

definition logblk :: "uint \<Rightarrow> nat \<Rightarrow> uint" where
  "logblk start i = start + of_nat i + 1"

definition log_area :: "uint \<Rightarrow> int \<Rightarrow> uint set" where
  "log_area start sz = {m. unat start \<le> unat m \<and> unat m < unat start + nat sz}"

definition log_fits :: "uint \<Rightarrow> int \<Rightarrow> uint \<Rightarrow> uint list \<Rightarrow> bool" where
  "log_fits start sz dsize bl \<longleftrightarrow> unat start + nat sz \<le> unat dsize \<and> int (length bl) < sz \<and> length bl \<le> LOGSIZE \<and>
     distinct bl \<and> (\<forall>b \<in> set bl. b < dsize \<and> b \<notin> log_area start sz)"

lemma unat_logblk:
  assumes "log_fits start sz dsize bl" "i < length bl"
  shows "unat (logblk start i) = unat start + i + 1"
proof -
  have "unat start + i + 1 < 2 ^ 32"
    using assms unsigned_less[of dsize, where ?'a = nat] by (auto simp: log_fits_def)
  then show ?thesis by (simp add: logblk_def unat_word_ariths unat_of_nat)
qed

lemma log_fitsD:
  assumes f: "log_fits start sz dsize bl"
  shows "start \<in> log_area start sz" "start < dsize"
    "\<And>i. i < length bl \<Longrightarrow> logblk start i < dsize \<and> logblk start i \<in> log_area start sz \<and> logblk start i \<noteq> start"
    "\<And>i j. i < length bl \<Longrightarrow> j < length bl \<Longrightarrow> logblk start i = logblk start j \<Longrightarrow> i = j"
    "\<And>i. i < length bl \<Longrightarrow> bl ! i < dsize \<and> bl ! i \<notin> log_area start sz"
    "\<And>i j. i < length bl \<Longrightarrow> j < length bl \<Longrightarrow> logblk start i \<noteq> bl ! j"
proof -
  have s: "0 < sz" "unat start + nat sz \<le> unat dsize" "int (length bl) < sz" using f by (auto simp: log_fits_def)
  show "start \<in> log_area start sz" "start < dsize" using s by (simp_all add: log_area_def word_less_nat_alt)
  show a: "logblk start i < dsize \<and> logblk start i \<in> log_area start sz \<and> logblk start i \<noteq> start" if "i < length bl" for i
  proof -
    have "unat (logblk start i) = unat start + i + 1" "i + 1 < nat sz" using unat_logblk[OF f that] s that by simp_all
    moreover from this(1) have "unat (logblk start i) \<noteq> unat start" by linarith
    then have "logblk start i \<noteq> start" by metis
    ultimately show ?thesis using s(2) by (simp add: log_area_def word_less_nat_alt)
  qed
  show "i = j" if "i < length bl" "j < length bl" "logblk start i = logblk start j" for i j
  proof -
    have "unat start + i + 1 = unat start + j + 1"
      using unat_logblk[OF f that(1)] unat_logblk[OF f that(2)] unfolding that(3) by (rule trans[OF sym])
    then show ?thesis by simp
  qed
  show b: "bl ! i < dsize \<and> bl ! i \<notin> log_area start sz" if "i < length bl" for i using f that by (auto simp: log_fits_def)
  show "logblk start i \<noteq> bl ! j" if "i < length bl" "j < length bl" for i j using a[OF that(1)] b[OF that(2)] by metis
qed

definition log_state :: "'b logst_scheme \<Rightarrow> uint list \<Rightarrow> bool" where
  "log_state s bl \<longleftrightarrow> lg_dev s = 1 \<and> length (lh_block s) = LOGSIZE \<and> lh_n s = int (length bl) \<and> take (length bl) (lh_block s) = bl \<and>
     log_fits (lg_start s) (lg_size s) (disksize s) bl"

lemma log_state_frame: "bframe s s' \<Longrightarrow> log_state s' bl = log_state s bl"
  by (simp add: log_state_def bframe_log)

lemma log_state_nth: "log_state s bl \<Longrightarrow> i < length bl \<Longrightarrow> lh_block s ! i = bl ! i"
  unfolding log_state_def by (metis nth_take)

definition log_writes :: "uint \<Rightarrow> uint list \<Rightarrow> (uint \<Rightarrow> bytes) \<Rightarrow> (uint \<times> bytes) list" where
  "log_writes start bl L = map (\<lambda>i. (logblk start i, L (bl ! i))) [0..<length bl]"

definition home_writes :: "uint \<Rightarrow> uint list \<Rightarrow> (uint \<Rightarrow> bytes) \<Rightarrow> (uint \<times> bytes) list" where
  "home_writes start bl L = map (\<lambda>i. (bl ! i, L (logblk start i))) [0..<length bl]"

lemma forM_snoc: "forM [0..<k] f s = Ok () t \<Longrightarrow> f k t = Ok () u \<Longrightarrow> forM [0..<Suc k] f s = Ok () u"
  by (simp add: forM_append seq_def bnd_def)

lemma write_log_loop:
  assumes v: "bview s L D T W Map.empty" and l: "log_state s bl" and W: "set bl \<subseteq> W" "card W < NBUF" "W \<inter> log_area (lg_start s) (lg_size s) = {}"
    and k: "k \<le> length bl"
  defines "ws \<equiv> \<lambda>k. map (\<lambda>i. (logblk (lg_start s) i, L (bl ! i))) [0..<k]"
  shows "\<exists>s'. forM [0..<k] log_block s = Ok () s' \<and> bframe s s' \<and>
    bview s' (apply_writes (ws k) L) (apply_writes (ws k) D) (T @ ws k) W Map.empty"
  using k
proof (induction k)
  case 0
  then show ?case using v by (simp add: ws_def)
next
  case (Suc k)
  have f: "log_fits (lg_start s) (lg_size s) (disksize s) bl" "lg_dev s = 1" using l by (simp_all add: log_state_def)
  have k: "k < length bl" "k < LOGSIZE" using Suc.prems f(1) by (simp_all add: log_fits_def)
  from Suc.IH[OF Suc_leD[OF Suc.prems]] obtain t where t: "forM [0..<k] log_block s = Ok () t" "bframe s t"
    "bview t (apply_writes (ws k) L) (apply_writes (ws k) D) (T @ ws k) W Map.empty" by blast
  note e = bframe_log[OF t(2)]
  have bk: "lh_block s ! k = bl ! k" using log_state_nth[OF l k(1)] .
  let ?b = "logblk (lg_start s) k"
  note F = log_fitsD[OF f(1)]
  have "bl ! k \<notin> logblk (lg_start s) ` {0..<k}" using F(6)[OF order.strict_trans[OF _ k(1)] k(1)] by force
  then have r: "apply_writes (ws k) L (bl ! k) = L (bl ! k)" unfolding ws_def by (rule apply_writes_map_other)
  have "bl ! k \<in> W" using k W(1) by auto
  have "?b \<notin> W" using F(3)[OF k(1)] W(3) by blast
  from log_block_step[OF t(3) k(2), unfolded e bk, folded logblk_def, unfolded r, OF f(2) W(2)] obtain u where
    u: "log_block k t = Ok () u" "bframe t u"
      "bview u ((apply_writes (ws k) L)(?b := L (bl ! k))) ((apply_writes (ws k) D)(?b := L (bl ! k))) ((T @ ws k) @ [(?b, L (bl ! k))]) (W - {?b}) Map.empty"
    using F(3,5)[OF k(1)] F(6)[OF k(1) k(1)] \<open>bl ! k \<in> W\<close> by blast
  have "forM [0..<Suc k] log_block s = Ok () u" by (rule forM_snoc[OF t(1) u(1)])
  moreover have "ws (Suc k) = ws k @ [(?b, L (bl ! k))]" by (simp add: ws_def)
  moreover have "W - {?b} = W" using \<open>?b \<notin> W\<close> by simp
  ultimately show ?case using u(3) bframe_trans[OF t(2) u(2)] by (simp only: apply_writes_simps append_assoc) blast
qed

lemma install_loop:
  assumes v: "bview s L D T W Map.empty" and l: "log_state s bl" and W: "set bl \<subseteq> W \<or> W = {}" "card W < NBUF"
    and k: "k \<le> length bl"
  defines "ws \<equiv> \<lambda>k. map (\<lambda>i. (bl ! i, L (logblk (lg_start s) i))) [0..<k]"
  shows "\<exists>s'. forM [0..<k] install_block s = Ok () s' \<and> bframe s s' \<and>
    bview s' (apply_writes (ws k) L) (apply_writes (ws k) D) (T @ ws k) (W - set (take k bl)) Map.empty"
  using k
proof (induction k)
  case 0
  then show ?case using v by (simp add: ws_def)
next
  case (Suc k)
  have f: "log_fits (lg_start s) (lg_size s) (disksize s) bl" "lg_dev s = 1" using l by (simp_all add: log_state_def)
  have k: "k < length bl" "k < LOGSIZE" using Suc.prems f(1) by (simp_all add: log_fits_def)
  let ?W = "W - set (take k bl)"
  from Suc.IH[OF Suc_leD[OF Suc.prems]] obtain t where t: "forM [0..<k] install_block s = Ok () t" "bframe s t"
    "bview t (apply_writes (ws k) L) (apply_writes (ws k) D) (T @ ws k) ?W Map.empty" by blast
  note e = bframe_log[OF t(2)]
  have bk: "lh_block s ! k = bl ! k" using log_state_nth[OF l k(1)] .
  let ?a = "logblk (lg_start s) k"
  note F = log_fitsD[OF f(1)]
  have "?a \<notin> (!) bl ` {0..<k}" using F(6)[OF k(1) order.strict_trans[OF _ k(1)]] by force
  then have r: "apply_writes (ws k) L ?a = L ?a" unfolding ws_def by (rule apply_writes_map_other)
  have "distinct bl" using f(1) by (simp add: log_fits_def)
  then have "bl ! k \<notin> set (take k bl)" using k(1) by (auto simp: in_set_conv_nth nth_eq_iff_index_eq)
  then have "bl ! k \<in> ?W \<or> ?W = {}" using W(1) nth_mem[OF k(1)] by blast
  moreover have "card ?W < NBUF" using W(2) bview_finite[OF v] by (meson Diff_subset card_mono le_less_trans)
  ultimately obtain u where
    u: "install_block k t = Ok () u" "bframe t u"
      "bview u ((apply_writes (ws k) L)(bl ! k := L ?a)) ((apply_writes (ws k) D)(bl ! k := L ?a)) ((T @ ws k) @ [(bl ! k, L ?a)]) (?W - {bl ! k}) Map.empty"
    using install_block_step[OF t(3) k(2), unfolded e bk, folded logblk_def, unfolded r, OF f(2)] F(3,5)[OF k(1)] F(6)[OF k(1) k(1)] by blast
  have "forM [0..<Suc k] install_block s = Ok () u" by (rule forM_snoc[OF t(1) u(1)])
  moreover have "ws (Suc k) = ws k @ [(bl ! k, L ?a)]" by (simp add: ws_def)
  moreover have "?W - {bl ! k} = W - set (take (Suc k) bl)" using k(1) by (auto simp: take_Suc_conv_app_nth)
  ultimately show ?case using u(3) bframe_trans[OF t(2) u(2)] by (simp only: apply_writes_simps append_assoc) blast
qed

lemma write_log_view:
  assumes "bview s L D T W Map.empty" "log_state s bl" "set bl \<subseteq> W" "card W < NBUF" "W \<inter> log_area (lg_start s) (lg_size s) = {}"
  defines "ws \<equiv> log_writes (lg_start s) bl L"
  shows "\<exists>s'. write_log s = Ok () s' \<and> bframe s s' \<and> bview s' (apply_writes ws L) (apply_writes ws D) (T @ ws) W Map.empty"
  using write_log_loop[OF assms(1-5) order_refl] assms(2)
  by (simp add: write_log_def ws_def log_writes_def log_state_def)

lemma install_view:
  assumes "bview s L D T W Map.empty" "log_state s bl" "set bl \<subseteq> W \<or> W = {}" "card W < NBUF"
  defines "ws \<equiv> home_writes (lg_start s) bl L"
  shows "\<exists>s'. install_trans s = Ok () s' \<and> bframe s s' \<and> bview s' (apply_writes ws L) (apply_writes ws D) (T @ ws) (W - set bl) Map.empty"
  using install_loop[OF assms(1-4) order_refl] assms(2)
  by (simp add: install_trans_def ws_def home_writes_def log_state_def)

lemma bnd_eta [simp]: "bnd (\<lambda>a. Ok (f a) a) g s = g (f s) s"
  by (simp add: bnd_def)

lemma map_del1: "[a \<mapsto> i](a := None) = Map.empty"
  by auto

lemma set_bdata_upd:
  assumes "i < length (bufs t)"
  shows "set_bdata i d' (upd_buf i d b (disk t) [] t) = Ok () (upd_buf i d' b (disk t) [] t)"
proof -
  have "seq (set_bdata i d') (ret ()) (upd_buf i d b (disk t) [] t) = Ok () (upd_buf i d' b (disk t) [] t)"
    using assms by (simp only: set_bdata_eq upd_buf_upd_buf upd_buf_sel) (simp add: upd_buf_upd_buf)
  then show ?thesis by (auto simp: seq_eq_Ok)
qed

lemma bdata_upd: "i < length (bufs t) \<Longrightarrow> bdata i (upd_buf i d b D w t) = Ok d (upd_buf i d b D w t)"
  by (simp add: bdata_def)

lemma upd_buf_log [simp]: "lh_n (upd_buf i d b D w s) = lh_n s" "lh_block (upd_buf i d b D w s) = lh_block s"
  by (rule bframe_log(6,7)[OF bframe_upd])+

lemma write_head_loop:
  assumes "i < length (bufs t)" "k \<le> LOGSIZE"
  shows "forM [0..<k] (\<lambda>i'. seq (in_range (i' < LOGSIZE)) (bnd (bdata i) (\<lambda>d.
        bnd (gets (\<lambda>s. lh_block s ! i')) (\<lambda>b. set_bdata i (splice d (4 + 4 * i') (le32 b)))))) (upd_buf i d b (disk t) [] t)
    = Ok () (upd_buf i (fold (\<lambda>i d. splice d (4 + 4 * i) (le32 (lh_block t ! i))) [0..<k] d) b (disk t) [] t)"
  using assms(2)
proof (induction k)
  case 0
  then show ?case by simp
next
  case (Suc k)
  let ?e = "fold (\<lambda>i d. splice d (4 + 4 * i) (le32 (lh_block t ! i))) [0..<k] d"
  show ?case
  proof (rule forM_snoc)
    show "forM [0..<k] (\<lambda>i'. seq (in_range (i' < LOGSIZE)) (bnd (bdata i) (\<lambda>d.
        bnd (gets (\<lambda>s. lh_block s ! i')) (\<lambda>b. set_bdata i (splice d (4 + 4 * i') (le32 b)))))) (upd_buf i d b (disk t) [] t)
      = Ok () (upd_buf i ?e b (disk t) [] t)" by (rule Suc.IH[OF Suc_leD[OF Suc.prems]])
  qed (use Suc.prems in \<open>simp add: bnd_Ok[of "bdata i", OF bdata_upd[OF assms(1)]] set_bdata_upd[OF assms(1)]\<close>)
qed

lemma write_head_view:
  assumes v: "bview s L D T W Map.empty" and l: "log_state s bl" and W: "card W < NBUF" "lg_start s \<notin> W"
  defines "h \<equiv> enc_head (lh_n s) (lh_block s) (L (lg_start s))"
  shows "\<exists>s'. write_head s = Ok () s' \<and> bframe s s' \<and>
    bview s' (L(lg_start s := h)) (D(lg_start s := h)) (T @ [(lg_start s, h)]) W Map.empty"
proof -
  have f: "log_fits (lg_start s) (lg_size s) (disksize s) bl" "lg_dev s = 1" "lh_n s = int (length bl)" using l by (simp_all add: log_state_def)
  have n: "0 \<le> lh_n s" "lh_n s \<le> int LOGSIZE" using f by (simp_all add: log_fits_def)
  from bread_view[OF v log_fitsD(2)[OF f(1)]] W obtain i t where
    t: "bread 1 (lg_start s) s = Ok i t" "bview t L D T W [lg_start s \<mapsto> i]" "bframe s t" by auto
  note e = bframe_log[OF t(3)]
  have K: "[lg_start s \<mapsto> i] (lg_start s) = Some i" by simp
  have i: "i < length (bufs t)" and b: "b_data (bufs t ! i) = L (lg_start s)" and D: "disk t = D"
    using bview_data[OF t(2) K] t(2) by (simp_all add: bview_def)
  have h: "length h = BSIZE" using enc_head_ok(1)[of "L (lg_start s)" "lh_n s"] bview_length[OF v] n by (simp add: h_def)
  let ?u = "\<lambda>d. upd_buf i d (b_dirty (bufs t ! i)) (disk t) [] t"
  have 1: "bnd (bdata i) (\<lambda>d. set_bdata i (splice d 0 (le32 (of_int (lh_n s))))) t =
      Ok () (?u (splice (L (lg_start s)) 0 (le32 (of_int (lh_n s)))))"
    using b by (simp add: bdata_def set_bdata_def upd_buf_def bset_def)
  have 2: "forM [0..<nat (lh_n s)] (\<lambda>i'. seq (in_range (i' < LOGSIZE)) (bnd (bdata i) (\<lambda>d.
        bnd (gets (\<lambda>s. lh_block s ! i')) (\<lambda>b. set_bdata i (splice d (4 + 4 * i') (le32 b)))))) (?u (splice (L (lg_start s)) 0 (le32 (of_int (lh_n s)))))
      = Ok () (?u h)"
    using write_head_loop[OF i, of "nat (lh_n s)"] n e by (simp add: h_def enc_head_def)
  from bwrite_view[OF t(2) K h] obtain w where
    w: "bwrite i (?u h) = Ok () w" "bview w (L(lg_start s := h)) (D(lg_start s := h)) (T @ [(lg_start s, h)]) (W - {lg_start s}) [lg_start s \<mapsto> i]" "bframe t w"
    unfolding D by blast
  from brelse_view[OF w(2) K] obtain x where
    x: "brelse i w = Ok () x" "bview x (L(lg_start s := h)) (D(lg_start s := h)) (T @ [(lg_start s, h)]) W Map.empty" "bframe w x"
    using W(2) unfolding map_del1 by auto
  have "write_head s = Ok () x"
    unfolding write_head_def
    by (simp only: bnd_gets f(2) bnd_Ok[of "bread 1 (lg_start s)" s, OF t(1)] e seq_Ok 1 2 w(1) x(1))
  then show ?thesis using x(2) bframe_trans[OF bframe_trans[OF t(3) w(3)] x(3)] by blast
qed

definition head_blocks :: "bytes \<Rightarrow> uint list" where
  "head_blocks d = map (\<lambda>i. word_at d (4 + 4 * i)) [0..<nat (sint (word_at d 0))]"

lemma read_head_loop:
  assumes "k \<le> LOGSIZE" "length (lh_block s) = LOGSIZE"
  shows "forM [0..<k] (\<lambda>i. seq (in_range (i < LOGSIZE)) (modify (\<lambda>s. s\<lparr>lh_block := (lh_block s)[i := word_at d (4 + 4 * i)]\<rparr>))) s =
    Ok () (s\<lparr>lh_block := map (\<lambda>i. word_at d (4 + 4 * i)) [0..<k] @ drop k (lh_block s)\<rparr>)"
  using assms(1)
proof (induction k)
  case 0
  then show ?case by simp
next
  case (Suc k)
  show ?case
  proof (rule forM_snoc[OF Suc.IH])
    have "drop k (lh_block s) = lh_block s ! k # drop (Suc k) (lh_block s)" using Suc.prems assms(2) by (simp add: Cons_nth_drop_Suc)
    then have "(map (\<lambda>i. word_at d (4 + 4 * i)) [0..<k] @ drop k (lh_block s))[k := word_at d (4 + 4 * k)] =
        map (\<lambda>i. word_at d (4 + 4 * i)) [0..<Suc k] @ drop (Suc k) (lh_block s)" by (simp add: list_update_append)
    then show "seq (in_range (k < LOGSIZE)) (modify (\<lambda>s. s\<lparr>lh_block := (lh_block s)[k := word_at d (4 + 4 * k)]\<rparr>))
       (s\<lparr>lh_block := map (\<lambda>i. word_at d (4 + 4 * i)) [0..<k] @ drop k (lh_block s)\<rparr>) =
      Ok () (s\<lparr>lh_block := map (\<lambda>i. word_at d (4 + 4 * i)) [0..<Suc k] @ drop (Suc k) (lh_block s)\<rparr>)"
      using Suc.prems by (simp del: upt_Suc)
  qed (use Suc.prems in simp)
qed

lemma read_head_view:
  assumes v: "bview s L D T W Map.empty" and dev: "lg_dev s = 1" "length (lh_block s) = LOGSIZE" and W: "card W < NBUF"
    and n: "lg_start s < disksize s" "0 \<le> sint (word_at (L (lg_start s)) 0)" "length (head_blocks (L (lg_start s))) \<le> LOGSIZE"
  shows "\<exists>s'. read_head s = Ok () s' \<and> bview s' L D T W Map.empty \<and> lg_dev s' = 1 \<and> length (lh_block s') = LOGSIZE \<and>
    lg_start s' = lg_start s \<and> lg_size s' = lg_size s \<and> disksize s' = disksize s \<and> lg_outstanding s' = lg_outstanding s \<and>
    lg_committing s' = lg_committing s \<and>
    lh_n s' = int (length (head_blocks (L (lg_start s)))) \<and>
    take (length (head_blocks (L (lg_start s)))) (lh_block s') = head_blocks (L (lg_start s))"
proof -
  let ?d = "L (lg_start s)"
  let ?n = "nat (sint (word_at ?d 0))"
  have hb: "length (head_blocks ?d) = ?n" by (simp add: head_blocks_def)
  from bread_view[OF v n(1)] W obtain i t where
    t: "bread 1 (lg_start s) s = Ok i t" "bview t L D T W [lg_start s \<mapsto> i]" "bframe s t" by auto
  note e = bframe_log[OF t(3)]
  have K: "[lg_start s \<mapsto> i] (lg_start s) = Some i" by simp
  let ?t = "t\<lparr>lh_n := sint (word_at ?d 0), lh_block := head_blocks ?d @ drop ?n (lh_block t)\<rparr>"
  have vt: "bview ?t L D T W [lg_start s \<mapsto> i]" using t(2) by simp
  from brelse_view[OF vt K] obtain u where
    u: "brelse i ?t = Ok () u" "bview u L D T W Map.empty" "bframe ?t u" unfolding map_del1 by blast
  have loop: "forM [0..<?n] (\<lambda>i. seq (in_range (i < LOGSIZE)) (modify (\<lambda>s. s\<lparr>lh_block := (lh_block s)[i := word_at ?d (4 + 4 * i)]\<rparr>)))
      (t\<lparr>lh_n := sint (word_at ?d 0)\<rparr>) = Ok () ?t"
    using read_head_loop[of ?n "t\<lparr>lh_n := sint (word_at ?d 0)\<rparr>" ?d] n(3) hb e dev(2) by (simp add: head_blocks_def)
  have "read_head s = Ok () u"
    unfolding read_head_def
    by (simp only: bnd_gets dev(1) bnd_Ok[of "bread 1 (lg_start s)" s, OF t(1)] bdata_def bview_data(1)[OF t(2) K] seq_simps seq_Ok loop u(1))
  moreover note bframe_log[OF u(3)]
  ultimately show ?thesis using u(2) e dev hb n by simp
qed

subsection \<open>Commit and recovery\<close>

text \<open>What recovery makes of the disk \<open>D\<close>: the committed blocks at their home locations, the header cleared.\<close>

definition clear_head :: "bytes \<Rightarrow> bytes" where
  "clear_head d = splice d 0 (le32 0)"

definition recover_writes :: "uint \<Rightarrow> (uint \<Rightarrow> bytes) \<Rightarrow> (uint \<times> bytes) list" where
  "recover_writes start D = home_writes start (head_blocks (D start)) D @ [(start, clear_head (D start))]"

definition recoverable :: "uint \<Rightarrow> int \<Rightarrow> uint \<Rightarrow> (uint \<Rightarrow> bytes) \<Rightarrow> bool" where
  "recoverable start sz dsize D \<longleftrightarrow> 0 \<le> sint (word_at (D start) 0) \<and> log_fits start sz dsize (head_blocks (D start))"

lemma enc_head_0: "enc_head 0 bl d = clear_head d"
  by (simp add: enc_head_def clear_head_def)

lemma log_fits_Nil: "log_fits start sz dsize bl \<Longrightarrow> log_fits start sz dsize []"
  by (auto simp: log_fits_def)

lemma home_writes_start:
  assumes "log_fits start sz dsize bl" shows "apply_writes (home_writes start bl L) D start = D start"
  using log_fitsD(1,5)[OF assms] unfolding home_writes_def by (intro apply_writes_map_other) force

lemma recover_view:
  assumes v: "bview s D D T {} Map.empty" and dev: "lg_dev s = 1" "length (lh_block s) = LOGSIZE"
    and r: "recoverable (lg_start s) (lg_size s) (disksize s) D"
  defines "ws \<equiv> recover_writes (lg_start s) D"
  shows "\<exists>s'. recover_from_log s = Ok () s' \<and> bview s' (apply_writes ws D) (apply_writes ws D) (T @ ws) {} Map.empty \<and>
    log_state s' [] \<and> lg_start s' = lg_start s \<and> lg_size s' = lg_size s \<and> disksize s' = disksize s \<and>
    lg_outstanding s' = lg_outstanding s \<and> lg_committing s' = lg_committing s"
proof -
  let ?st = "lg_start s" let ?bl = "head_blocks (D ?st)"
  have f: "log_fits ?st (lg_size s) (disksize s) ?bl" and n: "0 \<le> sint (word_at (D ?st) 0)" "length ?bl \<le> LOGSIZE"
    using r by (simp_all add: recoverable_def log_fits_def)
  have c: "card ({} :: uint set) < NBUF" by (simp add: NBUF_def)
  from read_head_view[OF v dev c log_fitsD(2)[OF f] n] obtain t where
    t: "read_head s = Ok () t" "bview t D D T {} Map.empty" "lg_dev t = 1" "length (lh_block t) = LOGSIZE"
      "lg_start t = ?st" "lg_size t = lg_size s" "disksize t = disksize s" "lg_outstanding t = lg_outstanding s"
      "lg_committing t = lg_committing s" "lh_n t = int (length ?bl)" "take (length ?bl) (lh_block t) = ?bl" by blast
  have lt: "log_state t ?bl" using t f by (simp add: log_state_def)
  let ?hw = "home_writes ?st ?bl D"
  from install_view[OF t(2) lt _ c] t(5) obtain u where
    u: "install_trans t = Ok () u" "bframe t u" "bview u (apply_writes ?hw D) (apply_writes ?hw D) (T @ ?hw) {} Map.empty" by auto
  note e = bframe_log[OF u(2)]
  let ?u = "u\<lparr>lh_n := 0\<rparr>"
  have lu: "log_state ?u []" using lt e log_fits_Nil[OF f] t by (simp add: log_state_def)
  have vu: "bview ?u (apply_writes ?hw D) (apply_writes ?hw D) (T @ ?hw) {} Map.empty" using u(3) by simp
  from write_head_view[OF vu lu c] obtain w where
    w: "write_head ?u = Ok () w" "bframe ?u w" "bview w (apply_writes ws D) (apply_writes ws D) (T @ ws) {} Map.empty"
    using e t(5) home_writes_start[OF f, of D D] by (auto simp: ws_def recover_writes_def enc_head_0)
  have "recover_from_log s = Ok () w" by (simp add: recover_from_log_def seq_Ok t(1) u(1) w(1))
  moreover have "log_state w []" using log_state_frame[OF w(2)] lu by simp
  ultimately show ?thesis using w(3) bframe_log[OF w(2)] e t by auto
qed

text \<open>The writes of a commit, in the order in which they reach the disk.\<close>

definition commit_writes :: "uint \<Rightarrow> uint list \<Rightarrow> uint list \<Rightarrow> (uint \<Rightarrow> bytes) \<Rightarrow> (uint \<times> bytes) list" where
  "commit_writes start bl lhb L = (let h = enc_head (int (length bl)) lhb (L start) in
     log_writes start bl L @ (start, h) # map (\<lambda>b. (b, L b)) bl @ [(start, clear_head h)])"

lemma log_writes_other:
  assumes "log_fits start sz dsize bl" "m \<notin> log_area start sz \<or> m = start"
  shows "apply_writes (log_writes start bl L) D m = D m"
  using log_fitsD(3)[OF assms(1)] assms(2) unfolding log_writes_def by (intro apply_writes_map_other) force

lemma log_writes_hit:
  assumes "log_fits start sz dsize bl" "i < length bl"
  shows "apply_writes (log_writes start bl L) D (logblk start i) = L (bl ! i)"
  unfolding log_writes_def using assms(2) log_fitsD(4)[OF assms(1,2)]
  by (intro apply_writes_map_hit) auto

lemma home_writes_logged:
  assumes "\<And>i. i < length bl \<Longrightarrow> L' (logblk start i) = L (bl ! i)"
  shows "home_writes start bl L' = map (\<lambda>b. (b, L b)) bl"
  unfolding home_writes_def using assms by (intro nth_equalityI) auto

lemma commit_view:
  assumes v: "bview s L D T (set bl) Map.empty" and l: "log_state s bl" and ne: "bl \<noteq> []" and c: "length bl < NBUF"
  defines "ws \<equiv> commit_writes (lg_start s) bl (lh_block s) L"
  shows "\<exists>s'. commit s = Ok () s' \<and> bview s' (apply_writes ws L) (apply_writes ws D) (T @ ws) {} Map.empty \<and>
    log_state s' [] \<and> lg_outstanding s' = lg_outstanding s \<and> lg_committing s' = lg_committing s \<and>
    lg_start s' = lg_start s \<and> lg_size s' = lg_size s \<and> disksize s' = disksize s"
proof -
  let ?st = "lg_start s" let ?h = "enc_head (lh_n s) (lh_block s) (L ?st)"
  have f: "log_fits ?st (lg_size s) (disksize s) bl" and n: "lh_n s = int (length bl)" using l by (simp_all add: log_state_def)
  have W: "card (set bl) < NBUF" "set bl \<inter> log_area ?st (lg_size s) = {}" "?st \<notin> set bl"
    using c card_length[of bl] f log_fitsD(1)[OF f] by (auto simp: log_fits_def)
  let ?lw = "log_writes ?st bl L"
  from write_log_view[OF v l order_refl W(1,2)] obtain t where
    t: "write_log s = Ok () t" "bframe s t" "bview t (apply_writes ?lw L) (apply_writes ?lw D) (T @ ?lw) (set bl) Map.empty" by blast
  note e = bframe_log[OF t(2)]
  have lt: "log_state t bl" using log_state_frame[OF t(2)] l by simp
  have r: "apply_writes ?lw L ?st = L ?st" using log_writes_other[OF f] by simp
  let ?L = "(apply_writes ?lw L)(?st := ?h)" and ?D = "(apply_writes ?lw D)(?st := ?h)" and ?T = "T @ ?lw @ [(?st, ?h)]"
  from write_head_view[OF t(3) lt W(1)] W(3) obtain u where
    u: "write_head t = Ok () u" "bframe t u" "bview u ?L ?D ?T (set bl) Map.empty" unfolding e r by auto
  note e2 = bframe_log[OF u(2), unfolded e]
  have lu: "log_state u bl" using log_state_frame[OF u(2)] lt by simp
  have hw: "home_writes ?st bl ?L = map (\<lambda>b. (b, L b)) bl"
    using log_writes_hit[OF f] log_fitsD(3)[OF f] by (intro home_writes_logged) auto
  let ?hw = "map (\<lambda>b. (b, L b)) bl"
  from install_view[OF u(3) lu _ W(1), unfolded e2, unfolded hw] obtain w where
    w: "install_trans u = Ok () w" "bframe u w" "bview w (apply_writes ?hw ?L) (apply_writes ?hw ?D) (?T @ ?hw) {} Map.empty" by auto
  note e3 = bframe_log[OF w(2), unfolded e2]
  let ?w = "w\<lparr>lh_n := 0\<rparr>"
  have lw: "log_state ?w []" using lu e3 log_fits_Nil[OF f] by (simp add: log_state_def e2)
  have vw: "bview ?w (apply_writes ?hw ?L) (apply_writes ?hw ?D) (?T @ ?hw) {} Map.empty" using w(3) by simp
  have r2: "apply_writes ?hw ?L ?st = ?h" using W(3) by (subst apply_writes_other) auto
  from write_head_view[OF vw lw] r2 obtain x where
    x: "write_head ?w = Ok () x" "bframe ?w x" "bview x ((apply_writes ?hw ?L)(?st := clear_head ?h))
      ((apply_writes ?hw ?D)(?st := clear_head ?h)) ((?T @ ?hw) @ [(?st, clear_head ?h)]) {} Map.empty"
    by (auto simp: enc_head_0 e3 NBUF_def)
  have "commit s = Ok () x" using n ne by (simp add: commit_def seq_Ok t(1) u(1) w(1) x(1))
  moreover have "log_state x []" using log_state_frame[OF x(2)] lw by simp
  moreover have "bview x (apply_writes ws L) (apply_writes ws D) (T @ ws) {} Map.empty"
    using x(3) by (simp add: ws_def commit_writes_def Let_def n)
  ultimately show ?thesis using bframe_log[OF x(2)] e3 by auto
qed

subsection \<open>Recovery after a crash\<close>

lemma apply_writes_self: "apply_writes (map (\<lambda>b. (b, L b)) bl) D m = (if m \<in> set bl then L m else D m)"
  by (induction bl arbitrary: D) auto

lemma clear_head_0: "length d = BSIZE \<Longrightarrow> sint (word_at (clear_head d) 0) = 0"
  using enc_head_ok(2)[of d 0] by (simp add: enc_head_0 LOGSIZE_def)

lemma recover_none:
  assumes "sint (word_at (D start) 0) = 0" "log_fits start sz dsize bl"
  shows "recoverable start sz dsize D" "m \<noteq> start \<Longrightarrow> apply_writes (recover_writes start D) D m = D m"
  using assms log_fits_Nil[OF assms(2)]
  by (simp_all add: recoverable_def head_blocks_def recover_writes_def home_writes_def)

lemma recover_all:
  assumes f: "log_fits start sz dsize bl" and h: "head_blocks (D start) = bl" "0 \<le> sint (word_at (D start) 0)"
    and lb: "\<And>i. i < length bl \<Longrightarrow> D (logblk start i) = L (bl ! i)" and m: "m \<noteq> start"
  shows "recoverable start sz dsize D" "apply_writes (recover_writes start D) D m = (if m \<in> set bl then L m else D m)"
  using f h m home_writes_logged[of bl D start L, OF lb] by (simp_all add: recoverable_def recover_writes_def apply_writes_self)

lemma take_image: "fst ` set (take k ws) \<subseteq> fst ` set ws"
  by (intro image_mono set_take_subset)

lemma head_blocks_enc:
  assumes "length d = BSIZE" "length bl \<le> LOGSIZE" "take (length bl) lhb = bl"
  shows "head_blocks (enc_head (int (length bl)) lhb d) = bl" "0 \<le> sint (word_at (enc_head (int (length bl)) lhb d) 0)"
proof -
  note e = enc_head_ok[OF assms(1), of "int (length bl)", where bl = lhb]
  have "lhb ! i = bl ! i" if "i < length bl" for i using assms(3) that by (metis nth_take)
  then show "head_blocks (enc_head (int (length bl)) lhb d) = bl" using e assms(2)
    by (intro nth_equalityI) (auto simp: head_blocks_def)
  show "0 \<le> sint (word_at (enc_head (int (length bl)) lhb d) 0)" using e assms(2) by simp
qed

lemma crash_prefix:
  assumes f: "log_fits start sz dsize bl" and lhb: "take (length bl) lhb = bl"
    and D: "sint (word_at (D start) 0) = 0" "\<And>m. length (L m) = BSIZE" "\<And>m. m \<notin> set bl \<Longrightarrow> L m = D m"
    and k: "k \<le> length (commit_writes start bl lhb L)"
  defines "Dk \<equiv> apply_writes (take k (commit_writes start bl lhb L)) D"
  shows "recoverable start sz dsize Dk \<and>
    (\<forall>m. m \<notin> log_area start sz \<longrightarrow> Dk m = D m \<or> Dk m = L m) \<and>
    ((\<forall>m. m \<notin> log_area start sz \<longrightarrow> apply_writes (recover_writes start Dk) Dk m = D m) \<or>
     (\<forall>m. m \<notin> log_area start sz \<longrightarrow> apply_writes (recover_writes start Dk) Dk m = L m))"
proof -
  let ?lw = "log_writes start bl L" and ?hw = "map (\<lambda>b. (b, L b)) bl" and ?h = "enc_head (int (length bl)) lhb (L start)"
  let ?n = "length bl"
  have start: "start \<in> log_area start sz" by (rule log_fitsD(1)[OF f])
  have nb: "start \<notin> set bl" using start f by (auto simp: log_fits_def)
  have nb': "logblk start i \<notin> set bl" if "i < ?n" for i using log_fitsD(3)[OF f that] f by (auto simp: log_fits_def)
  have lws: "length ?lw = ?n" by (simp add: log_writes_def)
  have fst: "fst ` set ?lw = logblk start ` {0..<?n}" by (auto simp: log_writes_def image_image)
  have h: "head_blocks ?h = bl" "0 \<le> sint (word_at ?h 0)"
    using head_blocks_enc[OF D(2) _ lhb] f by (auto simp: log_fits_def)
  have lh: "length ?h = BSIZE" using enc_head_ok(1)[OF D(2)] f by (simp add: log_fits_def)
  consider (a) "k \<le> ?n" | (b) j where "k = Suc (?n + j)" "j \<le> ?n" | (c) "k = Suc (Suc (?n + ?n))"
  proof -
    have "k \<le> Suc (Suc (?n + ?n))" using k by (simp add: commit_writes_def Let_def lws)
    then consider "k \<le> ?n" | "Suc ?n \<le> k" "k \<le> Suc (?n + ?n)" | "k = Suc (Suc (?n + ?n))" by linarith
    then show ?thesis using a b[of "k - Suc ?n"] c by cases auto
  qed
  then show ?thesis
  proof cases
    case a
    then have Dk: "Dk = apply_writes (take k ?lw) D" by (simp add: Dk_def commit_writes_def Let_def lws)
    have o: "Dk m = D m" if "m \<notin> log_area start sz \<or> m = start" for m
      unfolding Dk using that log_fitsD(3)[OF f] take_image[of k ?lw] fst by (intro apply_writes_other) force
    note r = recover_none[of Dk, OF _ f]
    have "apply_writes (recover_writes start Dk) Dk m = D m" if "m \<notin> log_area start sz" for m
      using r(2)[of m] o D(1) that start by metis
    then show ?thesis using r(1) o D(1) by simp
  next
    case b
    then have Dk: "Dk = apply_writes (take j ?hw) ((apply_writes ?lw D)(start := ?h))"
      by (simp add: Dk_def commit_writes_def Let_def lws)
    have tj: "take j ?hw = map (\<lambda>b. (b, L b)) (take j bl)" by (simp add: take_map)
    have Dm: "Dk m = (if m \<in> set (take j bl) then L m else if m = start then ?h else apply_writes ?lw D m)" for m
      unfolding Dk tj apply_writes_self by simp
    have s: "Dk start = ?h" using Dm[of start] nb by (auto dest: in_set_takeD)
    have lb: "Dk (logblk start i) = L (bl ! i)" if "i < ?n" for i
      using Dm[of "logblk start i"] nb'[OF that] log_fitsD(3)[OF f that] log_writes_hit[OF f that, of L D] by (auto dest: in_set_takeD)
    note r = recover_all[of start sz dsize bl Dk L, OF f _ _ lb]
    have o: "m \<notin> log_area start sz \<Longrightarrow> apply_writes ?lw D m = D m" for m using log_writes_other[OF f] by blast
    have "apply_writes (recover_writes start Dk) Dk m = L m" if "m \<notin> log_area start sz" for m
    proof -
      have "m \<noteq> start" using that start by blast
      then show ?thesis using r(2)[of m] s h Dm[of m] o[OF that] D(3)[of m] by (cases "m \<in> set bl") (simp_all split: if_splits)
    qed
    moreover have "Dk m = D m \<or> Dk m = L m" if "m \<notin> log_area start sz" for m using Dm[of m] o[OF that] that start by auto
    moreover have "recoverable start sz dsize Dk" using r(1)[of "start + 1"] s h by simp
    ultimately show ?thesis by blast
  next
    case c
    then have Dk: "Dk = (apply_writes ?hw ((apply_writes ?lw D)(start := ?h)))(start := clear_head ?h)"
      by (simp add: Dk_def commit_writes_def Let_def lws)
    note r = recover_none[of Dk, OF _ f]
    have o: "Dk m = L m" if "m \<notin> log_area start sz" for m
      using that start log_writes_other[OF f, of m L D] D(3)[of m] by (auto simp: Dk apply_writes_self)
    have z: "sint (word_at (Dk start) 0) = 0" using clear_head_0[OF lh] by (simp add: Dk)
    have "apply_writes (recover_writes start Dk) Dk m = L m" if "m \<notin> log_area start sz" for m
      using r(2)[of m] z o[OF that] that start by metis
    then show ?thesis using r(1) z o by simp
  qed
qed

text \<open>The start of the file system after power-on: \<open>binit\<close> and, in the first process, \<open>initlog\<close>.\<close>

definition boot :: "(uint \<Rightarrow> bytes) \<Rightarrow> uint \<Rightarrow> (unit, 'b) lop" where
  "boot d n = (\<lambda>s. seq binit (initlog 1) (fresh_cache d n s))"

lemma binit_frame:
  assumes "binit s = Ok () s'"
  shows "wtrace s' = wtrace s \<and> lh_block s' = lh_block s \<and> lg_outstanding s' = lg_outstanding s \<and> lg_committing s' = lg_committing s"
proof -
  let ?s = "s\<lparr>bprev := (bprev s)(NBUF := NBUF), bnext := (bnext s)(NBUF := NBUF)\<rparr>"
  have "forM [0..<NBUF] (\<lambda>b. seq (initsleeplock (SL_buf b)) (modify (link_front b))) ?s = Ok () s'"
    using assms by (simp add: binit_def)
  then show ?thesis
    by (rule forM_invariant[rotated 2, where P = "\<lambda>t. wtrace t = wtrace s \<and> lh_block t = lh_block s \<and> lg_outstanding t = lg_outstanding s \<and> lg_committing t = lg_committing s"])
      (auto simp: initsleeplock_def link_front_def sl_set_def Let_def)
qed

lemma readsb_view:
  assumes v: "bview s L D T W Map.empty" and n: "1 < disksize s" and c: "card W < NBUF"
  shows "\<exists>s'. readsb 1 s = Ok (sb_of (L 1)) s' \<and> bframe s s' \<and> bview s' L D T W Map.empty"
proof -
  from bread_view[OF v n] c obtain i t where
    t: "bread 1 1 s = Ok i t" "bview t L D T W [1 \<mapsto> i]" "bframe s t" by auto
  have K: "[1 \<mapsto> i] 1 = Some i" by simp
  from brelse_view[OF t(2) K] obtain u where
    u: "brelse i t = Ok () u" "bview u L D T W Map.empty" "bframe t u" unfolding map_del1 by blast
  have "readsb 1 s = Ok (sb_of (L 1)) u"
    by (simp add: readsb_def bnd_Ok[of "bread 1 1" s, OF t(1)] bdata_def bview_data(1)[OF t(2) K] seq_Ok u(1))
  then show ?thesis using u bframe_trans[OF t(3) u(3)] by blast
qed

lemma boot_view:
  assumes b: "thr_ok b" "length (lh_block b) = LOGSIZE" and d: "\<And>m. length (D m) = BSIZE" "1 < n"
    and r: "recoverable (sb_logstart (sb_of (D 1))) (sint (sb_nlog (sb_of (D 1)))) n D"
  defines "ws \<equiv> recover_writes (sb_logstart (sb_of (D 1))) D"
  shows "\<exists>b'. boot D n b = Ok () b' \<and> bview b' (apply_writes ws D) (apply_writes ws D) ws {} Map.empty \<and>
    log_state b' [] \<and> lg_start b' = sb_logstart (sb_of (D 1)) \<and> lg_size b' = sint (sb_nlog (sb_of (D 1))) \<and> disksize b' = n \<and>
    lg_outstanding b' = lg_outstanding b \<and> lg_committing b' = lg_committing b"
proof -
  obtain t where t: "binit (fresh_cache D n b) = Ok () t" "binv t" "lblk t = D" "lockedblks t = {}" "dirtyblks t = {}"
    "disk t = D" "disksize t = n" using fresh_cache_ok[of b D n, OF b(1) d(1)] by blast
  note fr = binit_frame[OF t(1)]
  then have vt: "bview t D D [] {} Map.empty" and lt: "length (lh_block t) = LOGSIZE"
    using t b(2) by (simp_all add: bview_def bheld_def fresh_cache_def)
  from readsb_view[OF vt] t(7) d(2) obtain u where
    u: "readsb 1 t = Ok (sb_of (D 1)) u" "bframe t u" "bview u D D [] {} Map.empty" by (auto simp: NBUF_def)
  note e = bframe_log[OF u(2)]
  let ?u = "u\<lparr>lg_start := sb_logstart (sb_of (D 1)), lg_size := sint (sb_nlog (sb_of (D 1))), lg_dev := 1\<rparr>"
  have "bview ?u D D [] {} Map.empty" using u(3) by simp
  from recover_view[OF this] obtain w where
    w: "recover_from_log ?u = Ok () w" "bview w (apply_writes ws D) (apply_writes ws D) ws {} Map.empty"
      "log_state w []" "lg_start w = lg_start ?u" "lg_size w = lg_size ?u" "disksize w = disksize ?u"
      "lg_outstanding w = lg_outstanding ?u" "lg_committing w = lg_committing ?u"
    using lt e r t(7) by (auto simp: ws_def)
  have "boot D n b = Ok () w"
    unfolding boot_def seq_Ok[of binit "fresh_cache D n b", OF t(1)] by (simp add: initlog_def bnd_Ok[of "readsb 1" t, OF u(1)] w(1))
  then show ?thesis using w t(7) e fr by (auto simp: fresh_cache_def)
qed

text \<open>The state in which \<open>commit\<close> finds a transaction of the blocks \<open>bl\<close>.\<close>

definition log_ready :: "'b logst_scheme \<Rightarrow> uint list \<Rightarrow> bool" where
  "log_ready s bl \<longleftrightarrow> binv s \<and> lockedblks s = {} \<and> dirtyblks s = set bl \<and> log_state s bl \<and> bl \<noteq> [] \<and> length bl < NBUF \<and>
     sint (word_at (disk s (lg_start s)) 0) = 0 \<and> 1 < disksize s \<and> 1 \<notin> set bl \<and> 1 \<notin> log_area (lg_start s) (lg_size s) \<and>
     sb_logstart (sb_of (disk s 1)) = lg_start s \<and> sint (sb_nlog (sb_of (disk s 1))) = lg_size s"

lemma boot_prefix:
  assumes r: "log_ready s bl" and b: "thr_ok b" "length (lh_block b) = LOGSIZE"
  defines "ws \<equiv> commit_writes (lg_start s) bl (lh_block s) (lblk s)"
  assumes k: "k \<le> length ws"
  defines "A \<equiv> log_area (lg_start s) (lg_size s)"
  shows "\<exists>b'. boot (apply_writes (take k ws) (disk s)) (disksize s) b = Ok () b' \<and>
    ((\<forall>m. m \<notin> A \<longrightarrow> disk b' m = disk s m) \<or> (\<forall>m. m \<notin> A \<longrightarrow> disk b' m = lblk s m))"
proof -
  let ?Dk = "apply_writes (take k ws) (disk s)"
  have i: "binv s" "log_state s bl" "1 < disksize s" using r by (simp_all add: log_ready_def)
  have f: "log_fits (lg_start s) (lg_size s) (disksize s) bl" "take (length bl) (lh_block s) = bl"
    using i(2) by (simp_all add: log_state_def)
  have v: "bview s (lblk s) (disk s) (wtrace s) (set bl) Map.empty" using r by (simp add: log_ready_def bview_def bheld_def)
  have c: "lblk s m = disk s m" if "m \<notin> set bl" for m using bview_clean[OF v that] .
  have z: "sint (word_at (disk s (lg_start s)) 0) = 0" using r by (simp add: log_ready_def)
  note p = crash_prefix[OF f z length_lblk[OF i(1)] c k[unfolded ws_def], folded ws_def A_def]
  have 1: "?Dk 1 = disk s 1" using p r c[of 1] by (auto simp: log_ready_def A_def)
  have "length (?Dk m) = BSIZE" for m
  proof -
    have "length (snd x) = BSIZE" if "x \<in> set ws" for x
      using that length_lblk[OF i(1)] enc_head_ok(1)[of "lblk s (lg_start s)" "int (length bl)"] f(1)
      by (auto simp: ws_def commit_writes_def Let_def log_writes_def clear_head_def BSIZE_def log_fits_def)
    then have "\<forall>x \<in> set (take k ws). length (snd x) = BSIZE" by (meson in_set_takeD)
    moreover have "\<forall>x \<in> set xs. length (snd x) = BSIZE \<Longrightarrow> \<forall>m. length (D m) = BSIZE \<Longrightarrow> \<forall>m. length (apply_writes xs D m) = BSIZE" for xs D
      by (induction xs arbitrary: D) auto
    ultimately show ?thesis using binvD(5)[OF i(1)] by blast
  qed
  note bv = boot_view[where D = ?Dk, OF b this i(3), unfolded 1]
  have "sb_logstart (sb_of (disk s 1)) = lg_start s" "sint (sb_nlog (sb_of (disk s 1))) = lg_size s"
    using r by (simp_all add: log_ready_def)
  with bv p obtain b' where
    "boot ?Dk (disksize s) b = Ok () b'" "disk b' = apply_writes (recover_writes (lg_start s) ?Dk) ?Dk"
    unfolding bview_def by metis
  then show ?thesis using p by auto
qed

lemma home_writes_area:
  assumes "log_fits start sz dsize bl" "m \<in> log_area start sz"
  shows "apply_writes (take k (home_writes start bl L)) D m = D m"
proof (rule apply_writes_other)
  have "fst ` set (home_writes start bl L) \<subseteq> set bl" by (auto simp: home_writes_def)
  then show "m \<notin> fst ` set (take k (home_writes start bl L))"
    using take_image[of k "home_writes start bl L"] assms unfolding log_fits_def by blast
qed

lemma home_writes_again:
  assumes f: "log_fits start sz dsize bl"
  shows "apply_writes (home_writes start bl D) (apply_writes (take k (home_writes start bl D)) D) m =
    apply_writes (home_writes start bl D) D m"
proof (cases "m \<in> set bl")
  case True
  then obtain i where i: "i < length bl" "bl ! i = m" by (auto simp: in_set_conv_nth)
  have "\<forall>j < length bl. bl ! i = bl ! j \<longrightarrow> D (logblk start i) = D (logblk start j)"
    using f i(1) by (auto simp: log_fits_def nth_eq_iff_index_eq)
  then have "apply_writes (home_writes start bl D) E (bl ! i) = D (logblk start i)" for E
    unfolding home_writes_def using i(1) by (intro apply_writes_map_hit)
  then show ?thesis using i(2) by simp
next
  case False
  have "fst ` set (home_writes start bl D) \<subseteq> set bl" by (auto simp: home_writes_def)
  then have "m \<notin> fst ` set (home_writes start bl D)" "m \<notin> fst ` set (take k (home_writes start bl D))"
    using False take_image[of k "home_writes start bl D"] by blast+
  then show ?thesis by (simp add: apply_writes_other)
qed

lemma recover_prefix:
  assumes r: "recoverable start sz dsize D" and D: "\<And>m. length (D m) = BSIZE" and k: "k \<le> length (recover_writes start D)"
  defines "Dk \<equiv> apply_writes (take k (recover_writes start D)) D"
  shows "recoverable start sz dsize Dk \<and> (\<forall>m. length (Dk m) = BSIZE) \<and>
    (\<forall>m. m \<notin> log_area start sz \<longrightarrow> apply_writes (recover_writes start Dk) Dk m = apply_writes (recover_writes start D) D m)"
proof -
  let ?bl = "head_blocks (D start)" let ?hw = "home_writes start ?bl D"
  have f: "log_fits start sz dsize ?bl" using r by (simp add: recoverable_def)
  have start: "start \<in> log_area start sz" by (rule log_fitsD(1)[OF f])
  have all: "\<forall>x \<in> set (recover_writes start D). length (snd x) = BSIZE"
    using D by (auto simp: recover_writes_def home_writes_def clear_head_def BSIZE_def)
  have "\<forall>x \<in> set xs. length (snd x) = BSIZE \<Longrightarrow> \<forall>m. length (E m) = BSIZE \<Longrightarrow> \<forall>m. length (apply_writes xs E m) = BSIZE" for xs E
    by (induction xs arbitrary: E) auto
  then have l: "length (Dk m) = BSIZE" for m using D all unfolding Dk_def by (meson in_set_takeD)
  show ?thesis
  proof (cases "k \<le> length ?hw")
    case True
    then have Dk: "Dk = apply_writes (take k ?hw) D" by (simp add: Dk_def recover_writes_def)
    have a: "Dk m = D m" if "m \<in> log_area start sz" for m unfolding Dk by (rule home_writes_area[OF f that])
    have "home_writes start ?bl Dk = ?hw" using log_fitsD(3)[OF f] a by (simp add: home_writes_def)
    then have rw: "recover_writes start Dk = recover_writes start D" using a[OF start] by (simp add: recover_writes_def)
    show ?thesis unfolding rw using l r a[OF start] start home_writes_again[OF f, of D k]
      by (auto simp: recoverable_def Dk recover_writes_def)
  next
    case False
    then have "k = length (recover_writes start D)" using k by (simp add: recover_writes_def)
    then have Dk: "Dk = apply_writes (recover_writes start D) D" by (simp add: Dk_def)
    then have "Dk start = clear_head (D start)" by (simp add: recover_writes_def)
    then have "sint (word_at (Dk start) 0) = 0" using clear_head_0[OF D] by simp
    from recover_none[of Dk, OF this f] have "recoverable start sz dsize Dk"
      "\<forall>m. m \<noteq> start \<longrightarrow> apply_writes (recover_writes start Dk) Dk m = Dk m" by auto
    then show ?thesis using l start Dk by metis
  qed
qed

subsection \<open>Changes inside a transaction\<close>

text \<open>What operations inside a transaction leave alone: everything but the cache, process states and the list of logged blocks.\<close>

definition lframe :: "'b logst_scheme \<Rightarrow> 'b logst_scheme \<Rightarrow> bool" where
  "lframe s s' \<longleftrightarrow> bframe (s\<lparr>lh_n := lh_n s', lh_block := lh_block s'\<rparr>) s'"

lemma bframe_lh: "bframe s t \<Longrightarrow> bframe (s\<lparr>lh_n := n, lh_block := b\<rparr>) (t\<lparr>lh_n := n, lh_block := b\<rparr>)"
proof -
  assume a: "bframe s t"
  obtain a1 a2 a3 a4 a5 a6 a7 where t: "t = s\<lparr>ptable := a1, slocks := a2, bufs := a3, bnext := a4, bprev := a5, disk := a6, wtrace := a7\<rparr>"
    using a unfolding bframe_def by blast
  have "noproc a1 = noproc (ptable s)" using a t by (simp add: bframe_def)
  then show ?thesis by (simp add: bframe_def t)
qed

lemma bframe_lframe: "bframe s t \<Longrightarrow> lframe s t"
  unfolding lframe_def using bframe_lh[where n = "lh_n t" and b = "lh_block t", of s t] by simp

lemma lframe_trans: "lframe s t \<Longrightarrow> lframe t u \<Longrightarrow> lframe s u"
  unfolding lframe_def using bframe_lh[where n = "lh_n u" and b = "lh_block u", of "s\<lparr>lh_n := lh_n t, lh_block := lh_block t\<rparr>" t] bframe_trans by fastforce

lemma lframe_sel:
  assumes "lframe s t"
  shows "lg_start t = lg_start s" "lg_size t = lg_size s" "lg_outstanding t = lg_outstanding s" "lg_committing t = lg_committing s"
    "lg_dev t = lg_dev s" "disksize t = disksize s" "logst.more t = logst.more s" "held t = held s" "c_proc t = c_proc s"
  using bframe_log[OF assms[unfolded lframe_def]] bframe_sel[OF assms[unfolded lframe_def]] by simp_all

lemma thr_ok_held: "binv s \<Longrightarrow> held s = []"
  by (auto simp: binv_def thr_ok_def)

definition add_block :: "uint \<Rightarrow> uint list \<Rightarrow> uint list" where
  "add_block n bl = (if n \<in> set bl then bl else bl @ [n])"

text \<open>The slot \<open>log_write\<close> chooses, and what it makes of the header in memory.\<close>

lemma log_slot:
  fixes n :: uint
  assumes "length lhb = LOGSIZE" "take (length bl) lhb = bl" "length bl < LOGSIZE"
  defines "i \<equiv> (case find_index ((=) n) bl of Some i \<Rightarrow> i | None \<Rightarrow> length bl)"
  shows "(i = length bl) = (n \<notin> set bl)" "i \<le> length bl" "take (length (add_block n bl)) (lhb[i := n]) = add_block n bl"
proof -
  have *: "(i = length bl) = (n \<notin> set bl) \<and> i \<le> length bl \<and> (n \<in> set bl \<longrightarrow> lhb[i := n] = lhb)"
  proof (cases "find_index ((=) n) bl")
    case None
    then have "n \<notin> set bl" "i = length bl" by (auto simp: find_index_None) (simp add: i_def None)
    then show ?thesis by simp
  next
    case (Some j)
    note f = find_index_SomeD[OF Some]
    have "lhb ! j = n" using assms(2) f(1,2) by (metis nth_take)
    then have "lhb[j := n] = lhb" by (metis list_update_id)
    moreover have "n \<in> set bl" using f(1,2) nth_mem by metis
    moreover have "i = j" by (simp add: i_def Some)
    ultimately show ?thesis using f(1) by simp
  qed
  then show "(i = length bl) = (n \<notin> set bl)" "i \<le> length bl" by simp_all
  show "take (length (add_block n bl)) (lhb[i := n]) = add_block n bl"
  proof (cases "n \<in> set bl")
    case True
    then show ?thesis using * assms(2) by (simp add: add_block_def)
  next
    case False
    then have i: "i = length bl" using * by blast
    have "take (Suc (length bl)) (lhb[length bl := n]) = take (length bl) (lhb[length bl := n]) @ [lhb[length bl := n] ! length bl]"
      using assms(1,3) by (intro take_Suc_conv_app_nth) simp
    then show ?thesis using False i assms by (simp add: add_block_def)
  qed
qed

lemma bset_lh [simp]:
  "bset i f (s\<lparr>lh_n := n\<rparr>) = (bset i f s)\<lparr>lh_n := n\<rparr>" "bset i f (s\<lparr>lh_block := b\<rparr>) = (bset i f s)\<lparr>lh_block := b\<rparr>"
  by (simp_all add: bset_def)

lemma upd_buf_log2 [simp]: "held (upd_buf i d b D w s) = held s" "lg_size (upd_buf i d b D w s) = lg_size s"
  "lg_outstanding (upd_buf i d b D w s) = lg_outstanding s"
  by (simp_all add: upd_buf_def bset_def)

lemma lh_swap: "s\<lparr>lh_block := b, lh_n := n\<rparr> = s\<lparr>lh_n := n, lh_block := b\<rparr>"
  by simp

lemma lh_n_same: "lh_n s = m \<Longrightarrow> s\<lparr>lh_n := m\<rparr> = s"
  by auto

lemma log_write_simple:
  assumes t: "held t = []" "lh_n t = int (length bl)" "take (length bl) (lh_block t) = bl" "length (lh_block t) = LOGSIZE"
    "1 \<le> lg_outstanding t" "b_blockno (bufs t ! i) = n" and room: "length bl < LOGSIZE" "int (length bl) < lg_size t - 1"
  shows "\<exists>lb. log_write i t = Ok () ((bset i (\<lambda>x. x\<lparr>b_dirty := True\<rparr>) t)\<lparr>lh_block := lb, lh_n := int (length (add_block n bl))\<rparr>) \<and>
    length lb = LOGSIZE \<and> take (length (add_block n bl)) lb = add_block n bl"
proof -
  define k where "k = (case find_index ((=) n) bl of Some i \<Rightarrow> i | None \<Rightarrow> length bl)"
  note sl = log_slot[OF t(4,3) room(1), of n, folded k_def]
  have f: "\<not> (lh_n t \<ge> int LOGSIZE \<or> lh_n t \<ge> lg_size t - 1)" "\<not> lg_outstanding t < 1" using room t(2,5) by simp_all
  let ?t = "t\<lparr>held := [L_log]\<rparr>"
  have kk: "log_absorb n ?t = k" using t(2,3) by (simp add: log_absorb_def k_def split: option.split)
  have "log_write i t = seq (modify (\<lambda>s. s\<lparr>lh_block := (lh_block s)[k := n]\<rparr>))
     (seq (modify (\<lambda>s. if int k = lh_n s then s\<lparr>lh_n := lh_n s + 1\<rparr> else s))
     (seq (modify (bset i (\<lambda>x. x\<lparr>b_dirty := True\<rparr>))) (release L_log))) ?t"
    unfolding log_write_def bnd_gets using f t(1,6) by (simp add: kk)
  also have "\<dots> = Ok () ((bset i (\<lambda>x. x\<lparr>b_dirty := True\<rparr>) t)\<lparr>lh_block := (lh_block t)[k := n], lh_n := int (length (add_block n bl))\<rparr>)"
    using t(1,2) sl(1) by (cases "n \<in> set bl") (simp_all add: add_block_def lh_n_same bset_def)
  finally show ?thesis using sl(3) t(4) by (intro exI[of _ "(lh_block t)[k := n]"]) simp
qed

lemma log_write_eq:
  assumes v: "bview s L D T W K" and n: "K n = Some i" and l: "log_state s bl" and o: "1 \<le> lg_outstanding s"
    and room: "length bl < LOGSIZE" "int (length bl) < lg_size s - 1"
  shows "\<exists>lb. seq (set_bdata i d) (log_write i) s =
      Ok () ((upd_buf i d True D [] s)\<lparr>lh_block := lb, lh_n := int (length (add_block n bl))\<rparr>) \<and>
    length lb = LOGSIZE \<and> take (length (add_block n bl)) lb = add_block n bl"
proof -
  have e: "disk s = D" "held s = []" using v thr_ok_held by (auto simp: bview_def)
  have lh: "length (lh_block s) = LOGSIZE" "lh_n s = int (length bl)" "take (length bl) (lh_block s) = bl"
    using l by (simp_all add: log_state_def)
  let ?u = "upd_buf i d (b_dirty (bufs s ! i)) (disk s) [] s"
  have il: "i < length (bufs s)" "b_blockno (bufs s ! i) = n" using bview_data[OF v n] by simp_all
  have d: "bset i (\<lambda>x. x\<lparr>b_dirty := True\<rparr>) ?u = upd_buf i d True D [] s" using il e by (simp add: upd_buf_def bset_def)
  have "held ?u = []" "lh_n ?u = int (length bl)" "take (length bl) (lh_block ?u) = bl" "length (lh_block ?u) = LOGSIZE"
    "1 \<le> lg_outstanding ?u" "b_blockno (bufs ?u ! i) = n" "int (length bl) < lg_size ?u - 1" using lh e il o room by simp_all
  from log_write_simple[OF this(1-6) room(1) this(7)] show ?thesis unfolding d set_bdata_eq .
qed

lemma log_write_view:
  assumes v: "bview s L D T W K" and n: "K n = Some i" and d: "length d = BSIZE" and l: "log_state s bl" and o: "1 \<le> lg_outstanding s"
    and room: "length bl < LOGSIZE" "int (length bl) < lg_size s - 1" and nb: "n \<notin> log_area (lg_start s) (lg_size s)"
  shows "\<exists>s'. seq (set_bdata i d) (log_write i) s = Ok () s' \<and> bview s' (L(n := d)) D T (insert n W) K \<and>
    log_state s' (add_block n bl) \<and> lframe s s'"
proof -
  from log_write_eq[OF v n l o room, of d] obtain lb where
    lb: "seq (set_bdata i d) (log_write i) s = Ok () ((upd_buf i d True D [] s)\<lparr>lh_block := lb, lh_n := int (length (add_block n bl))\<rparr>)"
      "length lb = LOGSIZE" "take (length (add_block n bl)) lb = add_block n bl" by blast
  let ?u = "upd_buf i d True D [] s"
  let ?s = "?u\<lparr>lh_block := lb, lh_n := int (length (add_block n bl))\<rparr>"
  note e = bframe_log[OF bframe_upd[of s i d True D "[]"]]
  have "bview ?s (L(n := d)) D T (insert n W) K" using upd_view[OF v n d, of D True "[]"] by simp
  moreover have "has_buf s i n" "binv s" using v n by (auto simp: bview_def dest: bheldD)
  then have "n < disksize s" using binvD(3)[of s i] by (auto simp: has_buf_def buf_ok_def Let_def)
  then have "log_fits (lg_start s) (lg_size s) (disksize s) (add_block n bl)"
    using l room nb by (auto simp: log_state_def log_fits_def add_block_def)
  then have "log_state ?s (add_block n bl)" using lb(2,3) l e by (simp add: log_state_def)
  moreover have "lframe s ?s" using bframe_lh[OF bframe_upd[of s i d True D "[]"], where n = "int (length (add_block n bl))" and b = lb]
    unfolding lframe_def lh_swap by simp
  ultimately show ?thesis using lb(1) by blast
qed

text \<open>The way the file system changes a block: read it, change it, log it, release it.\<close>

lemma update_view:
  assumes v: "bview s L D T W Map.empty" and n: "n < disksize s" "card W < NBUF \<or> n \<in> W" and d: "length d = BSIZE"
    and l: "log_state s bl" "1 \<le> lg_outstanding s" and room: "length bl < LOGSIZE" "int (length bl) < lg_size s - 1"
    and nb: "n \<notin> log_area (lg_start s) (lg_size s)"
  shows "\<exists>s'. bnd (bread 1 n) (\<lambda>i. seq (seq (set_bdata i d) (log_write i)) (brelse i)) s = Ok () s' \<and>
    bview s' (L(n := d)) D T (insert n W) Map.empty \<and> log_state s' (add_block n bl) \<and> lframe s s'"
proof -
  from bread_view[OF v n(1)] n(2) obtain i t where
    t: "bread 1 n s = Ok i t" "bview t L D T W [n \<mapsto> i]" "bframe s t" by auto
  note f = lframe_sel[OF bframe_lframe[OF t(3)]]
  have K: "[n \<mapsto> i] n = Some i" by simp
  have "log_state t bl" "1 \<le> lg_outstanding t" "int (length bl) < lg_size t - 1" "n \<notin> log_area (lg_start t) (lg_size t)"
    using l room nb f log_state_frame[OF t(3)] by simp_all
  from log_write_view[OF t(2) K d this(1,2) room(1) this(3,4)] obtain u where
    u: "seq (set_bdata i d) (log_write i) t = Ok () u" "bview u (L(n := d)) D T (insert n W) [n \<mapsto> i]"
      "log_state u (add_block n bl)" "lframe t u" by blast
  from brelse_view[OF u(2) K] obtain w where
    w: "brelse i u = Ok () w" "bview w (L(n := d)) D T (insert n W) Map.empty" "bframe u w" unfolding map_del1 by blast
  have "lframe s w" using lframe_trans[OF lframe_trans[OF bframe_lframe[OF t(3)] u(4)] bframe_lframe[OF w(3)]] .
  moreover have "log_state w (add_block n bl)" using u(3) log_state_frame[OF w(3)] by simp
  moreover have "bnd (bread 1 n) (\<lambda>i. seq (seq (set_bdata i d) (log_write i)) (brelse i)) s = Ok () w"
    unfolding bnd_Ok[of "bread 1 n" s, OF t(1)] seq_Ok[of "seq (set_bdata i d) (log_write i)" t, OF u(1)] by (rule w(1))
  ultimately show ?thesis using w(2) by blast
qed

subsection \<open>Atomicity of a transaction\<close>

text \<open>A disk image with the superblock in block 1 and an empty log in blocks 2 to 31, and a kernel to boot it.\<close>

definition log0 :: logst where
  "log0 = biost.extend bio0 (logst.fields 0 0 1 False 0 0 (replicate LOGSIZE 0))"

definition image0 :: "uint \<Rightarrow> bytes" where
  "image0 m = (if m = 1 then concat (map le32 [1000, 941, 200, 30, 2, 32, 58]) @ replicate (BSIZE - 28) 0 else replicate BSIZE 0)"

lemma log0_ok: "thr_ok log0" "length (lh_block log0) = LOGSIZE" "lg_outstanding log0 = 1"
proof -
  have "held log0 = held bio0" "c_proc log0 = c_proc bio0" "ptable log0 = ptable bio0"
    by (simp_all add: log0_def biost.defs logst.defs)
  then show "thr_ok log0" using bio0_thr_ok by (simp add: thr_ok_def)
qed (simp_all add: log0_def biost.defs logst.defs)

lemma clear_head_zero: "clear_head (replicate BSIZE 0) = replicate BSIZE 0"
proof -
  have "clear_head (replicate BSIZE 0) = replicate 4 0 @ replicate (BSIZE - 4) 0"
    by (simp add: clear_head_def splice_def le32_def numeral_eq_Suc)
  also have "\<dots> = replicate (4 + (BSIZE - 4)) 0" by (rule replicate_add[symmetric])
  finally show ?thesis by (simp add: BSIZE_def)
qed

lemma image0_ok:
  "length (image0 m) = BSIZE" "sb_logstart (sb_of (image0 1)) = 2" "sb_nlog (sb_of (image0 1)) = 30"
  "clear_head (image0 2) = image0 2" "word_at (image0 2) 0 = 0"
  by (simp_all add: image0_def sb_of_def word_at_def BSIZE_def slice_def un32_def le32_def clear_head_zero[unfolded BSIZE_def])

lemma image0_head: "head_blocks (image0 2) = []"
  by (simp add: head_blocks_def image0_ok)

lemma image0_booted:
  "\<exists>s. boot image0 100 log0 = Ok () s \<and> bview s image0 image0 [(2, image0 2)] {} Map.empty \<and> log_state s [] \<and>
    lg_start s = 2 \<and> lg_size s = 30 \<and> disksize s = 100 \<and> lg_outstanding s = 1"
proof -
  have r: "recoverable 2 30 100 image0" by (simp add: recoverable_def log_fits_def image0_ok image0_head)
  have w: "recover_writes 2 image0 = [(2, image0 2)]" by (simp add: recover_writes_def home_writes_def image0_ok image0_head)
  have e: "apply_writes [(2, image0 2)] image0 = image0" by auto
  have "sint (30 :: uint) = 30" by simp
  moreover have "(1 :: uint) < 100" by simp
  ultimately show ?thesis
    using boot_view[where D = image0 and n = 100 and b = log0, OF log0_ok(1,2) image0_ok(1)] r
    unfolding image0_ok w e log0_ok(3) by metis
qed

lemma image0_update:
  "\<exists>s s'. boot image0 100 log0 = Ok () s \<and>
    bnd (bread 1 50) (\<lambda>i. seq (seq (set_bdata i (replicate BSIZE 9)) (log_write i)) (brelse i)) s = Ok () s' \<and>
    log_ready s' [50] \<and> lblk s' 50 = replicate BSIZE 9 \<and> 50 \<notin> log_area (lg_start s') (lg_size s')"
proof -
  obtain s where s: "boot image0 100 log0 = Ok () s" "bview s image0 image0 [(2, image0 2)] {} Map.empty" "log_state s []"
    "lg_start s = 2" "lg_size s = 30" "disksize s = 100" "lg_outstanding s = 1" using image0_booted by blast
  have c: "50 < disksize s" "card {} < NBUF \<or> 50 \<in> {}" "length (replicate BSIZE (9 :: uchar)) = BSIZE" "1 \<le> lg_outstanding s"
    "length [] < LOGSIZE" "int (length []) < lg_size s - 1" "50 \<notin> log_area (lg_start s) (lg_size s)"
    using s(4-7) by (simp_all add: log_area_def NBUF_def LOGSIZE_def)
  have a: "add_block 50 [] = [50]" by (simp add: add_block_def)
  from update_view[OF s(2) c(1-3) s(3) c(4-7), unfolded a] obtain t where
    t: "bnd (bread 1 50) (\<lambda>i. seq (seq (set_bdata i (replicate BSIZE 9)) (log_write i)) (brelse i)) s = Ok () t"
      "bview t (image0(50 := replicate BSIZE 9)) image0 [(2, image0 2)] {50} Map.empty" "log_state t [50]" "lframe s t"
    by blast
  have "log_ready t [50]" using t(2,3) s(4-7) lframe_sel[OF t(4)] image0_ok
    by (simp add: log_ready_def bview_def bheld_def log_area_def NBUF_def)
  moreover have "lblk t 50 = replicate BSIZE 9" using t(2) by (simp add: bview_def)
  moreover have "50 \<notin> log_area (lg_start t) (lg_size t)" using s(4-7) lframe_sel[OF t(4)] by (simp add: log_area_def)
  ultimately show ?thesis using s(1) t(1) by blast
qed

text \<open>
  Claim C2. A commit is atomic with respect to power failure.  \<open>commit\<close> of the logged blocks
  \<open>bl\<close> makes the disk agree with the cache everywhere outside the log.  When the machine stops after any number
  \<open>k\<close> of the block writes \<open>commit\<close> issues, in their order, and boots again, \<open>initlog\<close> leaves outside the
  log either exactly the blocks from before the commit or exactly the blocks of the transaction, never a mixture.
\<close>

theorem commit_crash_atomic:
  assumes "log_ready s bl" "thr_ok b" "length (lh_block b) = LOGSIZE"
  defines "A \<equiv> log_area (lg_start s) (lg_size s)"
  shows "\<exists>s' ws. commit s = Ok () s' \<and> wtrace s' = wtrace s @ ws \<and> disk s' = apply_writes ws (disk s) \<and>
    (\<forall>m. m \<notin> A \<longrightarrow> disk s' m = lblk s m) \<and>
    (\<forall>k \<le> length ws. \<exists>b'. boot (apply_writes (take k ws) (disk s)) (disksize s) b = Ok () b' \<and>
      ((\<forall>m. m \<notin> A \<longrightarrow> disk b' m = disk s m) \<or> (\<forall>m. m \<notin> A \<longrightarrow> disk b' m = lblk s m)))"
proof -
  let ?ws = "commit_writes (lg_start s) bl (lh_block s) (lblk s)"
  have i: "binv s" "log_state s bl" "bl \<noteq> []" "length bl < NBUF" using assms(1) by (simp_all add: log_ready_def)
  have v: "bview s (lblk s) (disk s) (wtrace s) (set bl) Map.empty" using assms(1) by (simp add: log_ready_def bview_def bheld_def)
  from commit_view[OF v i(2-4)] obtain s' where
    s': "commit s = Ok () s'" "bview s' (apply_writes ?ws (lblk s)) (apply_writes ?ws (disk s)) (wtrace s @ ?ws) {} Map.empty" by blast
  have f: "log_fits (lg_start s) (lg_size s) (disksize s) bl" using i(2) by (simp add: log_state_def)
  have "apply_writes ?ws (disk s) m = lblk s m" if "m \<notin> A" for m
    using that log_fitsD(1)[OF f] log_writes_other[OF f, of m "lblk s" "disk s"] bview_clean[OF v, of m]
    by (auto simp: A_def commit_writes_def Let_def apply_writes_self)
  then show ?thesis using s' boot_prefix[OF assms(1-3)] unfolding A_def by (intro exI[of _ s'] exI[of _ ?ws]) (simp add: bview_def)
qed

theorem commit_crash_atomic_witness:
  "\<exists>s s' t. boot image0 100 log0 = Ok () s \<and>
    bnd (bread 1 50) (\<lambda>i. seq (seq (set_bdata i (replicate BSIZE 9)) (log_write i)) (brelse i)) s = Ok () s' \<and>
    commit s' = Ok () t \<and> disk t 50 = replicate BSIZE 9"
proof -
  obtain s s' where s: "boot image0 100 log0 = Ok () s"
    "bnd (bread 1 50) (\<lambda>i. seq (seq (set_bdata i (replicate BSIZE 9)) (log_write i)) (brelse i)) s = Ok () s'"
    "log_ready s' [50]" "lblk s' 50 = replicate BSIZE 9" "50 \<notin> log_area (lg_start s') (lg_size s')"
    using image0_update by blast
  obtain t where t: "commit s' = Ok () t" "disk t 50 = lblk s' 50"
    using commit_crash_atomic[OF s(3) log0_ok(1,2)] s(5) by blast
  show ?thesis using s(1,2) t(1) t(2)[unfolded s(4)] by blast
qed

end
