(* ===== verification/Fs.thy ===== *)
theory Fs
  imports Log
begin

text \<open>
  The file system (\<open>fs.c\<close>): block allocation, inodes, file contents with direct, indirect, doubly and triply indirect blocks,
  directories and path names.  The state adds the super block \<open>sb\<close> and the inode cache to the log layer.  A pointer to an inode
  is the index of its cache entry.  The destination of \<open>readi\<close> is the list of bytes it copies, the source of \<open>writei\<close> is a list of bytes.
  \<open>devsw_read\<close> and \<open>devsw_write\<close> stand for the device switch: for a major number, no function or what the function returns.
\<close>

definition NINODE :: nat where "NINODE = 50"
definition NDIRECT :: nat where "NDIRECT = 10"
definition NINDIRECT :: nat where "NINDIRECT = 128"
definition NDOUBINDIRECT :: nat where "NDOUBINDIRECT = NINDIRECT * NINDIRECT"
definition NTRIPINDIRECT :: nat where "NTRIPINDIRECT = NDOUBINDIRECT * NINDIRECT"
definition MAXFILE :: nat where "MAXFILE = NDIRECT + NINDIRECT + NDOUBINDIRECT + NTRIPINDIRECT"
definition IPB :: nat where "IPB = 8"
definition BPB :: nat where "BPB = 4096"
definition DIRSIZ :: nat where "DIRSIZ = 14"
definition NDEV :: int where "NDEV = 10"
definition ROOTDEV :: uint where "ROOTDEV = 1"
definition ROOTINO :: uint where "ROOTINO = 1"
definition T_DIR :: ushort where "T_DIR = 1"
definition T_FILE :: ushort where "T_FILE = 2"
definition T_DEV :: ushort where "T_DEV = 3"

record dinode =
  d_type :: ushort
  d_major :: ushort
  d_minor :: ushort
  d_nlink :: ushort
  d_size :: uint
  d_addrs :: "uint list"

record inode =
  i_dev :: uint
  i_inum :: uint
  i_ref :: int
  i_valid :: bool
  i_type :: ushort
  i_major :: ushort
  i_minor :: ushort
  i_nlink :: ushort
  i_size :: uint
  i_addrs :: "uint list"

record fsst = logst +
  sb :: superblock
  inodes :: "inode list"
  devsw_read :: "int \<Rightarrow> (uint \<Rightarrow> int \<times> bytes) option"
  devsw_write :: "int \<Rightarrow> (bytes \<Rightarrow> int) option"

type_synonym ('a, 'b) fop = "'b fsst_scheme \<Rightarrow> ('a, 'b fsst_scheme) res"

definition iget_inode :: "nat \<Rightarrow> 'b fsst_scheme \<Rightarrow> inode" where
  "iget_inode i s = inodes s ! i"

definition iset :: "nat \<Rightarrow> (inode \<Rightarrow> inode) \<Rightarrow> 'b fsst_scheme \<Rightarrow> 'b fsst_scheme" where
  "iset i f s = s\<lparr>inodes := (inodes s)[i := f (inodes s ! i)]\<rparr>"

subsection \<open>On-disk inodes\<close>

definition dinode_at :: "bytes \<Rightarrow> nat \<Rightarrow> dinode" where
  "dinode_at d o' = \<lparr>d_type = un16 (slice d o' 2), d_major = un16 (slice d (o' + 2) 2), d_minor = un16 (slice d (o' + 4) 2),
     d_nlink = un16 (slice d (o' + 6) 2), d_size = un32 (slice d (o' + 8) 4),
     d_addrs = map (\<lambda>k. un32 (slice d (o' + 12 + 4 * k) 4)) [0..<NDIRECT + 3]\<rparr>"

definition enc_dinode :: "dinode \<Rightarrow> bytes" where
  "enc_dinode x = le16 (d_type x) @ le16 (d_major x) @ le16 (d_minor x) @ le16 (d_nlink x) @ le32 (d_size x) @ concat (map le32 (d_addrs x))"

definition IBLOCK :: "uint \<Rightarrow> superblock \<Rightarrow> uint" where
  "IBLOCK i q = i div of_nat IPB + sb_inodestart q"

definition BBLOCK :: "uint \<Rightarrow> superblock \<Rightarrow> uint" where
  "BBLOCK b q = b div of_nat BPB + sb_bmapstart q"

definition dioff :: "uint \<Rightarrow> nat" where
  "dioff inum = 64 * (unat inum mod IPB)"

subsection \<open>Blocks\<close>

definition bzero :: "uint \<Rightarrow> uint \<Rightarrow> (unit, 'b) fop" where
  "bzero dev bno = bnd (bread dev bno) (\<lambda>bp. seq (set_bdata bp (replicate BSIZE 0)) (seq (log_write bp) (brelse bp)))"

text \<open>The bit of block \<open>bi\<close> in a bitmap block.\<close>

definition bm_used :: "bytes \<Rightarrow> nat \<Rightarrow> bool" where
  "bm_used d bi = bit (d ! (bi div 8)) (bi mod 8)"

definition bm_set :: "bytes \<Rightarrow> nat \<Rightarrow> bytes" where
  "bm_set d bi = d[bi div 8 := (d ! (bi div 8)) OR push_bit (bi mod 8) 1]"

definition bm_clear :: "bytes \<Rightarrow> nat \<Rightarrow> bytes" where
  "bm_clear d bi = d[bi div 8 := (d ! (bi div 8)) AND NOT (push_bit (bi mod 8) 1)]"

fun balloc_loop :: "uint \<Rightarrow> nat list \<Rightarrow> (uint, 'b) fop" where
  "balloc_loop dev [] = panic ''balloc: out of blocks''"
| "balloc_loop dev (b # bs) = bnd (gets sb) (\<lambda>sb.
     bnd (bread dev (BBLOCK (of_nat b) sb)) (\<lambda>bp. bnd (bdata bp) (\<lambda>d.
     case List.find (\<lambda>bi. \<not> bm_used d bi) [0..<min BPB (unat (sb_size sb) - b)] of
       Some bi \<Rightarrow> seq (set_bdata bp (bm_set d bi)) (seq (log_write bp) (seq (brelse bp)
         (seq (bzero dev (of_nat (b + bi))) (ret (of_nat (b + bi))))))
     | None \<Rightarrow> seq (brelse bp) (balloc_loop dev bs))))"

definition balloc :: "uint \<Rightarrow> (uint, 'b) fop" where
  "balloc dev = bnd (gets sb) (\<lambda>sb. balloc_loop dev (map (\<lambda>k. BPB * k) [0..<(unat (sb_size sb) + BPB - 1) div BPB]))"

definition bfree :: "uint \<Rightarrow> uint \<Rightarrow> (unit, 'b) fop" where
  "bfree dev b = bnd (readsb dev) (\<lambda>sb'. seq (modify (\<lambda>s. s\<lparr>sb := sb'\<rparr>))
     (bnd (bread dev (BBLOCK b sb')) (\<lambda>bp. bnd (bdata bp) (\<lambda>d. let bi = unat b mod BPB in
     if \<not> bm_used d bi then panic ''freeing free block''
     else seq (set_bdata bp (bm_clear d bi)) (seq (log_write bp) (brelse bp))))))"

subsection \<open>Inodes\<close>

definition iinit :: "uint \<Rightarrow> (unit, 'b) fop" where
  "iinit dev = seq (forM [0..<NINODE] (\<lambda>i. initsleeplock (SL_inode i)))
     (bnd (readsb dev) (\<lambda>sb'. modify (\<lambda>s. s\<lparr>sb := sb'\<rparr>)))"

definition iget :: "uint \<Rightarrow> uint \<Rightarrow> (nat, 'b) fop" where
  "iget dev inum = seq (acquire L_icache) (bnd (gets inodes) (\<lambda>is.
     case find_index (\<lambda>p. i_ref p > 0 \<and> i_dev p = dev \<and> i_inum p = inum) is of
       Some i \<Rightarrow> seq (modify (iset i (\<lambda>p. p\<lparr>i_ref := i_ref p + 1\<rparr>))) (seq (release L_icache) (ret i))
     | None \<Rightarrow> (case find_index (\<lambda>p. i_ref p = 0) is of
         None \<Rightarrow> panic ''iget: no inodes''
       | Some i \<Rightarrow> seq (modify (iset i (\<lambda>p. p\<lparr>i_dev := dev, i_inum := inum, i_ref := 1, i_valid := False\<rparr>)))
           (seq (release L_icache) (ret i)))))"

definition zero_dinode :: "ushort \<Rightarrow> dinode" where
  "zero_dinode ty = \<lparr>d_type = ty, d_major = 0, d_minor = 0, d_nlink = 0, d_size = 0, d_addrs = replicate (NDIRECT + 3) 0\<rparr>"

fun ialloc_loop :: "uint \<Rightarrow> ushort \<Rightarrow> nat list \<Rightarrow> (nat, 'b) fop" where
  "ialloc_loop dev ty [] = panic ''ialloc: no inodes''"
| "ialloc_loop dev ty (n # ns) = bnd (gets sb) (\<lambda>sb.
     bnd (bread dev (IBLOCK (of_nat n) sb)) (\<lambda>bp. bnd (bdata bp) (\<lambda>d.
     if d_type (dinode_at d (dioff (of_nat n))) = 0
     then seq (set_bdata bp (splice d (dioff (of_nat n)) (enc_dinode (zero_dinode ty))))
       (seq (log_write bp) (seq (brelse bp) (iget dev (of_nat n))))
     else seq (brelse bp) (ialloc_loop dev ty ns))))"

definition ialloc :: "uint \<Rightarrow> ushort \<Rightarrow> (nat, 'b) fop" where
  "ialloc dev ty = bnd (gets sb) (\<lambda>sb. ialloc_loop dev ty [1..<unat (sb_ninodes sb)])"

definition to_dinode :: "inode \<Rightarrow> dinode" where
  "to_dinode ip = \<lparr>d_type = i_type ip, d_major = i_major ip, d_minor = i_minor ip, d_nlink = i_nlink ip,
     d_size = i_size ip, d_addrs = i_addrs ip\<rparr>"

definition iupdate :: "nat \<Rightarrow> (unit, 'b) fop" where
  "iupdate i = bnd (gets (iget_inode i)) (\<lambda>ip. bnd (gets sb) (\<lambda>sb.
     bnd (bread (i_dev ip) (IBLOCK (i_inum ip) sb)) (\<lambda>bp. bnd (bdata bp) (\<lambda>d.
     seq (set_bdata bp (splice d (dioff (i_inum ip)) (enc_dinode (to_dinode ip))))
     (seq (log_write bp) (brelse bp))))))"

definition idup :: "nat \<Rightarrow> (nat, 'b) fop" where
  "idup i = seq (acquire L_icache) (seq (modify (iset i (\<lambda>p. p\<lparr>i_ref := i_ref p + 1\<rparr>))) (seq (release L_icache) (ret i)))"

definition load_inode :: "dinode \<Rightarrow> inode \<Rightarrow> inode" where
  "load_inode x p = p\<lparr>i_type := d_type x, i_major := d_major x, i_minor := d_minor x, i_nlink := d_nlink x,
     i_size := d_size x, i_addrs := d_addrs x\<rparr>"

text \<open>\<open>ilock\<close> from the point where the sleep lock is held; a thread that slept for the lock goes on here.\<close>

definition ilock_read :: "nat \<Rightarrow> (unit, 'b) fop" where
  "ilock_read i = bnd (gets (iget_inode i)) (\<lambda>ip. whenM (\<not> i_valid ip)
     (bnd (gets sb) (\<lambda>sb. bnd (bread (i_dev ip) (IBLOCK (i_inum ip) sb)) (\<lambda>bp. bnd (bdata bp) (\<lambda>d.
     seq (modify (iset i (load_inode (dinode_at d (dioff (i_inum ip))))))
     (seq (brelse bp) (seq (modify (iset i (\<lambda>p. p\<lparr>i_valid := True\<rparr>)))
     (bnd (gets (iget_inode i)) (\<lambda>ip. if i_type ip = 0 then panic ''ilock: no type'' else ret ())))))))))"

definition ilock :: "nat option \<Rightarrow> (unit, 'b) fop" where
  "ilock p = (case p of None \<Rightarrow> panic ''ilock'' | Some i \<Rightarrow> bnd (gets (iget_inode i)) (\<lambda>ip.
     if i_ref ip < 1 then panic ''ilock'' else seq (acquiresleep (SL_inode i)) (ilock_read i)))"

definition iunlock :: "nat option \<Rightarrow> (unit, 'b) fop" where
  "iunlock p = (case p of None \<Rightarrow> panic ''iunlock'' | Some i \<Rightarrow> bnd (holdingsleep (SL_inode i)) (\<lambda>h.
     bnd (gets (iget_inode i)) (\<lambda>ip. if \<not> h \<or> i_ref ip < 1 then panic ''iunlock'' else releasesleep (SL_inode i))))"

subsection \<open>Inode contents\<close>

text \<open>\<open>if((addr = ip->addrs[k]) == 0) ip->addrs[k] = addr = balloc(ip->dev);\<close>\<close>

definition addr_slot :: "nat \<Rightarrow> nat \<Rightarrow> (uint, 'b) fop" where
  "addr_slot i k = bnd (gets (iget_inode i)) (\<lambda>ip. if i_addrs ip ! k = 0
     then bnd (balloc (i_dev ip)) (\<lambda>addr. seq (modify (iset i (\<lambda>p. p\<lparr>i_addrs := (i_addrs p)[k := addr]\<rparr>))) (ret addr))
     else ret (i_addrs ip ! k))"

text \<open>The steps through a block of addresses: read it, allocate the entry if it is 0, release the block.\<close>

definition table_slot :: "uint \<Rightarrow> uint \<Rightarrow> nat \<Rightarrow> (uint, 'b) fop" where
  "table_slot dev addr k = bnd (bread dev addr) (\<lambda>bp. bnd (bdata bp) (\<lambda>d.
     if word_at d (4 * k) = 0
     then bnd (balloc dev) (\<lambda>addr. bnd (bdata bp) (\<lambda>d. seq (set_bdata bp (splice d (4 * k) (le32 addr)))
       (seq (log_write bp) (seq (brelse bp) (ret addr)))))
     else seq (brelse bp) (ret (word_at d (4 * k)))))"

definition bmap :: "nat \<Rightarrow> nat \<Rightarrow> (uint, 'b) fop" where
  "bmap i bn = bnd (gets (\<lambda>s. i_dev (iget_inode i s))) (\<lambda>dev.
     if bn < NDIRECT then addr_slot i bn
     else let bn = bn - NDIRECT in
     if bn < NINDIRECT then bnd (addr_slot i NDIRECT) (\<lambda>addr. table_slot dev addr bn)
     else let bn = bn - NINDIRECT in
     if bn < NDOUBINDIRECT then bnd (addr_slot i (NDIRECT + 1)) (\<lambda>addr.
       bnd (table_slot dev addr (bn div NINDIRECT)) (\<lambda>addr. table_slot dev addr (bn mod NINDIRECT)))
     else let bn = bn - NDOUBINDIRECT in
     if bn < NTRIPINDIRECT then bnd (addr_slot i (NDIRECT + 2)) (\<lambda>addr.
       bnd (table_slot dev addr (bn div NDOUBINDIRECT)) (\<lambda>addr. let tmp = bn mod NDOUBINDIRECT in
       bnd (table_slot dev addr (tmp div NINDIRECT)) (\<lambda>addr. table_slot dev addr (tmp mod NINDIRECT))))
     else panic ''bmap: out of range'')"

text \<open>
  Freeing what a block of addresses refers to: with \<open>lev = 0\<close> its entries are data blocks, with \<open>lev = n + 1\<close> they are again
  blocks of addresses, each read, walked and released before its own block is freed.
\<close>

fun free_table :: "nat \<Rightarrow> uint \<Rightarrow> uint \<Rightarrow> (unit, 'b) fop" where
  "free_table 0 dev addr = bnd (bread dev addr) (\<lambda>bp.
     seq (forM [0..<NINDIRECT] (\<lambda>j. bnd (bdata bp) (\<lambda>a. whenM (word_at a (4 * j) \<noteq> 0) (bfree dev (word_at a (4 * j))))))
     (seq (brelse bp) (bfree dev addr)))"
| "free_table (Suc lev) dev addr = bnd (bread dev addr) (\<lambda>bp.
     seq (forM [0..<NINDIRECT] (\<lambda>j. bnd (bdata bp) (\<lambda>a. whenM (word_at a (4 * j) \<noteq> 0) (free_table lev dev (word_at a (4 * j))))))
     (seq (brelse bp) (bfree dev addr)))"

definition itrunc_slot :: "nat \<Rightarrow> nat \<Rightarrow> (uint \<Rightarrow> uint \<Rightarrow> (unit, 'b) fop) \<Rightarrow> (unit, 'b) fop" where
  "itrunc_slot i k f = bnd (gets (iget_inode i)) (\<lambda>ip. whenM (i_addrs ip ! k \<noteq> 0)
     (seq (f (i_dev ip) (i_addrs ip ! k)) (modify (iset i (\<lambda>p. p\<lparr>i_addrs := (i_addrs p)[k := 0]\<rparr>)))))"

definition itrunc :: "nat \<Rightarrow> (unit, 'b) fop" where
  "itrunc i = seq (forM [0..<NDIRECT] (\<lambda>k. itrunc_slot i k bfree))
     (seq (itrunc_slot i NDIRECT (free_table 0))
     (seq (itrunc_slot i (NDIRECT + 1) (free_table 1))
     (seq (itrunc_slot i (NDIRECT + 2) (free_table 2))
     (seq (modify (iset i (\<lambda>p. p\<lparr>i_size := 0\<rparr>))) (iupdate i)))))"

text \<open>The part of \<open>iput\<close> that runs with the inode's sleep lock held.\<close>

definition iput_locked :: "nat \<Rightarrow> (unit, 'b) fop" where
  "iput_locked i = seq (bnd (gets (iget_inode i)) (\<lambda>ip. whenM (i_valid ip \<and> i_nlink ip = 0)
       (seq (acquire L_icache) (bnd (gets (\<lambda>s. i_ref (iget_inode i s))) (\<lambda>r. seq (release L_icache)
       (whenM (r = 1) (seq (itrunc i) (seq (modify (iset i (\<lambda>p. p\<lparr>i_type := 0\<rparr>)))
         (seq (iupdate i) (modify (iset i (\<lambda>p. p\<lparr>i_valid := False\<rparr>))))))))))))
     (seq (releasesleep (SL_inode i))
     (seq (acquire L_icache) (seq (modify (iset i (\<lambda>p. p\<lparr>i_ref := i_ref p - 1\<rparr>))) (release L_icache))))"

definition iput :: "nat \<Rightarrow> (unit, 'b) fop" where
  "iput i = seq (acquiresleep (SL_inode i)) (iput_locked i)"

definition iunlockput :: "nat \<Rightarrow> (unit, 'b) fop" where
  "iunlockput i = seq (iunlock (Some i)) (iput i)"

record stat =
  st_type :: ushort
  st_dev :: uint
  st_ino :: uint
  st_nlink :: ushort
  st_size :: uint

definition stati :: "nat \<Rightarrow> (stat, 'b) fop" where
  "stati i = bnd (gets (iget_inode i)) (\<lambda>ip. ret \<lparr>st_type = i_type ip, st_dev = i_dev ip, st_ino = i_inum ip,
     st_nlink = i_nlink ip, st_size = i_size ip\<rparr>)"

text \<open>The copy loops of \<open>readi\<close> and \<open>writei\<close>; \<open>n\<close> bytes are left.\<close>

function readi_loop :: "nat \<Rightarrow> nat \<Rightarrow> nat \<Rightarrow> (bytes, 'b) fop" where
  "readi_loop i off n = (if n = 0 then ret [] else
     let m = min n (BSIZE - off mod BSIZE) in
     bnd (bmap i (off div BSIZE)) (\<lambda>a. bnd (gets (\<lambda>s. i_dev (iget_inode i s))) (\<lambda>dev. bnd (bread dev a) (\<lambda>bp.
     bnd (bdata bp) (\<lambda>d. seq (brelse bp) (bnd (readi_loop i (off + m) (n - m)) (\<lambda>r.
     ret (slice d (off mod BSIZE) m @ r))))))))"
  by pat_completeness auto
termination by (relation "measure (\<lambda>(_, _, n). n)") (auto simp: BSIZE_def)

definition readi :: "nat \<Rightarrow> uint \<Rightarrow> uint \<Rightarrow> (int \<times> bytes, 'b) fop" where
  "readi i off n = bnd (gets (iget_inode i)) (\<lambda>ip.
     if i_type ip = T_DEV then
       (if sint (i_major ip) < 0 \<or> sint (i_major ip) \<ge> NDEV then ret (- 1, [])
        else bnd (gets (\<lambda>s. devsw_read s (sint (i_major ip)))) (\<lambda>f. case f of None \<Rightarrow> ret (- 1, []) | Some g \<Rightarrow> ret (g n)))
     else if off > i_size ip \<or> off + n < off then ret (- 1, [])
     else let n = (if off + n > i_size ip then i_size ip - off else n) in
       bnd (readi_loop i (unat off) (unat n)) (\<lambda>r. ret (sint n, r)))"

function writei_loop :: "nat \<Rightarrow> nat \<Rightarrow> bytes \<Rightarrow> (unit, 'b) fop" where
  "writei_loop i off src = (if src = [] then ret () else
     let m = min (length src) (BSIZE - off mod BSIZE) in
     bnd (bmap i (off div BSIZE)) (\<lambda>a. bnd (gets (\<lambda>s. i_dev (iget_inode i s))) (\<lambda>dev. bnd (bread dev a) (\<lambda>bp.
     bnd (bdata bp) (\<lambda>d. seq (set_bdata bp (splice d (off mod BSIZE) (take m src)))
     (seq (log_write bp) (seq (brelse bp) (writei_loop i (off + m) (drop m src)))))))))"
  by pat_completeness auto
termination by (relation "measure (\<lambda>(_, _, src). length src)") (auto simp: BSIZE_def)

declare readi_loop.simps [simp del] writei_loop.simps [simp del]

definition writei :: "nat \<Rightarrow> bytes \<Rightarrow> uint \<Rightarrow> uint \<Rightarrow> (int, 'b) fop" where
  "writei i src off n = bnd (gets (iget_inode i)) (\<lambda>ip.
     if i_type ip = T_DEV then
       (if sint (i_major ip) < 0 \<or> sint (i_major ip) \<ge> NDEV then ret (- 1)
        else bnd (gets (\<lambda>s. devsw_write s (sint (i_major ip)))) (\<lambda>f. case f of None \<Rightarrow> ret (- 1) | Some g \<Rightarrow> ret (g (take (unat n) src))))
     else if off + n < off then ret (- 1)
     else if off + n > of_nat (MAXFILE * BSIZE) then ret (- 1)
     else seq (writei_loop i (unat off) (take (unat n) src))
       (seq (bnd (gets (iget_inode i)) (\<lambda>ip. whenM (n > 0 \<and> off + n > i_size ip)
         (seq (modify (iset i (\<lambda>p. p\<lparr>i_size := off + n\<rparr>))) (iupdate i))))
       (ret (sint n))))"

subsection \<open>Directories\<close>

definition namecmp :: "bytes \<Rightarrow> bytes \<Rightarrow> int" where
  "namecmp s t = strncmp s t DIRSIZ"

definition de_inum :: "bytes \<Rightarrow> ushort" where
  "de_inum de = un16 (slice de 0 2)"

definition de_name :: "bytes \<Rightarrow> bytes" where
  "de_name de = slice de 2 DIRSIZ"

text \<open>The offsets \<open>0, 16, ...\<close> below the size of a directory.\<close>

definition dir_offs :: "uint \<Rightarrow> nat list" where
  "dir_offs sz = map (\<lambda>k. 16 * k) [0..<(unat sz + 15) div 16]"

fun dirlookup_loop :: "nat \<Rightarrow> bytes \<Rightarrow> nat list \<Rightarrow> ((nat \<times> uint) option, 'b) fop" where
  "dirlookup_loop dp name [] = ret None"
| "dirlookup_loop dp name (off # offs) = bnd (readi dp (of_nat off) 16) (\<lambda>(r, de).
     if r \<noteq> 16 then panic ''dirlookup read''
     else if de_inum de = 0 then dirlookup_loop dp name offs
     else if namecmp name (de_name de) = 0
     then bnd (gets (\<lambda>s. i_dev (iget_inode dp s))) (\<lambda>dev. bnd (iget dev (ucast (de_inum de))) (\<lambda>ip. ret (Some (ip, of_nat off))))
     else dirlookup_loop dp name offs)"

definition dirlookup :: "nat \<Rightarrow> bytes \<Rightarrow> ((nat \<times> uint) option, 'b) fop" where
  "dirlookup dp name = bnd (gets (iget_inode dp)) (\<lambda>ip. if i_type ip \<noteq> T_DIR then panic ''dirlookup not DIR''
     else dirlookup_loop dp name (dir_offs (i_size ip)))"

text \<open>The offset at which the scan for an empty entry stops: the first free entry, or the end of the scan.\<close>

fun dirfree_loop :: "nat \<Rightarrow> nat \<Rightarrow> nat list \<Rightarrow> (nat, 'b) fop" where
  "dirfree_loop dp fin [] = ret fin"
| "dirfree_loop dp fin (off # offs) = bnd (readi dp (of_nat off) 16) (\<lambda>(r, de).
     if r \<noteq> 16 then panic ''dirlink read''
     else if de_inum de = 0 then ret off else dirfree_loop dp fin offs)"

definition dirlink :: "nat \<Rightarrow> bytes \<Rightarrow> uint \<Rightarrow> (int, 'b) fop" where
  "dirlink dp name inum = bnd (dirlookup dp name) (\<lambda>x. case x of
     Some (ip, _) \<Rightarrow> seq (iput ip) (ret (- 1))
   | None \<Rightarrow> bnd (gets (\<lambda>s. i_size (iget_inode dp s))) (\<lambda>sz.
       bnd (dirfree_loop dp (16 * length (dir_offs sz)) (dir_offs sz)) (\<lambda>off.
       bnd (writei dp (le16 (ucast inum) @ strncpy (replicate DIRSIZ 0) name DIRSIZ) (of_nat off) 16) (\<lambda>r.
       if r \<noteq> 16 then panic ''dirlink'' else ret 0))))"

subsection \<open>Paths\<close>

abbreviation SLASH :: uchar where "SLASH \<equiv> 47"

text \<open>A path is a string without its NUL; the result is the element, cut to the length of a directory name, and the rest.\<close>

definition skipelem :: "bytes \<Rightarrow> (bytes \<times> bytes) option" where
  "skipelem path = (let p = dropWhile (\<lambda>c. c = SLASH) path in
     if p = [] then None
     else let el = takeWhile (\<lambda>c. c \<noteq> SLASH) p in
       Some (take DIRSIZ el, dropWhile (\<lambda>c. c = SLASH) (drop (length el) p)))"

lemma skipelem_shorter: "skipelem path = Some (name, rest) \<Longrightarrow> length rest < length path"
proof -
  assume a: "skipelem path = Some (name, rest)"
  let ?p = "dropWhile (\<lambda>c. c = SLASH) path"
  let ?e = "takeWhile (\<lambda>c. c \<noteq> SLASH) ?p"
  have p: "?p \<noteq> []" "rest = dropWhile (\<lambda>c. c = SLASH) (drop (length ?e) ?p)"
    using a by (auto simp: skipelem_def Let_def split: if_splits)
  have "hd ?p \<noteq> SLASH" using p(1) hd_dropWhile by fast
  then have "?e \<noteq> []" using p(1) by (cases ?p) auto
  then have "length (drop (length ?e) ?p) < length ?p" using p(1) by simp
  moreover have "length rest \<le> length (drop (length ?e) ?p)" unfolding p(2) by (rule length_dropWhile_le)
  moreover have "length ?p \<le> length path" by (rule length_dropWhile_le)
  ultimately show ?thesis by linarith
qed

text \<open>The loop of \<open>namex\<close>; the path gets shorter in every round.\<close>

function namex_loop :: "bool \<Rightarrow> nat \<Rightarrow> bytes \<Rightarrow> ((nat \<times> bytes) option, 'b) fop" where
  "namex_loop par ip path = (case skipelem path of
     None \<Rightarrow> if par then seq (iput ip) (ret None) else ret (Some (ip, []))
   | Some (name, rest) \<Rightarrow> seq (ilock (Some ip)) (bnd (gets (\<lambda>s. i_type (iget_inode ip s))) (\<lambda>ty.
       if ty \<noteq> T_DIR then seq (iunlockput ip) (ret None)
       else if par \<and> rest = [] then seq (iunlock (Some ip)) (ret (Some (ip, name)))
       else bnd (dirlookup ip name) (\<lambda>x. case x of
         None \<Rightarrow> seq (iunlockput ip) (ret None)
       | Some (nxt, _) \<Rightarrow> seq (iunlockput ip) (namex_loop par nxt rest)))))"
  by pat_completeness auto
termination by (relation "measure (\<lambda>(_, _, p). length p)") (auto dest: skipelem_shorter)

declare namex_loop.simps [simp del]

definition namex :: "bytes \<Rightarrow> bool \<Rightarrow> ((nat \<times> bytes) option, 'b) fop" where
  "namex path par = bnd (if path \<noteq> [] \<and> hd path = SLASH then iget ROOTDEV ROOTINO
     else bnd curproc (\<lambda>p. bnd (gets (\<lambda>s. p_cwd (pget p s))) (\<lambda>c. bnd (deref c) idup))) (\<lambda>ip. namex_loop par ip path)"

definition namei :: "bytes \<Rightarrow> (nat option, 'b) fop" where
  "namei path = bnd (namex path False) (\<lambda>r. ret (map_option fst r))"

definition nameiparent :: "bytes \<Rightarrow> ((nat \<times> bytes) option, 'b) fop" where
  "nameiparent path = namex path True"

end
