(* ===== verification/Pipe.thy ===== *)
theory Pipe
  imports Fs
begin

text \<open>
  Pipes (pipe.c).  A pipe is a page from \<open>kalloc\<close> read as a \<open>struct pipe\<close>; \<open>pipes\<close> gives the structure at each page
  address.  \<open>nread\<close> and \<open>nwrite\<close> count bytes in 32 bits and wrap around.  An operation that goes to
  sleep ends in \<open>Swtch\<close>; its \<open>_wake\<close> definition is what the thread does when it is chosen again.
  A buffer of the caller is the list of the bytes it holds.
\<close>

definition PIPESIZE :: nat where
  "PIPESIZE = 512"

record pipe =
  pp_data :: bytes
  pp_nread :: uint
  pp_nwrite :: uint
  pp_readopen :: bool
  pp_writeopen :: bool

record pipest = fsst +
  pipes :: "uint \<Rightarrow> pipe"

type_synonym ('a, 'b) pop = "'b pipest_scheme \<Rightarrow> ('a, 'b pipest_scheme) res"

definition ppset :: "uint \<Rightarrow> (pipe \<Rightarrow> pipe) \<Rightarrow> 'b pipest_scheme \<Rightarrow> 'b pipest_scheme" where
  "ppset v f s = s\<lparr>pipes := (pipes s)(v := f (pipes s v))\<rparr>"

definition pipe_put :: "uchar \<Rightarrow> pipe \<Rightarrow> pipe" where
  "pipe_put c p = p\<lparr>pp_data := (pp_data p)[unat (pp_nwrite p) mod PIPESIZE := c], pp_nwrite := pp_nwrite p + 1\<rparr>"

definition pipe_get :: "pipe \<Rightarrow> uchar \<times> pipe" where
  "pipe_get p = (pp_data p ! (unat (pp_nread p) mod PIPESIZE), p\<lparr>pp_nread := pp_nread p + 1\<rparr>)"

definition pipe_full :: "pipe \<Rightarrow> bool" where
  "pipe_full p \<longleftrightarrow> pp_nwrite p = pp_nread p + of_nat PIPESIZE"

definition killed :: "(bool, 'b) kop" where
  "killed = bnd curproc (\<lambda>i. gets (\<lambda>s. p_killed (pget i s)))"

definition pipeclose :: "uint \<Rightarrow> bool \<Rightarrow> (unit, 'b) pop" where
  "pipeclose v writable = seq (acquire (L_pipe v))
     (seq (if writable then seq (modify (ppset v (\<lambda>p. p\<lparr>pp_writeopen := False\<rparr>))) (wakeup (ChanPipeR v))
           else seq (modify (ppset v (\<lambda>p. p\<lparr>pp_readopen := False\<rparr>))) (wakeup (ChanPipeW v)))
     (bnd (gets (\<lambda>s. pipes s v)) (\<lambda>p.
       if \<not> pp_readopen p \<and> \<not> pp_writeopen p then seq (release (L_pipe v)) (kfree v) else release (L_pipe v))))"

text \<open>The loop of \<open>pipewrite\<close> over the bytes that are left: whether it got to the end of them.\<close>

fun pipewrite_loop :: "uint \<Rightarrow> bytes \<Rightarrow> (bool, 'b) pop" where
  "pipewrite_loop v [] = ret True"
| "pipewrite_loop v (c # cs) = bnd (gets (\<lambda>s. pipes s v)) (\<lambda>p.
     if pipe_full p then
       bnd (if pp_readopen p then killed else ret True) (\<lambda>stop.
         if stop then seq (release (L_pipe v)) (ret False)
         else seq (wakeup (ChanPipeR v)) (seq (sleep (ChanPipeW v) (Some (L_pipe v))) (ret False)))
     else seq (modify (ppset v (pipe_put c))) (pipewrite_loop v cs))"

definition pipewrite_rest :: "uint \<Rightarrow> bytes \<Rightarrow> int \<Rightarrow> (int, 'b) pop" where
  "pipewrite_rest v cs n = bnd (pipewrite_loop v cs) (\<lambda>done.
     if done then seq (wakeup (ChanPipeR v)) (seq (release (L_pipe v)) (ret n)) else ret (- 1))"

definition pipewrite :: "uint \<Rightarrow> bytes \<Rightarrow> int \<Rightarrow> (int, 'b) pop" where
  "pipewrite v addr n = seq (acquire (L_pipe v)) (pipewrite_rest v (take (nat n) addr) n)"

definition pipewrite_wake :: "uint \<Rightarrow> bytes \<Rightarrow> int \<Rightarrow> (int, 'b) pop" where
  "pipewrite_wake v cs n = bnd curproc (\<lambda>i. seq (sleep_resume (L_pipe v) i) (pipewrite_rest v cs n))"

fun piperead_loop :: "uint \<Rightarrow> nat \<Rightarrow> (bytes, 'b) pop" where
  "piperead_loop v 0 = ret []"
| "piperead_loop v (Suc n) = bnd (gets (\<lambda>s. pipes s v)) (\<lambda>p.
     if pp_nread p = pp_nwrite p then ret []
     else seq (modify (ppset v (\<lambda>p. snd (pipe_get p)))) (bnd (piperead_loop v n) (\<lambda>r. ret (fst (pipe_get p) # r))))"

definition piperead_wait :: "uint \<Rightarrow> int \<Rightarrow> (int \<times> bytes, 'b) pop" where
  "piperead_wait v n = bnd (gets (\<lambda>s. pipes s v)) (\<lambda>p.
     if pp_nread p = pp_nwrite p \<and> pp_writeopen p then
       bnd killed (\<lambda>stop. if stop then seq (release (L_pipe v)) (ret (- 1, []))
         else seq (sleep (ChanPipeR v) (Some (L_pipe v))) (ret (- 1, [])))
     else bnd (piperead_loop v (nat n)) (\<lambda>r.
       seq (wakeup (ChanPipeW v)) (seq (release (L_pipe v)) (ret (int (length r), r)))))"

definition piperead :: "uint \<Rightarrow> int \<Rightarrow> (int \<times> bytes, 'b) pop" where
  "piperead v n = seq (acquire (L_pipe v)) (piperead_wait v n)"

definition piperead_wake :: "uint \<Rightarrow> int \<Rightarrow> (int \<times> bytes, 'b) pop" where
  "piperead_wake v n = bnd curproc (\<lambda>i. seq (sleep_resume (L_pipe v) i) (piperead_wait v n))"

subsection \<open>The contract of a bounded queue\<close>

locale bounded_queue =
  fixes inv :: "'q \<Rightarrow> bool"
    and items :: "'q \<Rightarrow> 'a list"
    and cap :: nat
    and put :: "'a \<Rightarrow> 'q \<Rightarrow> 'q"
    and get :: "'q \<Rightarrow> 'a \<times> 'q"
  assumes bounded: "inv q \<Longrightarrow> length (items q) \<le> cap"
    and put_items: "inv q \<Longrightarrow> length (items q) < cap \<Longrightarrow> inv (put c q) \<and> items (put c q) = items q @ [c]"
    and get_items: "inv q \<Longrightarrow> items q \<noteq> [] \<Longrightarrow> inv (snd (get q)) \<and> items q = fst (get q) # items (snd (get q))"
begin

lemma put_all:
  "inv q \<Longrightarrow> length (items q) + length cs \<le> cap \<Longrightarrow> inv (fold put cs q) \<and> items (fold put cs q) = items q @ cs"
  by (induction cs arbitrary: q) (auto simp: put_items)

lemma get_next: "inv q \<Longrightarrow> items q = c # cs \<Longrightarrow> fst (get q) = c \<and> inv (snd (get q)) \<and> items (snd (get q)) = cs"
  using get_items[of q] by auto

end

subsection \<open>The ring buffer of a pipe\<close>

definition pipe_ok :: "pipe \<Rightarrow> bool" where
  "pipe_ok p \<longleftrightarrow> length (pp_data p) = PIPESIZE \<and> unat (pp_nwrite p - pp_nread p) \<le> PIPESIZE"

definition contents :: "pipe \<Rightarrow> bytes" where
  "contents p = map (\<lambda>k. pp_data p ! ((unat (pp_nread p) + k) mod PIPESIZE)) [0..<unat (pp_nwrite p - pp_nread p)]"

lemma length_contents [simp]: "length (contents p) = unat (pp_nwrite p - pp_nread p)"
  by (simp add: contents_def)

lemma unat_mod_pipesize: "unat (x + y :: uint) mod PIPESIZE = (unat x + unat y) mod PIPESIZE"
proof -
  have "PIPESIZE dvd 2 ^ 32" by (simp add: PIPESIZE_def)
  then show ?thesis by (simp add: unat_word_ariths mod_mod_cancel)
qed

lemma nwrite_index: "unat (pp_nwrite p) mod PIPESIZE = (unat (pp_nread p) + unat (pp_nwrite p - pp_nread p)) mod PIPESIZE"
  using unat_mod_pipesize[of "pp_nread p" "pp_nwrite p - pp_nread p"] by simp

lemma ring_distinct:
  assumes "k < m" "m < PIPESIZE"
  shows "(a + k) mod PIPESIZE \<noteq> (a + m) mod PIPESIZE"
proof
  assume "(a + k) mod PIPESIZE = (a + m) mod PIPESIZE"
  then have "PIPESIZE dvd (a + m) - (a + k)" using assms by (metis mod_eq_dvd_iff_nat add_le_cancel_left less_imp_le_nat)
  then show False using assms by (auto dest: dvd_imp_le)
qed

lemma unat_succ_diff: "unat (w - r :: uint) < PIPESIZE \<Longrightarrow> unat (w + 1 - r) = Suc (unat (w - r))"
proof -
  assume "unat (w - r) < PIPESIZE"
  then have "unat ((w - r) + 1) = Suc (unat (w - r))" by (simp add: unat_word_ariths PIPESIZE_def)
  moreover have "w + 1 - r = (w - r) + 1" by simp
  ultimately show ?thesis by metis
qed

lemma pipe_put_contents:
  assumes "pipe_ok p" "length (contents p) < PIPESIZE"
  shows "pipe_ok (pipe_put c p)" "contents (pipe_put c p) = contents p @ [c]"
proof -
  let ?m = "unat (pp_nwrite p - pp_nread p)"
  have m: "?m < PIPESIZE" "unat (pp_nwrite p + 1 - pp_nread p) = Suc ?m" using assms(2) unat_succ_diff by auto
  show "pipe_ok (pipe_put c p)" using assms(1) m by (simp add: pipe_ok_def pipe_put_def)
  have "(unat (pp_nread p) + ?m) mod PIPESIZE < length (pp_data p)" using assms(1) by (simp add: pipe_ok_def PIPESIZE_def)
  moreover have "map (\<lambda>k. (pp_data p)[(unat (pp_nread p) + ?m) mod PIPESIZE := c] ! ((unat (pp_nread p) + k) mod PIPESIZE)) [0..<?m] = contents p"
    unfolding contents_def by (rule map_cong[OF refl]) (metis atLeastLessThan_iff atLeastLessThan_upt nth_list_update_neq ring_distinct[OF _ m(1)])
  ultimately show "contents (pipe_put c p) = contents p @ [c]"
    unfolding contents_def[of "pipe_put c p"] by (simp add: pipe_put_def m(2) nwrite_index)
qed

lemma pipe_get_contents:
  assumes "pipe_ok p" "contents p \<noteq> []"
  shows "pipe_ok (snd (pipe_get p))" "contents p = fst (pipe_get p) # contents (snd (pipe_get p))"
proof -
  let ?m = "unat (pp_nwrite p - pp_nread p)" and ?q = "snd (pipe_get p)"
  have "?m \<noteq> 0" using assms(2) by (metis length_0_conv length_contents)
  then have "pp_nwrite p - pp_nread p \<noteq> 0" by auto
  moreover have "pp_nwrite p - (pp_nread p + 1) = (pp_nwrite p - pp_nread p) - 1" by simp
  ultimately have m: "unat (pp_nwrite p - (pp_nread p + 1)) = ?m - 1" using unat_minus_one by metis
  have "?m - 1 \<le> PIPESIZE" "length (pp_data p) = PIPESIZE" using assms(1) by (auto simp: pipe_ok_def)
  moreover have q: "pp_nwrite ?q = pp_nwrite p" "pp_nread ?q = pp_nread p + 1" "pp_data ?q = pp_data p" by (simp_all add: pipe_get_def)
  ultimately show "pipe_ok ?q" unfolding pipe_ok_def q m by blast
  have s: "(unat (pp_nread p + 1) + k) mod PIPESIZE = (unat (pp_nread p) + Suc k) mod PIPESIZE" for k
  proof -
    have "(unat (pp_nread p + 1) + k) mod PIPESIZE = (unat (pp_nread p + 1) mod PIPESIZE + k) mod PIPESIZE" by (simp only: mod_add_left_eq)
    also have "\<dots> = (unat (pp_nread p) + 1 + k) mod PIPESIZE" unfolding unat_mod_pipesize by (simp add: mod_add_left_eq)
    finally show ?thesis by simp
  qed
  let ?F = "\<lambda>k. pp_data p ! ((unat (pp_nread p) + k) mod PIPESIZE)"
  have "contents ?q = map (?F \<circ> Suc) [0..<?m - 1]" unfolding contents_def[of ?q] q m s comp_def ..
  also have "\<dots> = map ?F [1..<?m]" unfolding map_map[symmetric] map_Suc_upt using \<open>?m \<noteq> 0\<close> by simp
  finally have r: "contents ?q = map ?F [1..<?m]" .
  have "[0..<?m] = 0 # [1..<?m]" using \<open>?m \<noteq> 0\<close> by (simp add: upt_conv_Cons)
  then have "contents p = ?F 0 # map ?F [1..<?m]" unfolding contents_def by simp
  then show "contents p = fst (pipe_get p) # contents ?q" unfolding r by (simp add: pipe_get_def)
qed

interpretation ring: bounded_queue pipe_ok contents PIPESIZE pipe_put pipe_get
  using pipe_put_contents pipe_get_contents by unfold_locales (auto simp: pipe_ok_def)

lemma pipe_full_iff: "pipe_full p \<longleftrightarrow> length (contents p) = PIPESIZE"
proof -
  have "pipe_full p \<longleftrightarrow> pp_nwrite p - pp_nread p = of_nat PIPESIZE" by (auto simp: pipe_full_def diff_eq_eq add.commute)
  also have "\<dots> \<longleftrightarrow> unat (pp_nwrite p - pp_nread p) = unat (of_nat PIPESIZE :: uint)" by (rule word_unat_eq_iff)
  also have "unat (of_nat PIPESIZE :: uint) = PIPESIZE" by (simp add: PIPESIZE_def)
  finally show ?thesis by simp
qed

lemma pipe_empty_iff: "pp_nread p = pp_nwrite p \<longleftrightarrow> contents p = []"
  using length_contents[of p] by (metis (no_types) length_0_conv right_minus_eq unat_0_iff)

subsection \<open>Writing and reading\<close>

lemma ppset_sel [simp]: "pipes (ppset v f s) = (pipes s)(v := f (pipes s v))" "held (ppset v f s) = held s" "ptable (ppset v f s) = ptable s"
  "c_proc (ppset v f s) = c_proc s" "ppset v f (ppset v g s) = ppset v (f \<circ> g) s"
  by (simp_all add: ppset_def)

lemma pmap_pipes [simp]: "pipes (pmap f s) = pipes s" "pipes (s\<lparr>held := h\<rparr>) = pipes s"
  by (simp_all add: pmap_def)

text \<open>As long as the bytes fit, the loop stores them all.\<close>

lemma ppset_id: "ppset v (\<lambda>p. p) s = s"
  by (simp add: ppset_def)

lemma pipewrite_loop_fits:
  "pipe_ok (pipes s v) \<Longrightarrow> length (contents (pipes s v)) + length cs \<le> PIPESIZE \<Longrightarrow>
    pipewrite_loop v (cs @ ds) s = pipewrite_loop v ds (ppset v (fold pipe_put cs) s)"
proof (induction cs arbitrary: s)
  case Nil
  then show ?case by (simp add: ppset_def id_def)
next
  case (Cons c cs)
  let ?s = "ppset v (pipe_put c) s"
  have l: "length (contents (pipes s v)) < PIPESIZE" using Cons.prems(2) by simp
  note p = pipe_put_contents[OF Cons.prems(1) l, of c]
  have "length (contents (pipes ?s v)) + length cs \<le> PIPESIZE" using Cons.prems(2) p(2) by simp
  moreover have "pipe_ok (pipes ?s v)" using p(1) by simp
  ultimately have "pipewrite_loop v (cs @ ds) ?s = pipewrite_loop v ds (ppset v (fold pipe_put cs \<circ> pipe_put c) s)"
    using Cons.IH[of ?s] by simp
  moreover have "\<not> pipe_full (pipes s v)" using l by (simp only: pipe_full_iff)
  ultimately show ?case by (simp add: comp_def)
qed

lemma piperead_loop_eq:
  "pipe_ok (pipes s v) \<Longrightarrow> \<exists>s'. piperead_loop v n s = Ok (take n (contents (pipes s v))) s' \<and> (\<exists>f. s' = ppset v f s) \<and>
    pipe_ok (pipes s' v) \<and> contents (pipes s' v) = drop n (contents (pipes s v))"
proof (induction n arbitrary: s)
  case 0
  then show ?case using ppset_id[of v s] by (intro exI[of _ s]) (auto intro!: exI[of _ "\<lambda>p. p"])
next
  case (Suc n)
  show ?case
  proof (cases "contents (pipes s v)")
    case Nil
    then have "pp_nread (pipes s v) = pp_nwrite (pipes s v)" by (simp only: pipe_empty_iff)
    then show ?thesis using Suc.prems Nil ppset_id[of v s] by (intro exI[of _ s]) (auto intro!: exI[of _ "\<lambda>p. p"])
  next
    case (Cons c cs)
    let ?s = "ppset v (\<lambda>p. snd (pipe_get p)) s"
    note g = ring.get_next[OF Suc.prems Cons]
    have "pipe_ok (pipes ?s v)" "contents (pipes ?s v) = cs" using g by simp_all
    with Suc.IH[of ?s] obtain s' f where s': "piperead_loop v n ?s = Ok (take n cs) s'" "s' = ppset v f ?s"
      "pipe_ok (pipes s' v)" "contents (pipes s' v) = drop n cs" by metis
    have ne: "pp_nread (pipes s v) \<noteq> pp_nwrite (pipes s v)" using Cons by (simp only: pipe_empty_iff) simp
    have "piperead_loop v (Suc n) s = Ok (c # take n cs) s'"
      using ne g bnd_Ok[of "piperead_loop v n" ?s, OF s'(1)] by simp
    moreover have "s' = ppset v (f \<circ> (\<lambda>p. snd (pipe_get p))) s" using s'(2) by simp
    ultimately show ?thesis using s'(3,4) Cons by (intro exI[of _ s']) auto
  qed
qed

lemma pipewrite_fits:
  assumes "held s = []" "pipe_ok (pipes s v)" "length (contents (pipes s v)) + length bs \<le> PIPESIZE"
  shows "\<exists>s'. pipewrite v bs (int (length bs)) s = Ok (int (length bs)) s' \<and> held s' = [] \<and> pipe_ok (pipes s' v) \<and>
    contents (pipes s' v) = contents (pipes s v) @ bs \<and> (\<forall>u. u \<noteq> v \<longrightarrow> pipes s' u = pipes s u) \<and>
    ptable s' = map (wake (ChanPipeR v)) (ptable s)"
proof -
  let ?t = "ppset v (fold pipe_put bs) (s\<lparr>held := [L_pipe v]\<rparr>)"
  have "pipewrite_loop v bs (s\<lparr>held := [L_pipe v]\<rparr>) = Ok True ?t"
    using pipewrite_loop_fits[of "s\<lparr>held := [L_pipe v]\<rparr>" v bs "[]"] assms(2,3) by simp
  note l = bnd_Ok[of "pipewrite_loop v bs", OF this]
  have "pipewrite v bs (int (length bs)) s = Ok (int (length bs)) ((pmap (wake (ChanPipeR v)) ?t)\<lparr>held := []\<rparr>)"
    using assms(1) by (simp add: pipewrite_def pipewrite_rest_def l seq_Ok wakeup_eq)
  then show ?thesis using ring.put_all[OF assms(2,3)] by (simp add: pmap_def)
qed

lemma piperead_ready:
  assumes "held s = []" "pipe_ok (pipes s v)" "contents (pipes s v) \<noteq> [] \<or> \<not> pp_writeopen (pipes s v)"
  shows "\<exists>s'. piperead v n s = Ok (int (length (take (nat n) (contents (pipes s v)))), take (nat n) (contents (pipes s v))) s' \<and>
    held s' = [] \<and> pipe_ok (pipes s' v) \<and> contents (pipes s' v) = drop (nat n) (contents (pipes s v)) \<and>
    (\<forall>u. u \<noteq> v \<longrightarrow> pipes s' u = pipes s u) \<and> ptable s' = map (wake (ChanPipeW v)) (ptable s)"
proof -
  let ?s = "s\<lparr>held := [L_pipe v]\<rparr>"
  obtain t f where t: "piperead_loop v (nat n) ?s = Ok (take (nat n) (contents (pipes s v))) t" "t = ppset v f ?s"
    "pipe_ok (pipes t v)" "contents (pipes t v) = drop (nat n) (contents (pipes s v))"
    using piperead_loop_eq[of ?s v "nat n"] assms(2) by auto
  note l = bnd_Ok[of "piperead_loop v (nat n)", OF t(1)]
  have ne: "\<not> (pp_nread (pipes s v) = pp_nwrite (pipes s v) \<and> pp_writeopen (pipes s v))" using assms(3) pipe_empty_iff by metis
  have h: "held t = [L_pipe v]" "ptable t = ptable s" "\<And>u. u \<noteq> v \<Longrightarrow> pipes t u = pipes s u" using t(2) by simp_all
  have "piperead v n s = Ok (int (length (take (nat n) (contents (pipes s v)))), take (nat n) (contents (pipes s v)))
      ((pmap (wake (ChanPipeW v)) t)\<lparr>held := []\<rparr>)"
    using assms(1) ne h(1) by (simp add: piperead_def piperead_wait_def l seq_Ok wakeup_eq) (auto simp: pmap_def)
  then show ?thesis using t(3,4) h by (simp add: pmap_def)
qed

text \<open>
  Claim C11. A pipe is a queue of bytes, also when its counters wrap around: what is written to a pipe with
  enough room is appended, and a later read gives back everything in the order in which it was written, empties the pipe, leaves the
  lock free and changes no other pipe.
\<close>

theorem pipe_fifo:
  assumes "held s = []" "pipe_ok (pipes s v)" "length (contents (pipes s v)) + length bs \<le> PIPESIZE" "bs \<noteq> []"
  shows "\<exists>s' s''. pipewrite v bs (int (length bs)) s = Ok (int (length bs)) s' \<and> contents (pipes s' v) = contents (pipes s v) @ bs \<and>
    piperead v (int PIPESIZE) s' = Ok (int (length (contents (pipes s v) @ bs)), contents (pipes s v) @ bs) s'' \<and>
    contents (pipes s'' v) = [] \<and> pipe_ok (pipes s'' v) \<and> held s'' = [] \<and> (\<forall>u. u \<noteq> v \<longrightarrow> pipes s'' u = pipes s u)"
proof -
  obtain t where t: "pipewrite v bs (int (length bs)) s = Ok (int (length bs)) t" "held t = []" "pipe_ok (pipes t v)"
    "contents (pipes t v) = contents (pipes s v) @ bs" "\<forall>u. u \<noteq> v \<longrightarrow> pipes t u = pipes s u" using pipewrite_fits[OF assms(1-3)] by blast
  have k: "take (nat (int PIPESIZE)) (contents (pipes s v) @ bs) = contents (pipes s v) @ bs"
    "drop (nat (int PIPESIZE)) (contents (pipes s v) @ bs) = []" using assms(3) by simp_all
  have "contents (pipes t v) \<noteq> []" using t(4) assms(4) by simp
  with piperead_ready[OF t(2,3), of "int PIPESIZE", unfolded t(4) k] t show ?thesis by metis
qed

definition pipest0 :: pipest where
  "pipest0 = \<lparr>held = [], intr = True, c_proc = Some 0, ptable = replicate NPROC proc0,
     ttable = [], initproc = None, nextpid = 1, nexttid = 0,
     ticks = 0, MLFQ_ticks = 0, MLFQPassVal = Fin 0, MLFQStrideVal = Fin 0, leftShare = Fin 100,
     checkpoint = 0, levturn = 0, cr3 = 0, ts_esp0 = 0, kpgdir = 0, forkret_first = True, yield_i = 0,
     mem = (\<lambda>_. 0), freelist = 0, use_lock = True, kend = 0x80200000, slocks = (\<lambda>_. \<lparr>sl_locked = False, sl_pid = 0\<rparr>),
     bufs = [], bnext = id, bprev = id, disk = (\<lambda>_. []), disksize = 0, wtrace = [],
     lg_start = 2, lg_size = 30, lg_outstanding = 0, lg_committing = False, lg_dev = 1, lh_n = 0, lh_block = [],
     sb = sb_of [], inodes = [], devsw_read = (\<lambda>_. None), devsw_write = (\<lambda>_. None),
     pipes = (\<lambda>_. \<lparr>pp_data = replicate PIPESIZE 0, pp_nread = - 1, pp_nwrite = - 1, pp_readopen = True, pp_writeopen = True\<rparr>)\<rparr>"

theorem pipe_fifo_witness:
  "\<exists>s' s''. pipewrite 0x80300000 [104, 105] 2 pipest0 = Ok 2 s' \<and> piperead 0x80300000 512 s' = Ok (2, [104, 105]) s''"
proof -
  have "contents (pipes pipest0 0x80300000) = []" "pipe_ok (pipes pipest0 0x80300000)" "held pipest0 = []"
    by (simp_all add: pipest0_def contents_def pipe_ok_def)
  then show ?thesis using pipe_fifo[of pipest0 "0x80300000" "[104, 105]"] by (auto simp: PIPESIZE_def)
qed

text \<open>
  Claim C32. A writer that fills the pipe stores exactly the bytes that fit, wakes the readers and goes to sleep on the pipe
  with the pipe lock given up.
\<close>

theorem pipewrite_full_sleeps:
  assumes "held s = []" "c_proc s = Some i" "i < length (ptable s)" "\<not> p_killed (pget i s)" "pipe_ok (pipes s v)"
    "pp_readopen (pipes s v)" "PIPESIZE < length (contents (pipes s v)) + length bs"
  shows "\<exists>s'. pipewrite v bs (int (length bs)) s = Swtch s' \<and> L_pipe v \<notin> set (held s') \<and>
    contents (pipes s' v) = contents (pipes s v) @ take (PIPESIZE - length (contents (pipes s v))) bs \<and>
    p_state (pget i s') = SLEEPING \<and> p_chan (pget i s') = ChanPipeW v \<and>
    (\<forall>j. j < length (ptable s) \<and> j \<noteq> i \<longrightarrow> pget j s' = wake (ChanPipeR v) (pget j s))"
proof -
  let ?k = "PIPESIZE - length (contents (pipes s v))"
  let ?s = "s\<lparr>held := [L_pipe v]\<rparr>" and ?cs = "take ?k bs"
  let ?t = "ppset v (fold pipe_put ?cs) ?s"
  let ?u = "pmap (wake (ChanPipeR v)) ?t"
  have c: "length (contents (pipes s v)) \<le> PIPESIZE" using assms(5) by (rule ring.bounded)
  obtain d ds where d: "bs = ?cs @ d # ds" using id_take_nth_drop[of ?k bs] assms(7) c by (metis less_diff_conv2 add.commute)
  have l: "length (contents (pipes s v)) + length ?cs \<le> PIPESIZE" "length ?cs = ?k" using c assms(7) by auto
  have p: "pipe_ok (fold pipe_put ?cs (pipes s v))" "contents (fold pipe_put ?cs (pipes s v)) = contents (pipes s v) @ ?cs"
    using ring.put_all[OF assms(5) l(1)] by blast+
  have "length (contents (fold pipe_put ?cs (pipes s v))) = PIPESIZE" unfolding p(2) using l(2) c by simp
  then have full: "pipe_full (pipes ?t v)" by (simp only: pipe_full_iff ppset_sel fun_upd_same pmap_pipes)
  have keep: "pp_readopen (fold pipe_put xs q) = pp_readopen q" for xs q by (induction xs arbitrary: q) (simp_all add: pipe_put_def)
  have k: "killed ?t = Ok False ?t" using assms(2,4) by (simp add: killed_def pget_def)
  have "sleep (ChanPipeW v) (Some (L_pipe v)) ?u =
      Swtch ((pset i (\<lambda>p. p\<lparr>p_chan := ChanPipeW v, p_state := SLEEPING\<rparr>) ?u)\<lparr>held := [L_ptable]\<rparr>)"
    using assms(2,3) by (intro sleep_eq) (simp_all add: pmap_def)
  then have "pipewrite_loop v (d # ds) ?t = Swtch ((pset i (\<lambda>p. p\<lparr>p_chan := ChanPipeW v, p_state := SLEEPING\<rparr>) ?u)\<lparr>held := [L_ptable]\<rparr>)"
    using full k assms(6) keep by (simp add: seq_Ok wakeup_eq bnd_def seq_def)
  moreover have "pipewrite_loop v bs ?s = pipewrite_loop v (d # ds) ?t"
    using pipewrite_loop_fits[of ?s v ?cs "d # ds"] assms(5) l(1) d by simp
  ultimately have "pipewrite v bs (int (length bs)) s =
      Swtch ((pset i (\<lambda>p. p\<lparr>p_chan := ChanPipeW v, p_state := SLEEPING\<rparr>) ?u)\<lparr>held := [L_ptable]\<rparr>)"
    using assms(1) by (simp add: pipewrite_def pipewrite_rest_def bnd_def)
  then show ?thesis using p(2) assms(3) by (auto simp: pset_def pmap_def pget_def)
qed

theorem pipewrite_full_sleeps_witness:
  "\<exists>s'. pipewrite 0x80300000 (replicate 513 7) 513 pipest0 = Swtch s' \<and> contents (pipes s' 0x80300000) = replicate 512 7"
proof -
  have c: "contents (pipes pipest0 0x80300000) = []" "pipe_ok (pipes pipest0 0x80300000)" "held pipest0 = []" "c_proc pipest0 = Some 0"
    "0 < length (ptable pipest0)" "\<not> p_killed (pget 0 pipest0)" "pp_readopen (pipes pipest0 0x80300000)"
    by (simp_all add: pipest0_def contents_def pipe_ok_def NPROC_def pget_def proc0_def)
  have "PIPESIZE < length (contents (pipes pipest0 0x80300000)) + length (replicate 513 (7 :: uchar))" by (simp add: c(1) PIPESIZE_def)
  from pipewrite_full_sleeps[OF c(3-6) c(2,7) this] show ?thesis unfolding c(1) PIPESIZE_def by auto
qed

end
