(* ===== verification/File.thy ===== *)
theory File
  imports Pipe
begin

text \<open>
  The table of open files (file.c) and \<open>pipealloc\<close> (pipe.c), on top of pipes and inodes.  \<open>filealloc\<close> and
  \<open>fileclose\<close> implement the allocator contract of theory Pool.
\<close>

definition NFILE :: nat where
  "NFILE = 100"

datatype fdtype = FD_NONE | FD_PIPE | FD_INODE

record struct_file =
  f_type :: fdtype
  f_ref :: int
  f_readable :: bool
  f_writable :: bool
  f_pipe :: uint
  f_ip :: nat
  f_off :: uint

record filest = pipest +
  ftable :: "struct_file list"

type_synonym ('a, 'b) ftop = "'b filest_scheme \<Rightarrow> ('a, 'b filest_scheme) res"

definition fget :: "nat \<Rightarrow> 'b filest_scheme \<Rightarrow> struct_file" where
  "fget f s = ftable s ! f"

definition fset :: "nat \<Rightarrow> (struct_file \<Rightarrow> struct_file) \<Rightarrow> 'b filest_scheme \<Rightarrow> 'b filest_scheme" where
  "fset f g s = s\<lparr>ftable := (ftable s)[f := g (ftable s ! f)]\<rparr>"

definition filealloc :: "(nat option, 'b) ftop" where
  "filealloc = seq (acquire L_ftable) (bnd (gets (\<lambda>s. find_index (\<lambda>f. f_ref f = 0) (ftable s))) (\<lambda>r.
     case r of None \<Rightarrow> seq (release L_ftable) (ret None)
     | Some f \<Rightarrow> seq (modify (fset f (\<lambda>x. x\<lparr>f_ref := 1\<rparr>))) (seq (release L_ftable) (ret (Some f)))))"

definition filedup :: "nat \<Rightarrow> (nat, 'b) ftop" where
  "filedup f = seq (acquire L_ftable) (bnd (gets (fget f)) (\<lambda>x.
     if f_ref x < 1 then panic ''filedup''
     else seq (modify (fset f (\<lambda>x. x\<lparr>f_ref := f_ref x + 1\<rparr>))) (seq (release L_ftable) (ret f))))"

definition fileclose :: "nat \<Rightarrow> (unit, 'b) ftop" where
  "fileclose f = seq (acquire L_ftable) (bnd (gets (fget f)) (\<lambda>x.
     if f_ref x < 1 then panic ''fileclose''
     else seq (modify (fset f (\<lambda>x. x\<lparr>f_ref := f_ref x - 1\<rparr>))) (bnd (gets (fget f)) (\<lambda>ff.
       if f_ref ff > 0 then release L_ftable
       else seq (modify (fset f (\<lambda>x. x\<lparr>f_ref := 0, f_type := FD_NONE\<rparr>))) (seq (release L_ftable)
         (case f_type ff of FD_PIPE \<Rightarrow> pipeclose (f_pipe ff) (f_writable ff)
          | FD_INODE \<Rightarrow> seq begin_op (seq (iput (f_ip ff)) end_op)
          | FD_NONE \<Rightarrow> ret ()))))))"

definition filestat :: "nat \<Rightarrow> (stat option, 'b) ftop" where
  "filestat f = bnd (gets (fget f)) (\<lambda>x. if f_type x = FD_INODE
     then seq (ilock (Some (f_ip x))) (bnd (stati (f_ip x)) (\<lambda>st. seq (iunlock (Some (f_ip x))) (ret (Some st))))
     else ret None)"

definition fileread :: "nat \<Rightarrow> int \<Rightarrow> (int \<times> bytes, 'b) ftop" where
  "fileread f n = bnd (gets (fget f)) (\<lambda>x.
     if \<not> f_readable x then ret (- 1, [])
     else case f_type x of FD_PIPE \<Rightarrow> piperead (f_pipe x) n
     | FD_INODE \<Rightarrow> seq (ilock (Some (f_ip x))) (bnd (readi (f_ip x) (f_off x) (of_int n)) (\<lambda>r.
         seq (whenM (fst r > 0) (modify (fset f (\<lambda>x. x\<lparr>f_off := f_off x + of_int (fst r)\<rparr>))))
         (seq (iunlock (Some (f_ip x))) (ret r))))
     | FD_NONE \<Rightarrow> panic ''fileread'')"

text \<open>Writing goes in chunks of at most \<open>WMAX\<close> bytes, each in a transaction of its own.\<close>

definition WMAX :: int where
  "WMAX = (10 - 1 - 1 - 2) div 2 * 512"

function filewrite_loop :: "nat \<Rightarrow> bytes \<Rightarrow> int \<Rightarrow> int \<Rightarrow> (int, 'b) ftop" where
  "filewrite_loop f addr n i = (if i < n then
     let n1 = (if n - i > WMAX then WMAX else n - i) in
     seq begin_op (bnd (gets (fget f)) (\<lambda>x.
     seq (ilock (Some (f_ip x))) (bnd (gets (fget f)) (\<lambda>x.
     bnd (writei (f_ip x) (drop (nat i) addr) (f_off x) (of_int n1)) (\<lambda>r.
     seq (whenM (r > 0) (modify (fset f (\<lambda>x. x\<lparr>f_off := f_off x + of_int r\<rparr>))))
     (seq (iunlock (Some (f_ip x))) (seq end_op
     (if r < 0 then ret i else if r \<noteq> n1 then panic ''short filewrite''
      else filewrite_loop f addr n (i + n1)))))))))
   else ret i)"
  by pat_completeness auto
termination by (relation "measure (\<lambda>(f, addr, n, i). nat (n - i))") (auto simp: WMAX_def)

declare filewrite_loop.simps [simp del]

definition filewrite :: "nat \<Rightarrow> bytes \<Rightarrow> int \<Rightarrow> (int, 'b) ftop" where
  "filewrite f addr n = bnd (gets (fget f)) (\<lambda>x.
     if \<not> f_writable x then ret (- 1)
     else case f_type x of FD_PIPE \<Rightarrow> pipewrite (f_pipe x) addr n
     | FD_INODE \<Rightarrow> bnd (filewrite_loop f addr n 0) (\<lambda>i. ret (if i = n then n else - 1))
     | FD_NONE \<Rightarrow> panic ''filewrite'')"

text \<open>The loop of \<open>pfilewrite\<close>: every chunk is written at the same offset.\<close>

function pfilewrite_loop :: "nat \<Rightarrow> bytes \<Rightarrow> int \<Rightarrow> int \<Rightarrow> int \<Rightarrow> (int, 'b) ftop" where
  "pfilewrite_loop f addr n off i = (if i < n then
     let n1 = (if n - i > WMAX then WMAX else n - i) in
     seq begin_op (bnd (gets (fget f)) (\<lambda>x.
     seq (ilock (Some (f_ip x)))
     (bnd (writei (f_ip x) (drop (nat i) addr) (of_int off) (of_int n1)) (\<lambda>r.
     seq (iunlock (Some (f_ip x))) (seq end_op
     (if r < 0 then ret i else if r \<noteq> n1 then panic ''short filewrite''
      else pfilewrite_loop f addr n off (i + n1)))))))
   else ret i)"
  by pat_completeness auto
termination by (relation "measure (\<lambda>(f, addr, n, off, i). nat (n - i))") (auto simp: WMAX_def)

declare pfilewrite_loop.simps [simp del]

definition pfilewrite :: "nat \<Rightarrow> bytes \<Rightarrow> int \<Rightarrow> int \<Rightarrow> (int, 'b) ftop" where
  "pfilewrite f addr n off = bnd (gets (fget f)) (\<lambda>x.
     if \<not> f_writable x then ret (- 1)
     else case f_type x of FD_PIPE \<Rightarrow> pipewrite (f_pipe x) addr n
     | FD_INODE \<Rightarrow> bnd (pfilewrite_loop f addr n off 0) (\<lambda>i. ret (if i = n then n else - 1))
     | FD_NONE \<Rightarrow> panic ''filewrite'')"

definition pfileread :: "nat \<Rightarrow> int \<Rightarrow> int \<Rightarrow> (int \<times> bytes, 'b) ftop" where
  "pfileread f n off = bnd (gets (fget f)) (\<lambda>x.
     if \<not> f_readable x then ret (- 1, [])
     else case f_type x of FD_PIPE \<Rightarrow> piperead (f_pipe x) n
     | FD_INODE \<Rightarrow> seq (ilock (Some (f_ip x))) (bnd (readi (f_ip x) (of_int off) (of_int n)) (\<lambda>r.
         seq (iunlock (Some (f_ip x))) (ret r)))
     | FD_NONE \<Rightarrow> panic ''fileread'')"

text \<open>\<open>pipealloc\<close>; the new \<open>struct pipe\<close> keeps the bytes of the page as its data.\<close>

definition pipe_bad :: "nat option \<Rightarrow> nat option \<Rightarrow> ((nat \<times> nat) option, 'b) ftop" where
  "pipe_bad f0 f1 = seq (case f0 of None \<Rightarrow> ret () | Some f \<Rightarrow> fileclose f)
     (seq (case f1 of None \<Rightarrow> ret () | Some f \<Rightarrow> fileclose f) (ret None))"

definition pipealloc :: "((nat \<times> nat) option, 'b) ftop" where
  "pipealloc = bnd filealloc (\<lambda>f0. case f0 of None \<Rightarrow> pipe_bad None None | Some a \<Rightarrow>
     bnd filealloc (\<lambda>f1. case f1 of None \<Rightarrow> pipe_bad f0 None | Some b \<Rightarrow>
     bnd kalloc (\<lambda>v. if v = 0 then pipe_bad f0 f1 else
     seq (modify (\<lambda>s. ppset v (\<lambda>_. \<lparr>pp_data = map (\<lambda>k. mem s (v + 52 + of_nat k)) [0..<PIPESIZE], pp_nread = 0, pp_nwrite = 0,
       pp_readopen = True, pp_writeopen = True\<rparr>) s))
     (seq (modify (fset a (\<lambda>x. x\<lparr>f_type := FD_PIPE, f_readable := True, f_writable := False, f_pipe := v\<rparr>)))
     (seq (modify (fset b (\<lambda>x. x\<lparr>f_type := FD_PIPE, f_readable := False, f_writable := True, f_pipe := v\<rparr>)))
     (ret (Some (a, b))))))))"

subsection \<open>The file table as an allocator\<close>

definition ftable_ok :: "'b filest_scheme \<Rightarrow> bool" where
  "ftable_ok s \<longleftrightarrow> held s = [] \<and> length (ftable s) = NFILE \<and> (\<forall>f \<in> set (ftable s). 0 \<le> f_ref f \<and> (f_ref f = 0 \<longrightarrow> f_type f = FD_NONE))"

definition free_files :: "'b filest_scheme \<Rightarrow> nat set" where
  "free_files s = {f. f < length (ftable s) \<and> f_ref (ftable s ! f) = 0}"

text \<open>An entry that was just allocated: one reference, not yet given a type.\<close>

definition new_file :: "nat \<Rightarrow> 'b filest_scheme \<Rightarrow> bool" where
  "new_file f s \<longleftrightarrow> f < length (ftable s) \<and> f_ref (ftable s ! f) = 1 \<and> f_type (ftable s ! f) = FD_NONE"

lemma fset_sel [simp]: "held (fset f g s) = held s" "ftable (fset f g s) = (ftable s)[f := g (ftable s ! f)]"
  "ftable (s\<lparr>held := h\<rparr>) = ftable s" "fset f g (s\<lparr>held := h\<rparr>) = (fset f g s)\<lparr>held := h\<rparr>"
  by (simp_all add: fset_def)

lemma ftable_ok_fset:
  "ftable_ok s \<Longrightarrow> 0 \<le> f_ref (g (ftable s ! f)) \<Longrightarrow> (f_ref (g (ftable s ! f)) = 0 \<Longrightarrow> f_type (g (ftable s ! f)) = FD_NONE) \<Longrightarrow>
    ftable_ok (fset f g s)"
  by (auto simp: ftable_ok_def dest!: set_update_subset_insert[THEN subsetD])

lemma filealloc_eq:
  "ftable_ok s \<Longrightarrow> filealloc s = (case find_index (\<lambda>f. f_ref f = 0) (ftable s) of None \<Rightarrow> Ok None s
     | Some f \<Rightarrow> Ok (Some f) (fset f (\<lambda>x. x\<lparr>f_ref := 1\<rparr>) s))"
  by (auto simp: filealloc_def ftable_ok_def split: option.split)

lemma fileclose_new:
  "ftable_ok s \<Longrightarrow> new_file f s \<Longrightarrow> fileclose f s = Ok () (fset f (\<lambda>x. x\<lparr>f_ref := 0, f_type := FD_NONE\<rparr>) s)"
  by (auto simp: fileclose_def ftable_ok_def new_file_def fget_def fset_def)

interpretation files: pool ftable_ok free_files filealloc fileclose new_file
proof
  fix s :: "'a filest_scheme" assume s: "ftable_ok s"
  show "finite (free_files s)" by (simp add: free_files_def)
  show "filealloc s = Ok None s" if "free_files s = {}"
  proof (cases "find_index (\<lambda>f. f_ref f = 0) (ftable s)")
    case (Some f)
    then show ?thesis using that find_index_SomeD[OF Some] by (auto simp: free_files_def)
  qed (simp add: filealloc_eq[OF s])
  show "\<exists>f s'. filealloc s = Ok (Some f) s' \<and> ftable_ok s' \<and> f \<in> free_files s \<and> free_files s' = free_files s - {f} \<and> new_file f s'"
    if "free_files s \<noteq> {}"
  proof (cases "find_index (\<lambda>f. f_ref f = 0) (ftable s)")
    case None
    then show ?thesis using that by (auto simp: free_files_def find_index_None)
  next
    case (Some f)
    note f = find_index_SomeD[OF Some]
    have "f_type (ftable s ! f) = FD_NONE" using s f nth_mem[OF f(1)] by (simp add: ftable_ok_def)
    then show ?thesis using f ftable_ok_fset[OF s] by (auto simp: filealloc_eq[OF s] Some free_files_def new_file_def nth_list_update)
  qed
  show "\<exists>s'. fileclose f s = Ok () s' \<and> ftable_ok s' \<and> free_files s' = insert f (free_files s)" if "new_file f s" "f \<notin> free_files s" for f
    using ftable_ok_fset[OF s] that by (auto simp: fileclose_new[OF s] new_file_def free_files_def nth_list_update)
qed

text \<open>
  Claim C33. \<open>n\<close> calls of \<open>filealloc\<close> give pairwise distinct entries of the file table that were free, as
  many as there were up to \<open>n\<close>, take exactly these, and keep the invariant of the table.
\<close>

theorem filealloc_distinct:
  assumes "ftable_ok s"
  shows "\<exists>fs s'. alloc_many filealloc n s = Ok fs s' \<and> ftable_ok s' \<and> distinct fs \<and> set fs \<subseteq> free_files s \<and>
    free_files s' = free_files s - set fs \<and> length fs = min n (card (free_files s))"
  using assms by (rule files.alloc_many_distinct)

definition filest0 :: filest where
  "filest0 = pipest.extend pipest0 (filest.fields (replicate NFILE
     \<lparr>f_type = FD_NONE, f_ref = 0, f_readable = False, f_writable = False, f_pipe = 0, f_ip = 0, f_off = 0\<rparr>))"

theorem filealloc_distinct_witness:
  "\<exists>fs s'. alloc_many filealloc 3 filest0 = Ok fs s' \<and> distinct fs \<and> length fs = 3"
proof -
  have t: "ftable filest0 = replicate NFILE \<lparr>f_type = FD_NONE, f_ref = 0, f_readable = False, f_writable = False, f_pipe = 0, f_ip = 0, f_off = 0\<rparr>"
    "held filest0 = []" by (simp_all add: filest0_def pipest.defs filest.defs pipest0_def)
  have "free_files filest0 = {..<NFILE}" by (auto simp: free_files_def t)
  then have "card (free_files filest0) = 100" by (simp add: NFILE_def)
  moreover have "ftable_ok filest0" by (simp add: ftable_ok_def t)
  ultimately show ?thesis using filealloc_distinct[of filest0 3] by auto
qed

end
