(* ===== verification/Vm.thy ===== *)
theory Vm
  imports Fs
begin

text \<open>
  Page tables (\<open>vm.c\<close>).  A page directory is the kernel virtual address of its page; directory and table entries are words of the
  modelled memory.  A pointer that may be null is a word, 0 being null.  \<open>kd\<close> is the address of the linker symbol \<open>data\<close>.  The loops over pages
  are recursive in the number of pages left; only the loop of \<open>deallocuvm\<close>, which skips over missing page tables, carries a bound,
  the number of pages in its range, and hangs when the bound does not suffice.
\<close>

definition EXTMEM :: uint where "EXTMEM = 0x100000"
definition DEVSPACE :: uint where "DEVSPACE = 0xFE000000"
definition KERNLINK :: uint where "KERNLINK = KERNBASE + EXTMEM"
definition PTE_P :: uint where "PTE_P = 1"
definition PTE_W :: uint where "PTE_W = 2"
definition PTE_U :: uint where "PTE_U = 4"
definition NPDENTRIES :: nat where "NPDENTRIES = 1024"

definition PDX :: "uint \<Rightarrow> uint" where "PDX va = drop_bit 22 va AND 0x3FF"
definition PTX :: "uint \<Rightarrow> uint" where "PTX va = drop_bit 12 va AND 0x3FF"
definition PGADDR :: "uint \<Rightarrow> uint \<Rightarrow> uint \<Rightarrow> uint" where "PGADDR d t o' = push_bit 22 d OR push_bit 12 t OR o'"
definition PTE_ADDR :: "uint \<Rightarrow> uint" where "PTE_ADDR pte = pte AND NOT 0xFFF"
definition PTE_FLAGS :: "uint \<Rightarrow> uint" where "PTE_FLAGS pte = pte AND 0xFFF"

definition load :: "uint \<Rightarrow> (uint, 'b) mop" where
  "load a = gets (\<lambda>s. load32 a (mem s))"

definition store :: "uint \<Rightarrow> uint \<Rightarrow> (unit, 'b) mop" where
  "store a w = modify (\<lambda>s. s\<lparr>mem := store32 a w (mem s)\<rparr>)"

definition zero_page :: "uint \<Rightarrow> (unit, 'b) mop" where
  "zero_page a = modify (\<lambda>s. s\<lparr>mem := memset a 0 PGSIZE (mem s)\<rparr>)"

text \<open>\<open>memmove\<close> from an array the caller holds: the bytes \<open>bs\<close> to the address \<open>a\<close>.\<close>

definition put_bytes :: "uint \<Rightarrow> bytes \<Rightarrow> mem \<Rightarrow> mem" where
  "put_bytes a bs m x = (if unat (x - a) < length bs then bs ! unat (x - a) else m x)"

subsection \<open>Walking and mapping\<close>

definition walkpgdir :: "uint \<Rightarrow> uint \<Rightarrow> bool \<Rightarrow> (uint, 'b) mop" where
  "walkpgdir pgdir va alloc = bnd (load (pgdir + 4 * PDX va)) (\<lambda>pde.
     if pde AND PTE_P \<noteq> 0 then ret (P2V (PTE_ADDR pde) + 4 * PTX va)
     else if \<not> alloc then ret 0
     else bnd kalloc (\<lambda>pgtab. if pgtab = 0 then ret 0
       else seq (zero_page pgtab) (seq (store (pgdir + 4 * PDX va) (V2P pgtab OR PTE_P OR PTE_W OR PTE_U))
         (ret (pgtab + 4 * PTX va)))))"

text \<open>The loop of \<open>mappages\<close>; \<open>k\<close> pages follow the page \<open>a\<close>.\<close>

fun mappages_loop :: "uint \<Rightarrow> uint \<Rightarrow> uint \<Rightarrow> uint \<Rightarrow> nat \<Rightarrow> (int, 'b) mop" where
  "mappages_loop pgdir a pa perm k = bnd (walkpgdir pgdir a True) (\<lambda>pte. if pte = 0 then ret (- 1)
     else bnd (load pte) (\<lambda>e. if e AND PTE_P \<noteq> 0 then panic ''remap''
     else seq (store pte (pa OR perm OR PTE_P))
       (case k of 0 \<Rightarrow> ret 0 | Suc k' \<Rightarrow> mappages_loop pgdir (a + PGSIZE) (pa + PGSIZE) perm k')))"

declare mappages_loop.simps [simp del]

definition mappages :: "uint \<Rightarrow> uint \<Rightarrow> uint \<Rightarrow> uint \<Rightarrow> uint \<Rightarrow> (int, 'b) mop" where
  "mappages pgdir va size' pa perm = (let a = PGROUNDDOWN va; last' = PGROUNDDOWN (va + size' - 1)
     in mappages_loop pgdir a pa perm (unat (last' - a) div 4096))"

subsection \<open>Freeing\<close>

fun deallocuvm_loop :: "nat \<Rightarrow> uint \<Rightarrow> uint \<Rightarrow> uint \<Rightarrow> (unit, 'b) mop" where
  "deallocuvm_loop 0 pgdir a oldsz = (if a < oldsz then hang else ret ())"
| "deallocuvm_loop (Suc k) pgdir a oldsz = (if \<not> a < oldsz then ret () else
     bnd (walkpgdir pgdir a False) (\<lambda>pte.
     if pte = 0 then deallocuvm_loop k pgdir (PGADDR (PDX a + 1) 0 0 - PGSIZE + PGSIZE) oldsz
     else bnd (load pte) (\<lambda>e. seq (whenM (e AND PTE_P \<noteq> 0)
         (if PTE_ADDR e = 0 then panic ''kfree'' else seq (kfree (P2V (PTE_ADDR e))) (store pte 0)))
       (deallocuvm_loop k pgdir (a + PGSIZE) oldsz))))"

definition pages_between :: "uint \<Rightarrow> uint \<Rightarrow> nat" where
  "pages_between a b = (unat b - unat a + 4095) div 4096"

definition deallocuvm :: "uint \<Rightarrow> uint \<Rightarrow> uint \<Rightarrow> (uint, 'b) mop" where
  "deallocuvm pgdir oldsz newsz = (if newsz \<ge> oldsz then ret oldsz
     else let a = PGROUNDUP newsz in seq (deallocuvm_loop (pages_between a oldsz) pgdir a oldsz) (ret newsz))"

definition freevm :: "uint \<Rightarrow> (unit, 'b) mop" where
  "freevm pgdir = (if pgdir = 0 then panic ''freevm: no pgdir''
     else seq (deallocuvm pgdir KERNBASE 0)
     (seq (forM [0..<NPDENTRIES] (\<lambda>i. bnd (load (pgdir + 4 * of_nat i)) (\<lambda>e.
        whenM (e AND PTE_P \<noteq> 0) (kfree (P2V (PTE_ADDR e))))))
     (kfree pgdir)))"

subsection \<open>Kernel mappings\<close>

text \<open>The table \<open>kmap\<close>: virtual start, physical start, physical end and permissions.\<close>

definition kmap :: "uint \<Rightarrow> (uint \<times> uint \<times> uint \<times> uint) list" where
  "kmap kd = [(KERNBASE, 0, EXTMEM, PTE_W), (KERNLINK, V2P KERNLINK, V2P kd, 0),
     (kd, V2P kd, PHYSTOP, PTE_W), (DEVSPACE, DEVSPACE, 0, PTE_W)]"

fun setupkvm_loop :: "uint \<Rightarrow> (uint \<times> uint \<times> uint \<times> uint) list \<Rightarrow> (uint, 'b) mop" where
  "setupkvm_loop pgdir [] = ret pgdir"
| "setupkvm_loop pgdir ((virt, ps, pe, perm) # ks) = bnd (mappages pgdir virt (pe - ps) ps perm) (\<lambda>r.
     if r < 0 then seq (freevm pgdir) (ret 0) else setupkvm_loop pgdir ks)"

definition setupkvm :: "uint \<Rightarrow> (uint, 'b) mop" where
  "setupkvm kd = bnd kalloc (\<lambda>pgdir. if pgdir = 0 then ret 0
     else seq (zero_page pgdir) (if P2V PHYSTOP > DEVSPACE then panic ''PHYSTOP too high''
       else setupkvm_loop pgdir (kmap kd)))"

definition kvmalloc :: "uint \<Rightarrow> (unit, 'b) mop" where
  "kvmalloc kd = bnd (setupkvm kd) (\<lambda>p. seq (modify (\<lambda>s. s\<lparr>kpgdir := p\<rparr>)) switchkvm)"

subsection \<open>User memory\<close>

definition inituvm :: "uint \<Rightarrow> bytes \<Rightarrow> (unit, 'b) mop" where
  "inituvm pgdir init = (if of_nat (length init) \<ge> PGSIZE then panic ''inituvm: more than a page''
     else bnd kalloc (\<lambda>m. seq (zero_page m) (seq (mappages pgdir 0 PGSIZE (V2P m) (PTE_W OR PTE_U))
       (modify (\<lambda>s. s\<lparr>mem := put_bytes m init (mem s)\<rparr>)))))"

text \<open>The loop of \<open>allocuvm\<close>; \<open>k\<close> pages from \<open>a\<close> on are missing.\<close>

fun allocuvm_loop :: "uint \<Rightarrow> uint \<Rightarrow> uint \<Rightarrow> uint \<Rightarrow> nat \<Rightarrow> (uint, 'b) mop" where
  "allocuvm_loop pgdir oldsz newsz a 0 = ret newsz"
| "allocuvm_loop pgdir oldsz newsz a (Suc k) = bnd kalloc (\<lambda>m.
     if m = 0 then seq (deallocuvm pgdir newsz oldsz) (ret 0)
     else seq (zero_page m) (bnd (mappages pgdir a PGSIZE (V2P m) (PTE_W OR PTE_U)) (\<lambda>r.
     if r < 0 then seq (deallocuvm pgdir newsz oldsz) (seq (kfree m) (ret 0))
     else allocuvm_loop pgdir oldsz newsz (a + PGSIZE) k)))"

definition allocuvm :: "uint \<Rightarrow> uint \<Rightarrow> uint \<Rightarrow> (uint, 'b) mop" where
  "allocuvm pgdir oldsz newsz = (if newsz \<ge> KERNBASE then ret 0
     else if newsz < oldsz then ret oldsz
     else let a = PGROUNDUP oldsz in allocuvm_loop pgdir oldsz newsz a (pages_between a newsz))"

definition clearpteu :: "uint \<Rightarrow> uint \<Rightarrow> (unit, 'b) mop" where
  "clearpteu pgdir uva = bnd (walkpgdir pgdir uva False) (\<lambda>pte. if pte = 0 then panic ''clearpteu''
     else bnd (load pte) (\<lambda>e. store pte (e AND NOT PTE_U)))"

fun copyuvm_loop :: "uint \<Rightarrow> uint \<Rightarrow> nat list \<Rightarrow> (uint, 'b) mop" where
  "copyuvm_loop pgdir d [] = ret d"
| "copyuvm_loop pgdir d (k # ks) = (let i = of_nat k * PGSIZE in
     bnd (walkpgdir pgdir i False) (\<lambda>pte. if pte = 0 then panic ''copyuvm: pte should exist''
     else bnd (load pte) (\<lambda>e. if e AND PTE_P = 0 then panic ''copyuvm: page not present''
     else bnd kalloc (\<lambda>m. if m = 0 then seq (freevm d) (ret 0)
     else seq (modify (\<lambda>s. s\<lparr>mem := memmove m (P2V (PTE_ADDR e)) PGSIZE (mem s)\<rparr>))
       (bnd (mappages d i PGSIZE (V2P m) (PTE_FLAGS e)) (\<lambda>r.
       if r < 0 then seq (freevm d) (ret 0) else copyuvm_loop pgdir d ks))))))"

definition copyuvm :: "uint \<Rightarrow> uint \<Rightarrow> uint \<Rightarrow> (uint, 'b) mop" where
  "copyuvm kd pgdir sz = bnd (setupkvm kd) (\<lambda>d. if d = 0 then ret 0
     else copyuvm_loop pgdir d [0..<(unat sz + 4095) div 4096])"

text \<open>\<open>uva2ka\<close> reads through the result of \<open>walkpgdir\<close> without a check: a null pointer there is undefined behaviour.\<close>

definition uva2ka :: "uint \<Rightarrow> uint \<Rightarrow> (uint, 'b) mop" where
  "uva2ka pgdir uva = bnd (walkpgdir pgdir uva False) (\<lambda>pte. if pte = 0 then fault
     else bnd (load pte) (\<lambda>e. if e AND PTE_P = 0 then ret 0 else if e AND PTE_U = 0 then ret 0
     else ret (P2V (PTE_ADDR e))))"

text \<open>\<open>copyout\<close> of the bytes at \<open>p\<close>; every round copies at least one of them.\<close>

function copyout :: "uint \<Rightarrow> uint \<Rightarrow> bytes \<Rightarrow> (int, 'b) mop" where
  "copyout pgdir va bs = (if bs = [] then ret 0 else
     let va0 = PGROUNDDOWN va; n = min (unat (PGSIZE - (va - va0))) (length bs) in
     if n = 0 then hang else
     bnd (uva2ka pgdir va0) (\<lambda>pa0. if pa0 = 0 then ret (- 1)
     else seq (modify (\<lambda>s. s\<lparr>mem := put_bytes (pa0 + (va - va0)) (take n bs) (mem s)\<rparr>))
       (copyout pgdir (va0 + PGSIZE) (drop n bs))))"
  by pat_completeness auto
termination by (relation "measure (\<lambda>(_, _, bs). length bs)") auto

declare copyout.simps [simp del]

fun loaduvm_loop :: "uint \<Rightarrow> uint \<Rightarrow> nat \<Rightarrow> uint \<Rightarrow> uint \<Rightarrow> nat list \<Rightarrow> (int, 'b) fop" where
  "loaduvm_loop pgdir addr ip offset sz [] = ret 0"
| "loaduvm_loop pgdir addr ip offset sz (k # ks) = (let i = of_nat k * PGSIZE in
     bnd (walkpgdir pgdir (addr + i) False) (\<lambda>pte. if pte = 0 then panic ''loaduvm: address should exist''
     else bnd (load pte) (\<lambda>e. let n = (if sz - i < PGSIZE then sz - i else PGSIZE) in
     bnd (readi ip (offset + i) n) (\<lambda>(r, d). seq (modify (\<lambda>s. s\<lparr>mem := put_bytes (P2V (PTE_ADDR e)) d (mem s)\<rparr>))
     (if r \<noteq> sint n then ret (- 1) else loaduvm_loop pgdir addr ip offset sz ks)))))"

definition loaduvm :: "uint \<Rightarrow> uint \<Rightarrow> nat \<Rightarrow> uint \<Rightarrow> uint \<Rightarrow> (int, 'b) fop" where
  "loaduvm pgdir addr ip offset sz = (if addr mod PGSIZE \<noteq> 0 then panic ''loaduvm: addr must be page aligned''
     else loaduvm_loop pgdir addr ip offset sz [0..<(unat sz + 4095) div 4096])"

end
