(* ===== verification/Fsblocks.thy ===== *)
theory Fsblocks
  imports Fs
begin

text \<open>
  What the operations of fs.c do to the disk inside a transaction: block allocation against the set of free blocks of the bitmap, and the
  encoding of inodes.  The lemmas named \<open>_tx\<close> describe an operation by the logical contents of the blocks and the blocks in
  the log.
\<close>

subsection \<open>Inside a transaction\<close>

text \<open>
  \<open>tx s L bl\<close>: a transaction is open, no buffer is held, the logical contents of the blocks are \<open>L\<close> and the blocks in the
  log are \<open>bl\<close>.  \<open>room s bl k\<close>: \<open>k\<close> more blocks fit into the log and the cache.
\<close>

definition tx :: "'b logst_scheme \<Rightarrow> (uint \<Rightarrow> bytes) \<Rightarrow> uint list \<Rightarrow> bool" where
  "tx s L bl \<longleftrightarrow> bview s L (disk s) (wtrace s) (set bl) Map.empty \<and> log_state s bl \<and> 1 \<le> lg_outstanding s"

definition room :: "'b logst_scheme \<Rightarrow> uint list \<Rightarrow> nat \<Rightarrow> bool" where
  "room s bl k \<longleftrightarrow> length bl + k \<le> LOGSIZE \<and> int (length bl + k) \<le> lg_size s - 1 \<and> length bl + k \<le> NBUF"

definition data_block :: "'b logst_scheme \<Rightarrow> uint \<Rightarrow> bool" where
  "data_block s n \<longleftrightarrow> n < disksize s \<and> n \<notin> log_area (lg_start s) (lg_size s)"

lemma lframe_keeps: "lframe s t \<Longrightarrow> data_block t n = data_block s n" "lframe s t \<Longrightarrow> room t bl k = room s bl k"
  by (simp_all add: data_block_def room_def lframe_sel)

lemma room_add: "room s bl (Suc k) \<Longrightarrow> room s (add_block n bl) k"
  by (auto simp: room_def add_block_def)

lemma room_less: "room s bl k \<Longrightarrow> j \<le> k \<Longrightarrow> room s bl j"
  by (auto simp: room_def)

lemma tx_card: "tx s L bl \<Longrightarrow> room s bl (Suc k) \<Longrightarrow> card (set bl) < NBUF"
  using card_length[of bl] by (auto simp: room_def)

lemma tx_length: "tx s L bl \<Longrightarrow> length (L n) = BSIZE"
  by (metis tx_def bview_length)

lemma bframe_tx: "bframe s t \<Longrightarrow> bview t L D T (set bl) Map.empty \<Longrightarrow> tx s L' bl \<Longrightarrow> tx t L bl"
  using log_state_frame[of s t bl] lframe_sel(3)[OF bframe_lframe, of s t] by (auto simp: tx_def bview_def)

text \<open>Reading a block: what \<open>bread\<close> and \<open>bdata\<close> give, and that releasing the buffer changes nothing.\<close>

lemma tx_read:
  assumes t: "tx s L bl" "room s bl (Suc k)" and n: "n < disksize s"
  obtains i u w where "bread 1 n s = Ok i u" "bdata i u = Ok (L n) u" "brelse i u = Ok () w" "tx w L bl" "lframe s w"
proof -
  have v: "bview s L (disk s) (wtrace s) (set bl) Map.empty" using t(1) by (simp add: tx_def)
  from bread_view[OF v n] tx_card[OF t] obtain i u where
    u: "bread 1 n s = Ok i u" "bview u L (disk s) (wtrace s) (set bl) [n \<mapsto> i]" "bframe s u" by auto
  have K: "[n \<mapsto> i] n = Some i" by simp
  from brelse_view[OF u(2) K] obtain w where
    w: "brelse i u = Ok () w" "bview w L (disk s) (wtrace s) (set bl) Map.empty" "bframe u w" unfolding map_del1 by blast
  have f: "bframe s w" using u(3) w(3) by (rule bframe_trans)
  have "bdata i u = Ok (L n) u" using bview_data[OF u(2) K] by (simp add: bdata_def)
  then show thesis using that[OF u(1) _ w(1) bframe_tx[OF f w(2) t(1)] bframe_lframe[OF f]] by blast
qed

text \<open>Changing a block: read it, assign to it, log it, release it.\<close>

lemma tx_update:
  assumes t: "tx s L bl" "room s bl (Suc k)" and n: "data_block s n"
  obtains i u where "bread 1 n s = Ok i u" "bdata i u = Ok (L n) u"
    "\<And>d. length d = BSIZE \<Longrightarrow> \<exists>w. seq (set_bdata i d) (seq (log_write i) (brelse i)) u = Ok () w \<and> tx w (L(n := d)) (add_block n bl) \<and> lframe s w"
proof -
  have v: "bview s L (disk s) (wtrace s) (set bl) Map.empty" using t(1) by (simp add: tx_def)
  have n': "n < disksize s" using n by (simp add: data_block_def)
  from bread_view[OF v n'] tx_card[OF t] obtain i u where
    u: "bread 1 n s = Ok i u" "bview u L (disk s) (wtrace s) (set bl) [n \<mapsto> i]" "bframe s u" by auto
  have K: "[n \<mapsto> i] n = Some i" by simp
  have b: "bdata i u = Ok (L n) u" using bview_data[OF u(2) K] by (simp add: bdata_def)
  note f = lframe_sel[OF bframe_lframe[OF u(3)]]
  have l: "log_state u bl" "1 \<le> lg_outstanding u" "length bl < LOGSIZE" "int (length bl) < lg_size u - 1" "n \<notin> log_area (lg_start u) (lg_size u)"
    using t n f log_state_frame[OF u(3)] by (auto simp: tx_def room_def data_block_def)
  have "\<exists>w. seq (set_bdata i d) (seq (log_write i) (brelse i)) u = Ok () w \<and> tx w (L(n := d)) (add_block n bl) \<and> lframe s w"
    if d: "length d = BSIZE" for d
  proof -
    from log_write_view[OF u(2) K d l] obtain x where
      x: "seq (set_bdata i d) (log_write i) u = Ok () x" "bview x (L(n := d)) (disk s) (wtrace s) (insert n (set bl)) [n \<mapsto> i]"
        "log_state x (add_block n bl)" "lframe u x" by blast
    from brelse_view[OF x(2) K] obtain w where
      w: "brelse i x = Ok () w" "bview w (L(n := d)) (disk s) (wtrace s) (insert n (set bl)) Map.empty" "bframe x w" unfolding map_del1 by blast
    have lf: "lframe s w" using lframe_trans[OF lframe_trans[OF bframe_lframe[OF u(3)] x(4)] bframe_lframe[OF w(3)]] .
    have "insert n (set bl) = set (add_block n bl)" by (auto simp: add_block_def)
    then have "tx w (L(n := d)) (add_block n bl)"
      using w(2) x(3) log_state_frame[OF w(3)] lframe_sel(3)[OF lf] t(1) by (auto simp: tx_def bview_def)
    moreover have "seq (set_bdata i d) (seq (log_write i) (brelse i)) u = Ok () w"
      using seq_Ok[of "seq (set_bdata i d) (log_write i)" u, OF x(1), of "brelse i"] w(1) unfolding seq_assoc by simp
    ultimately show ?thesis using lf by blast
  qed
  then show thesis using that[OF u(1) b] by blast
qed

lemma lframe_fs:
  assumes "lframe s (t :: 'b fsst_scheme)"
  shows "sb t = sb s" "inodes t = inodes s"
proof -
  have "logst.more t = logst.more s" using lframe_sel(7)[OF assms] .
  then show "sb t = sb s" "inodes t = inodes s" by (cases s; cases t; simp)+
qed

subsection \<open>Block allocation\<close>

lemma bzero_tx:
  assumes "tx s L bl" "room s bl (Suc k)" "data_block s n"
  shows "\<exists>w. bzero 1 n s = Ok () w \<and> tx w (L(n := replicate BSIZE 0)) (add_block n bl) \<and> lframe s w"
proof -
  obtain i u where u: "bread 1 n s = Ok i u"
    "\<And>d. length d = BSIZE \<Longrightarrow> \<exists>w. seq (set_bdata i d) (seq (log_write i) (brelse i)) u = Ok () w \<and> tx w (L(n := d)) (add_block n bl) \<and> lframe s w"
    using tx_update[OF assms] by metis
  from u(2)[of "replicate BSIZE 0"] obtain w where
    w: "seq (set_bdata i (replicate BSIZE 0)) (seq (log_write i) (brelse i)) u = Ok () w" "tx w (L(n := replicate BSIZE 0)) (add_block n bl)" "lframe s w"
    by auto
  have "bzero 1 n s = Ok () w" unfolding bzero_def bnd_Ok[of "bread 1 n" s, OF u(1)] by (rule w(1))
  then show ?thesis using w(2,3) by blast
qed

lemma length_bm_set [simp]: "length (bm_set d bi) = length d"
  by (simp add: bm_set_def)

lemma bit_or_one: "k < 8 \<Longrightarrow> bit ((w :: uchar) OR push_bit k 1) j \<longleftrightarrow> bit w j \<or> j = k"
  by (auto simp: bit_or_iff bit_exp_iff)

lemma bm_used_set:
  assumes "length d = BSIZE" "bi < BPB"
  shows "bm_used (bm_set d bi) bj \<longleftrightarrow> bj = bi \<or> bm_used d bj"
proof -
  have l: "bi div 8 < length d" using assms by (simp add: BPB_def BSIZE_def)
  have "bj = bi \<longleftrightarrow> bj div 8 = bi div 8 \<and> bj mod 8 = bi mod 8" by (metis div_mult_mod_eq)
  then show ?thesis using l bit_or_one[of "bi mod 8" "d ! (bi div 8)" "bj mod 8"]
    by (cases "bj div 8 = bi div 8") (auto simp: bm_used_def bm_set_def)
qed

lemma balloc_hit:
  assumes t: "tx s L bl" "room s bl (Suc (Suc k))" "data_block s n" "data_block s m"
    and e: "bread 1 n s = Ok i u"
      "\<And>d. length d = BSIZE \<Longrightarrow> \<exists>w. seq (set_bdata i d) (seq (log_write i) (brelse i)) u = Ok () w \<and> tx w (L(n := d)) (add_block n bl) \<and> lframe s w"
  shows "\<exists>w. seq (set_bdata i (bm_set (L n) bi)) (seq (log_write i) (seq (brelse i) (seq (bzero 1 m) (ret m)))) u = Ok m w \<and>
    tx w (L(n := bm_set (L n) bi, m := replicate BSIZE 0)) (add_block m (add_block n bl)) \<and> lframe s w"
proof -
  have "length (bm_set (L n) bi) = BSIZE" using tx_length[OF t(1)] by simp
  from e(2)[OF this] obtain x where
    x: "seq (set_bdata i (bm_set (L n) bi)) (seq (log_write i) (brelse i)) u = Ok () x" "tx x (L(n := bm_set (L n) bi)) (add_block n bl)" "lframe s x"
    by blast
  have "room x (add_block n bl) (Suc k)" "data_block x m"
    using room_add[OF t(2)] t(4) lframe_keeps[OF x(3)] by simp_all
  from bzero_tx[OF x(2) this] obtain w where
    w: "bzero 1 m x = Ok () w" "tx w (L(n := bm_set (L n) bi, m := replicate BSIZE 0)) (add_block m (add_block n bl))" "lframe x w" by blast
  have "seq (set_bdata i (bm_set (L n) bi)) (seq (log_write i) (seq (brelse i) (seq (bzero 1 m) (ret m)))) u = seq (bzero 1 m) (ret m) x"
    using seq_Ok[of "seq (set_bdata i (bm_set (L n) bi)) (seq (log_write i) (brelse i))" u, OF x(1), of "seq (bzero 1 m) (ret m)"] unfolding seq_assoc .
  also have "\<dots> = Ok m w" by (rule seq_Ok[of "bzero 1 m" x, OF w(1)])
  finally show ?thesis using w(2) lframe_trans[OF x(3) w(3)] by blast
qed

lemma balloc_loop_tx:
  assumes "tx s L bl" "room s bl (Suc (Suc k))" "sb s = q"
    and "\<forall>b \<in> set bs. data_block s (BBLOCK (of_nat b) q)"
    and "\<forall>b \<in> set bs. \<forall>bi < BPB. b + bi < unat (sb_size q) \<and> \<not> bm_used (L (BBLOCK (of_nat b) q)) bi \<longrightarrow> data_block s (of_nat (b + bi))"
  shows "(\<exists>b bi w. b \<in> set bs \<and> bi < BPB \<and> b + bi < unat (sb_size q) \<and> \<not> bm_used (L (BBLOCK (of_nat b) q)) bi \<and>
      balloc_loop 1 bs s = Ok (of_nat (b + bi)) w \<and> lframe s w \<and>
      tx w (L(BBLOCK (of_nat b) q := bm_set (L (BBLOCK (of_nat b) q)) bi, of_nat (b + bi) := replicate BSIZE 0))
        (add_block (of_nat (b + bi)) (add_block (BBLOCK (of_nat b) q) bl))) \<or>
    (\<forall>b \<in> set bs. \<forall>bi < BPB. b + bi < unat (sb_size q) \<longrightarrow> bm_used (L (BBLOCK (of_nat b) q)) bi) \<and>
      balloc_loop 1 bs s = Panic ''balloc: out of blocks''"
  using assms
proof (induction bs arbitrary: s)
  case Nil
  then show ?case by simp
next
  case (Cons b bs)
  let ?n = "BBLOCK (of_nat b) q" and ?r = "[0..<min BPB (unat (sb_size q) - b)]"
  have db: "data_block s ?n" using Cons.prems(4) by simp
  obtain i u where u: "bread 1 ?n s = Ok i u" "bdata i u = Ok (L ?n) u"
    "\<And>d. length d = BSIZE \<Longrightarrow> \<exists>w. seq (set_bdata i d) (seq (log_write i) (brelse i)) u = Ok () w \<and> tx w (L(?n := d)) (add_block ?n bl) \<and> lframe s w"
    using tx_update[OF Cons.prems(1,2) db] by metis
  note ev = bnd_Ok[of "bread 1 ?n" s, OF u(1)] bnd_Ok[of "bdata i" u, OF u(2)]
  show ?case
  proof (cases "List.find (\<lambda>bi. \<not> bm_used (L ?n) bi) ?r")
    case (Some bi)
    then have bi: "bi < BPB" "b + bi < unat (sb_size q)" "\<not> bm_used (L ?n) bi" by (auto simp: find_Some_iff)
    have "data_block s (of_nat (b + bi))" using Cons.prems(5) bi by simp
    from balloc_hit[OF Cons.prems(1,2) db this u(1,3), of bi] obtain w where
      w: "seq (set_bdata i (bm_set (L ?n) bi)) (seq (log_write i) (seq (brelse i) (seq (bzero 1 (of_nat (b + bi))) (ret (of_nat (b + bi) :: uint))))) u = Ok (of_nat (b + bi)) w"
        "tx w (L(?n := bm_set (L ?n) bi, of_nat (b + bi) := replicate BSIZE 0)) (add_block (of_nat (b + bi)) (add_block ?n bl))" "lframe s w"
      by blast
    have "balloc_loop 1 (b # bs) s = Ok (of_nat (b + bi)) w"
      using w(1) unfolding balloc_loop.simps bnd_gets Cons.prems(3) ev Some option.case .
    then show ?thesis using bi w(2,3) by (meson list.set_intros(1))
  next
    case None
    then have full: "\<forall>bi < BPB. b + bi < unat (sb_size q) \<longrightarrow> bm_used (L ?n) bi" by (auto simp: find_None_iff)
    have "?n < disksize s" using db by (simp add: data_block_def)
    from tx_read[OF Cons.prems(1,2) this] u(1) obtain w where w: "brelse i u = Ok () w" "tx w L bl" "lframe s w" by (metis res.inject(1))
    have "room w bl (Suc (Suc k))" "sb w = q" "\<forall>b \<in> set bs. data_block w (BBLOCK (of_nat b) q)"
      "\<forall>b \<in> set bs. \<forall>bi < BPB. b + bi < unat (sb_size q) \<and> \<not> bm_used (L (BBLOCK (of_nat b) q)) bi \<longrightarrow> data_block w (of_nat (b + bi))"
      using Cons.prems(2-5) lframe_keeps[OF w(3)] lframe_fs[OF w(3)] by simp_all
    note IH = Cons.IH[OF w(2) this]
    have "balloc_loop 1 (b # bs) s = balloc_loop 1 bs w"
      unfolding balloc_loop.simps bnd_gets Cons.prems(3) ev None option.case by (rule seq_Ok[of "brelse i" u, OF w(1)])
    then show ?thesis using IH full lframe_trans[OF w(3)] by (simp only: list.set ball_simps) (metis insertCI)
  qed
qed

text \<open>The blocks the bitmap says are free, and what a consistent bitmap looks like.\<close>

definition free_block :: "(uint \<Rightarrow> bytes) \<Rightarrow> superblock \<Rightarrow> nat \<Rightarrow> bool" where
  "free_block L q b \<longleftrightarrow> b < unat (sb_size q) \<and> \<not> bm_used (L (BBLOCK (of_nat b) q)) (b mod BPB)"

definition bitmap_ok :: "'b logst_scheme \<Rightarrow> (uint \<Rightarrow> bytes) \<Rightarrow> superblock \<Rightarrow> bool" where
  "bitmap_ok s L q \<longleftrightarrow> (\<forall>b. b < unat (sb_size q) \<longrightarrow> data_block s (BBLOCK (of_nat b) q)) \<and>
     (\<forall>b. free_block L q b \<longrightarrow> data_block s (of_nat b) \<and> (\<forall>c. c < unat (sb_size q) \<longrightarrow> (of_nat b :: uint) \<noteq> BBLOCK (of_nat c) q))"

lemma BBLOCK_nat: "b < 2 ^ 32 \<Longrightarrow> BBLOCK (of_nat b) q = of_nat (b div BPB) + sb_bmapstart q"
proof -
  assume b: "b < 2 ^ 32"
  have "unat (of_nat b div of_nat BPB :: uint) = unat (of_nat (b div BPB) :: uint)"
    using b by (simp add: unat_div unat_of_nat BPB_def)
  then have "(of_nat b div of_nat BPB :: uint) = of_nat (b div BPB)" by (simp only: word_unat_eq_iff)
  then show ?thesis by (simp add: BBLOCK_def)
qed

lemma BBLOCK_eq_iff:
  assumes "b < 2 ^ 32" "c < 2 ^ 32"
  shows "BBLOCK (of_nat b) q = BBLOCK (of_nat c) q \<longleftrightarrow> b div BPB = c div BPB"
proof -
  have "b div BPB < 2 ^ 32" "c div BPB < 2 ^ 32" using assms div_le_dividend le_less_trans by blast+
  then have "(of_nat (b div BPB) :: uint) = of_nat (c div BPB) \<longleftrightarrow> b div BPB = c div BPB"
    by (simp add: word_unat_eq_iff unat_of_nat)
  then show ?thesis using assms by (simp add: BBLOCK_nat)
qed

lemma size_less: "b < unat (x :: uint) \<Longrightarrow> b < 2 ^ 32"
proof -
  assume "b < unat x"
  moreover have "unat x < 2 ^ LENGTH(32)" by (rule unsigned_less)
  ultimately show ?thesis by simp
qed

text \<open>Marking a free block used removes exactly this block from the free ones.\<close>

lemma free_block_set:
  assumes "\<And>n. length (L n) = BSIZE" "b < unat (sb_size q)" "\<And>c. c < unat (sb_size q) \<Longrightarrow> x \<noteq> BBLOCK (of_nat c) q"
  shows "free_block (L(BBLOCK (of_nat b) q := bm_set (L (BBLOCK (of_nat b) q)) (b mod BPB), x := z)) q c \<longleftrightarrow> free_block L q c \<and> c \<noteq> b"
proof (cases "c < unat (sb_size q)")
  case True
  have eq: "BBLOCK (of_nat c) q = BBLOCK (of_nat b) q \<longleftrightarrow> c div BPB = b div BPB"
    using BBLOCK_eq_iff size_less assms(2) True by blast
  have "b mod BPB < BPB" by (simp add: BPB_def)
  note u = bm_used_set[OF assms(1) this, of "BBLOCK (of_nat b) q" "c mod BPB"]
  have x: "x \<noteq> BBLOCK (of_nat c) q" using assms(3) True by blast
  have "c = b \<longleftrightarrow> c div BPB = b div BPB \<and> c mod BPB = b mod BPB" by (metis div_mult_mod_eq)
  then show ?thesis using True eq u x by (cases "c div BPB = b div BPB") (auto simp: free_block_def)
qed (simp add: free_block_def)

lemma balloc_range: "b < n \<longleftrightarrow> b div BPB \<in> {0..<(n + BPB - 1) div BPB} \<and> b < n"
proof -
  have "b < n \<Longrightarrow> b div BPB < (n + BPB - 1) div BPB"
  proof -
    assume "b < n"
    then have "b div BPB \<le> (n - 1) div BPB" by (intro div_le_mono) simp
    moreover have "n + BPB - 1 = (n - 1) + BPB" using \<open>b < n\<close> by simp
    then have "(n + BPB - 1) div BPB = Suc ((n - 1) div BPB)" by (simp add: BPB_def)
    ultimately show ?thesis by simp
  qed
  then show ?thesis by auto
qed

text \<open>
  Claim C4. \<open>balloc\<close> inside a transaction with room for two more blocks returns a block that was free, zeroed
  and marked in the bitmap: afterwards the free blocks are the old ones without it, and no other block has changed.  It panics
  exactly when no block is free.
\<close>

theorem balloc_takes_free_block:
  assumes "tx s L bl" "room s bl 2" "bitmap_ok s L (sb s)"
  shows "(\<exists>b w L' bl'. balloc 1 s = Ok b w \<and> free_block L (sb s) (unat b) \<and> tx w L' bl' \<and> sb w = sb s \<and> L' b = replicate BSIZE 0 \<and>
      (\<forall>c. free_block L' (sb s) c \<longleftrightarrow> free_block L (sb s) c \<and> c \<noteq> unat b) \<and>
      (\<forall>n. n \<noteq> b \<and> n \<noteq> BBLOCK b (sb s) \<longrightarrow> L' n = L n)) \<or>
    (\<forall>b. \<not> free_block L (sb s) b) \<and> balloc 1 s = Panic ''balloc: out of blocks''"
proof -
  let ?q = "sb s" let ?N = "unat (sb_size ?q)"
  let ?bs = "map (\<lambda>k. BPB * k) [0..<(?N + BPB - 1) div BPB]"
  have r: "room s bl (Suc (Suc 0))" using assms(2) by (simp add: numeral_2_eq_2)
  have fb: "free_block L ?q (b + bi) \<longleftrightarrow> b + bi < ?N \<and> \<not> bm_used (L (BBLOCK (of_nat b) ?q)) bi"
    and bb: "b + bi < ?N \<Longrightarrow> BBLOCK (of_nat (b + bi)) ?q = BBLOCK (of_nat b) ?q"
    if b: "b \<in> set ?bs" "bi < BPB" for b bi
  proof -
    obtain k where k: "b = BPB * k" using b(1) by auto
    have m: "(b + bi) div BPB = b div BPB" "(b + bi) mod BPB = bi" using b(2) k by simp_all
    show bb: "BBLOCK (of_nat (b + bi)) ?q = BBLOCK (of_nat b) ?q" if "b + bi < ?N"
      using BBLOCK_eq_iff[of "b + bi" b ?q] size_less[OF that] m(1) by simp
    show "free_block L ?q (b + bi) \<longleftrightarrow> b + bi < ?N \<and> \<not> bm_used (L (BBLOCK (of_nat b) ?q)) bi"
      using bb m(2) by (auto simp: free_block_def)
  qed
  have "BPB * k < ?N" if "k < (?N + BPB - 1) div BPB" for k
  proof -
    have "Suc k * BPB \<le> (?N + BPB - 1) div BPB * BPB" using that by (intro mult_le_mono1) simp
    also have "\<dots> \<le> ?N + BPB - 1" by (rule div_times_less_eq_dividend)
    finally show ?thesis by (simp add: BPB_def)
  qed
  then have db: "\<forall>b \<in> set ?bs. data_block s (BBLOCK (of_nat b) ?q)" using assms(3) by (auto simp: bitmap_ok_def simp del: of_nat_mult)
  have df: "\<forall>b \<in> set ?bs. \<forall>bi < BPB. b + bi < ?N \<and> \<not> bm_used (L (BBLOCK (of_nat b) ?q)) bi \<longrightarrow> data_block s (of_nat (b + bi))"
  proof (intro ballI allI impI)
    fix b bi assume a: "b \<in> set ?bs" "bi < BPB" "b + bi < ?N \<and> \<not> bm_used (L (BBLOCK (of_nat b) ?q)) bi"
    have "free_block L ?q (b + bi)" unfolding fb[OF a(1,2)] by (rule a(3))
    then show "data_block s (of_nat (b + bi))" using assms(3) unfolding bitmap_ok_def by blast
  qed
  from balloc_loop_tx[OF assms(1) r refl db df] show ?thesis
  proof (elim disjE exE conjE)
    fix b bi w
    let ?c = "b + bi" and ?n = "BBLOCK (of_nat b) ?q"
    let ?L = "L(?n := bm_set (L ?n) bi, of_nat ?c := replicate BSIZE 0)"
    assume hit: "b \<in> set ?bs" "bi < BPB" "?c < ?N" "\<not> bm_used (L ?n) bi" "balloc_loop 1 ?bs s = Ok (of_nat ?c) w" "lframe s w"
      "tx w ?L (add_block (of_nat ?c) (add_block ?n bl))"
    obtain k where k: "b = BPB * k" using hit(1) by auto
    have c: "unat (of_nat ?c :: uint) = ?c" "BBLOCK (of_nat ?c) ?q = ?n" "?c mod BPB = bi"
      using size_less[OF hit(3)] bb[OF hit(1-3)] hit(2) k by (simp_all add: unat_of_nat del: of_nat_add)
    have fc: "free_block L ?q ?c" using fb[OF hit(1,2)] hit(3,4) by blast
    have ne: "\<And>d. d < ?N \<Longrightarrow> (of_nat ?c :: uint) \<noteq> BBLOCK (of_nat d) ?q" using assms(3) fc unfolding bitmap_ok_def by blast
    note f = free_block_set[where L = L and b = ?c and q = ?q and x = "of_nat ?c" and z = "replicate BSIZE 0", OF tx_length[OF assms(1)] hit(3) ne, unfolded c(2,3)]
    show ?thesis
    proof (rule disjI1, intro exI conjI)
      show "balloc 1 s = Ok (of_nat ?c) w" using hit(5) by (simp add: balloc_def)
      show "tx w ?L (add_block (of_nat ?c) (add_block ?n bl))" by (rule hit(7))
      show "sb w = sb s" using lframe_fs[OF hit(6)] by simp
      show "\<forall>d. free_block ?L ?q d \<longleftrightarrow> free_block L ?q d \<and> d \<noteq> unat (of_nat ?c :: uint)" unfolding c(1) using f by blast
      show "free_block L ?q (unat (of_nat ?c :: uint))" unfolding c(1) by (rule fc)
    qed (simp_all add: c(2) del: of_nat_add)
  next
    assume full: "\<forall>b \<in> set ?bs. \<forall>bi < BPB. b + bi < ?N \<longrightarrow> bm_used (L (BBLOCK (of_nat b) ?q)) bi" "balloc_loop 1 ?bs s = Panic ''balloc: out of blocks''"
    have "\<not> free_block L ?q b" for b
    proof
      assume a: "free_block L ?q b"
      then have "b < ?N" by (simp add: free_block_def)
      let ?b = "BPB * (b div BPB)"
      have m: "?b \<in> set ?bs" using \<open>b < ?N\<close> balloc_range[of b ?N] by auto
      have l: "b mod BPB < BPB" and e: "?b + b mod BPB = b" by (simp_all add: BPB_def)
      have "bm_used (L (BBLOCK (of_nat ?b) ?q)) (b mod BPB)" using full(1) m l \<open>b < ?N\<close> e by metis
      moreover have "\<not> bm_used (L (BBLOCK (of_nat ?b) ?q)) (b mod BPB)" using a fb[OF m l] unfolding e by blast
      ultimately show False by contradiction
    qed
    then show ?thesis using full(2) by (simp add: balloc_def)
  qed
qed

lemma bit_and_not_one: "k < 8 \<Longrightarrow> bit ((w :: uchar) AND NOT (push_bit k 1)) j \<longleftrightarrow> bit w j \<and> j \<noteq> k"
  by (auto simp: bit_and_iff bit_not_iff bit_exp_iff dest: bit_imp_le_length)

lemma length_bm_clear [simp]: "length (bm_clear d bi) = length d"
  by (simp add: bm_clear_def)

lemma bm_used_clear:
  assumes "length d = BSIZE" "bi < BPB"
  shows "bm_used (bm_clear d bi) bj \<longleftrightarrow> bj \<noteq> bi \<and> bm_used d bj"
proof -
  have l: "bi div 8 < length d" using assms by (simp add: BPB_def BSIZE_def)
  have "bj = bi \<longleftrightarrow> bj div 8 = bi div 8 \<and> bj mod 8 = bi mod 8" by (metis div_mult_mod_eq)
  then show ?thesis using l bit_and_not_one[of "bi mod 8" "d ! (bi div 8)" "bj mod 8"]
    by (cases "bj div 8 = bi div 8") (auto simp: bm_used_def bm_clear_def)
qed

lemma free_block_clear:
  assumes "\<And>n. length (L n) = BSIZE" "b < unat (sb_size q)"
  shows "free_block (L(BBLOCK (of_nat b) q := bm_clear (L (BBLOCK (of_nat b) q)) (b mod BPB))) q c \<longleftrightarrow> free_block L q c \<or> c = b"
proof (cases "c < unat (sb_size q)")
  case True
  have eq: "BBLOCK (of_nat c) q = BBLOCK (of_nat b) q \<longleftrightarrow> c div BPB = b div BPB"
    using BBLOCK_eq_iff size_less assms(2) True by blast
  have "b mod BPB < BPB" by (simp add: BPB_def)
  note u = bm_used_clear[OF assms(1) this, of "BBLOCK (of_nat b) q" "c mod BPB"]
  have "c = b \<longleftrightarrow> c div BPB = b div BPB \<and> c mod BPB = b mod BPB" by (metis div_mult_mod_eq)
  then show ?thesis using True eq u by (cases "c div BPB = b div BPB") (auto simp: free_block_def)
qed (use assms(2) in \<open>auto simp: free_block_def\<close>)

lemma readsb_tx:
  assumes "tx s L bl" "room s bl (Suc k)" "1 < disksize s"
  obtains w where "readsb 1 s = Ok (sb_of (L 1)) w" "tx w L bl" "lframe s w"
proof -
  obtain i u w where u: "bread 1 1 s = Ok i u" "bdata i u = Ok (L 1) u" "brelse i u = Ok () w" "tx w L bl" "lframe s w"
    using tx_read[OF assms] by blast
  have "readsb 1 s = Ok (sb_of (L 1)) w"
    unfolding readsb_def bnd_Ok[of "bread 1 1" s, OF u(1)] bnd_Ok[of "bdata i" u, OF u(2)] by (rule seq_Ok[of "brelse i" u, OF u(3)])
  then show thesis using that u(4,5) by blast
qed

lemma tx_fs [simp]: "tx (s\<lparr>sb := q\<rparr>) = tx s" "room (s\<lparr>sb := q\<rparr>) = room s" "data_block (s\<lparr>sb := q\<rparr>) = data_block s"
  "tx (s\<lparr>inodes := x\<rparr>) = tx s"
proof -
  have "bview (s\<lparr>sb := q\<rparr>) = bview s" "bview (s\<lparr>inodes := x\<rparr>) = bview s" by (rule bview_cong; simp add: thr_ok_def)+
  then show "tx (s\<lparr>sb := q\<rparr>) = tx s" "tx (s\<lparr>inodes := x\<rparr>) = tx s" by (auto simp: tx_def log_state_def fun_eq_iff)
qed (auto simp: room_def data_block_def fun_eq_iff)

text \<open>
  Claim C34. \<open>bfree\<close> of a block in use makes exactly this block free again and changes nothing but its bitmap block; a
  block that is free already makes it panic.
\<close>

theorem bfree_frees_block:
  assumes "tx s L bl" "room s bl 1" "1 < disksize s" "sb_of (L 1) = q" "unat b < unat (sb_size q)" "data_block s (BBLOCK b q)"
  shows "if free_block L q (unat b) then bfree 1 b s = Panic ''freeing free block''
    else \<exists>w L' bl'. bfree 1 b s = Ok () w \<and> tx w L' bl' \<and> sb w = q \<and> (\<forall>c. free_block L' q c \<longleftrightarrow> free_block L q c \<or> c = unat b) \<and>
      (\<forall>n. n \<noteq> BBLOCK b q \<longrightarrow> L' n = L n)"
proof -
  let ?n = "BBLOCK b q" and ?bi = "unat b mod BPB"
  have r: "room s bl (Suc 0)" using assms(2) by simp
  obtain x where x: "readsb 1 s = Ok q x" "tx x L bl" "lframe s x" using readsb_tx[OF assms(1) r assms(3)] assms(4) by metis
  let ?x = "x\<lparr>sb := q\<rparr>"
  have p: "tx ?x L bl" "room ?x bl (Suc 0)" "data_block ?x ?n" using x(2) r assms(6) lframe_keeps[OF x(3)] by simp_all
  obtain i u where u: "bread 1 ?n ?x = Ok i u" "bdata i u = Ok (L ?n) u"
    "\<And>d. length d = BSIZE \<Longrightarrow> \<exists>w. seq (set_bdata i d) (seq (log_write i) (brelse i)) u = Ok () w \<and> tx w (L(?n := d)) (add_block ?n bl) \<and> lframe ?x w"
    using tx_update[OF p] by metis
  have e: "bfree 1 b s = (if \<not> bm_used (L ?n) ?bi then panic ''freeing free block''
      else seq (set_bdata i (bm_clear (L ?n) ?bi)) (seq (log_write i) (brelse i))) u"
    unfolding bfree_def bnd_Ok[of "readsb 1" s, OF x(1)] by (simp add: bnd_Ok[of "bread 1 ?n" ?x, OF u(1)] bnd_Ok[of "bdata i" u, OF u(2)] Let_def)
  have fb: "free_block L q (unat b) \<longleftrightarrow> \<not> bm_used (L ?n) ?bi" using assms(5) by (simp add: free_block_def)
  show ?thesis
  proof (cases "bm_used (L ?n) ?bi")
    case True
    have "length (bm_clear (L ?n) ?bi) = BSIZE" using tx_length[OF assms(1)] by simp
    from u(3)[OF this] obtain w where w: "seq (set_bdata i (bm_clear (L ?n) ?bi)) (seq (log_write i) (brelse i)) u = Ok () w"
      "tx w (L(?n := bm_clear (L ?n) ?bi)) (add_block ?n bl)" "lframe ?x w" by blast
    have "bfree 1 b s = Ok () w" "sb w = q" using e True w(1) lframe_fs[OF w(3)] by simp_all
    moreover have "\<forall>c. free_block (L(?n := bm_clear (L ?n) ?bi)) q c \<longleftrightarrow> free_block L q c \<or> c = unat b"
      using free_block_clear[where L = L and b = "unat b" and q = q, OF tx_length[OF assms(1)] assms(5)] by simp
    moreover have "\<forall>m. m \<noteq> ?n \<longrightarrow> (L(?n := bm_clear (L ?n) ?bi)) m = L m" by simp
    ultimately have "\<exists>w L' bl'. bfree 1 b s = Ok () w \<and> tx w L' bl' \<and> sb w = q \<and> (\<forall>c. free_block L' q c \<longleftrightarrow> free_block L q c \<or> c = unat b) \<and>
      (\<forall>n. n \<noteq> BBLOCK b q \<longrightarrow> L' n = L n)" using w(2) by (intro exI conjI)
    then show ?thesis using True fb by (simp only: if_False not_True_eq_False)
  next
    case False
    then show ?thesis using e fb by simp
  qed
qed

subsection \<open>Inodes on the disk\<close>

lemma slice_splice_in:
  assumes "off + length xs \<le> length d" "a + n \<le> length xs"
  shows "slice (splice d off xs) (off + a) n = slice xs a n"
  using assms by (intro nth_equalityI) (auto simp: nth_slice nth_splice)

lemma slice_concat_le32: "k < length as \<Longrightarrow> slice (concat (map le32 as)) (4 * k) 4 = le32 (as ! k)"
proof (induction as arbitrary: k)
  case (Cons a as)
  then show ?case by (cases k) (auto simp: slice_def)
qed simp

lemma length_concat_le32: "length (concat (map le32 as)) = 4 * length as"
  by (induction as) simp_all

definition dinode_ok :: "dinode \<Rightarrow> bool" where
  "dinode_ok x \<longleftrightarrow> length (d_addrs x) = NDIRECT + 3"

lemma length_enc_dinode: "dinode_ok x \<Longrightarrow> length (enc_dinode x) = 64"
  by (simp add: enc_dinode_def length_concat_le32 dinode_ok_def NDIRECT_def)

lemma slice_append_right: "length xs \<le> a \<Longrightarrow> slice (xs @ ys) a n = slice ys (a - length xs) n"
  by (simp add: slice_def)

lemma slice_append_left: "a + n \<le> length xs \<Longrightarrow> slice (xs @ ys) a n = slice xs a n"
  by (simp add: slice_def)

lemma slice_all: "length xs = n \<Longrightarrow> slice xs 0 n = xs"
  by (simp add: slice_def)

lemma enc_dinode_fields:
  assumes "dinode_ok x"
  shows "slice (enc_dinode x) 0 2 = le16 (d_type x)" "slice (enc_dinode x) 2 2 = le16 (d_major x)" "slice (enc_dinode x) 4 2 = le16 (d_minor x)"
    "slice (enc_dinode x) 6 2 = le16 (d_nlink x)" "slice (enc_dinode x) 8 4 = le32 (d_size x)"
    "k < NDIRECT + 3 \<Longrightarrow> slice (enc_dinode x) (12 + 4 * k) 4 = le32 (d_addrs x ! k)"
  using assms by (simp_all add: enc_dinode_def slice_append_right slice_append_left slice_all slice_concat_le32 dinode_ok_def)

lemma dinode_at_enc:
  assumes "dinode_ok x" "off + 64 \<le> length d"
  shows "dinode_at (splice d off (enc_dinode x)) off = x"
proof -
  note l = length_enc_dinode[OF assms(1)]
  have s: "slice (splice d off (enc_dinode x)) (off + a) n = slice (enc_dinode x) a n" if "a + n \<le> 64" for a n
    using slice_splice_in[of off "enc_dinode x" d a n] l assms(2) that by simp
  note s0 = s[of 0 2, simplified]
  have "map (\<lambda>k. un32 (slice (splice d off (enc_dinode x)) (off + 12 + 4 * k) 4)) [0..<NDIRECT + 3] = d_addrs x"
  proof (rule nth_equalityI)
    fix k assume "k < length (map (\<lambda>k. un32 (slice (splice d off (enc_dinode x)) (off + 12 + 4 * k) 4)) [0..<NDIRECT + 3])"
    then have k: "k < NDIRECT + 3" by simp
    then have "slice (splice d off (enc_dinode x)) (off + (12 + 4 * k)) 4 = le32 (d_addrs x ! k)"
      using s[of "12 + 4 * k" 4] enc_dinode_fields(6)[OF assms(1)] by (simp add: NDIRECT_def)
    then show "map (\<lambda>k. un32 (slice (splice d off (enc_dinode x)) (off + 12 + 4 * k) 4)) [0..<NDIRECT + 3] ! k = d_addrs x ! k"
      using k by (simp add: add.assoc)
  qed (use assms(1) in \<open>simp add: dinode_ok_def\<close>)
  then show ?thesis unfolding dinode_at_def using s0 s enc_dinode_fields(1-5)[OF assms(1)] by (simp del: add_2_eq_Suc')
qed

lemma dinode_at_cong:
  assumes "\<And>a n. a + n \<le> 64 \<Longrightarrow> slice d (off + a) n = slice d' (off + a) n"
  shows "dinode_at d off = dinode_at d' off"
proof -
  have "map (\<lambda>k. un32 (slice d (off + 12 + 4 * k) 4)) [0..<NDIRECT + 3] = map (\<lambda>k. un32 (slice d' (off + 12 + 4 * k) 4)) [0..<NDIRECT + 3]"
    using assms[of "12 + 4 * k" 4 for k] by (auto simp: NDIRECT_def add.assoc)
  then show ?thesis using assms[of 0 2] assms[of 2 2] assms[of 4 2] assms[of 6 2] assms[of 8 4] by (simp add: dinode_at_def)
qed

lemma dinode_at_other:
  assumes "dinode_ok x" "length d = BSIZE" "j < IPB" "k < IPB" "j \<noteq> k"
  shows "dinode_at (splice d (64 * j) (enc_dinode x)) (64 * k) = dinode_at d (64 * k)"
proof (rule dinode_at_cong)
  fix a n :: nat assume a: "a + n \<le> 64"
  have "64 * k + 64 \<le> 64 * j \<or> 64 * j + 64 \<le> 64 * k" using assms(5) by linarith
  then show "slice (splice d (64 * j) (enc_dinode x)) (64 * k + a) n = slice d (64 * k + a) n"
    using a assms(2-4) length_enc_dinode[OF assms(1)] by (intro slice_splice_other) (auto simp: BSIZE_def IPB_def)
qed

definition inode_ok :: "inode \<Rightarrow> bool" where
  "inode_ok ip \<longleftrightarrow> length (i_addrs ip) = NDIRECT + 3"

lemma iupdate_tx:
  assumes "tx s L bl" "room s bl 1" "i_dev (iget_inode i s) = 1" "inode_ok (iget_inode i s)" "data_block s (IBLOCK (i_inum (iget_inode i s)) (sb s))"
  defines "ip \<equiv> iget_inode i s" and "n \<equiv> IBLOCK (i_inum (iget_inode i s)) (sb s)"
  obtains w where "iupdate i s = Ok () w" "tx w (L(n := splice (L n) (dioff (i_inum ip)) (enc_dinode (to_dinode ip)))) (add_block n bl)" "lframe s w"
proof -
  have r: "room s bl (Suc 0)" and n: "data_block s n" using assms(2,5) by (simp_all add: n_def)
  obtain k u where u: "bread 1 n s = Ok k u" "bdata k u = Ok (L n) u"
    "\<And>d. length d = BSIZE \<Longrightarrow> \<exists>w. seq (set_bdata k d) (seq (log_write k) (brelse k)) u = Ok () w \<and> tx w (L(n := d)) (add_block n bl) \<and> lframe s w"
    using tx_update[OF assms(1) r n] by metis
  let ?d = "splice (L n) (dioff (i_inum ip)) (enc_dinode (to_dinode ip))"
  have "dinode_ok (to_dinode ip)" using assms(4) by (simp add: dinode_ok_def to_dinode_def inode_ok_def ip_def)
  moreover have "dioff (i_inum ip) + 64 \<le> BSIZE" by (simp add: dioff_def IPB_def BSIZE_def)
  ultimately have "length ?d = BSIZE" using length_enc_dinode tx_length[OF assms(1), of n] by simp
  from u(3)[OF this] obtain w where
    w: "seq (set_bdata k ?d) (seq (log_write k) (brelse k)) u = Ok () w" "tx w (L(n := ?d)) (add_block n bl)" "lframe s w" by blast
  have "iupdate i s = seq (set_bdata k ?d) (seq (log_write k) (brelse k)) u"
    unfolding iupdate_def bnd_gets assms(3) n_def[symmetric] bnd_Ok[of "bread 1 n" s, OF u(1)] bnd_Ok[of "bdata k" u, OF u(2)] ip_def ..
  then show thesis using that w by simp
qed

lemma iset_sel [simp]: "inodes (iset i f s) = (inodes s)[i := f (inodes s ! i)]" "sb (iset i f s) = sb s" "tx (iset i f s) = tx s"
  by (simp_all add: iset_def)

lemma ilock_read_tx:
  assumes "tx s L bl" "room s bl 1" "i < length (inodes s)" "i_dev (iget_inode i s) = 1" "\<not> i_valid (iget_inode i s)"
    "IBLOCK (i_inum (iget_inode i s)) (sb s) < disksize s"
  defines "x \<equiv> dinode_at (L (IBLOCK (i_inum (iget_inode i s)) (sb s))) (dioff (i_inum (iget_inode i s)))"
  assumes "d_type x \<noteq> 0"
  shows "\<exists>w. ilock_read i s = Ok () w \<and> tx w L bl \<and> i_valid (iget_inode i w) \<and> to_dinode (iget_inode i w) = x"
proof -
  let ?n = "IBLOCK (i_inum (iget_inode i s)) (sb s)"
  have v: "bview s L (disk s) (wtrace s) (set bl) Map.empty" using assms(1) by (simp add: tx_def)
  have "card (set bl) < NBUF" using tx_card[OF assms(1), of 0] assms(2) by simp
  with bread_view[OF v assms(6)] obtain k u where
    u: "bread 1 ?n s = Ok k u" "bview u L (disk s) (wtrace s) (set bl) [?n \<mapsto> k]" "bframe s u" by auto
  have K: "[?n \<mapsto> k] ?n = Some k" by simp
  have b: "bdata k u = Ok (L ?n) u" using bview_data[OF u(2) K] by (simp add: bdata_def)
  let ?u = "iset i (load_inode x) u"
  have "bview ?u = bview u" unfolding iset_def by (rule bview_cong; simp add: thr_ok_def)
  then have "bview ?u L (disk s) (wtrace s) (set bl) [?n \<mapsto> k]" using u(2) by simp
  from brelse_view[OF this K] obtain w where
    w: "brelse k ?u = Ok () w" "bview w L (disk s) (wtrace s) (set bl) Map.empty" "bframe ?u w" unfolding map_del1 by blast
  have lu: "log_state ?u bl" "1 \<le> lg_outstanding ?u" using assms(1) log_state_frame[OF u(3)] lframe_sel(3)[OF bframe_lframe[OF u(3)]]
    by (auto simp: tx_def iset_def log_state_def)
  have "tx w L bl" using w(2) lu log_state_frame[OF w(3)] lframe_sel(3)[OF bframe_lframe[OF w(3)]] by (auto simp: tx_def bview_def)
  have iw: "inodes w = (inodes s)[i := load_inode x (inodes s ! i)]"
    using lframe_fs[OF bframe_lframe[OF w(3)]] lframe_fs[OF bframe_lframe[OF u(3)]] by simp
  let ?w = "iset i (\<lambda>p. p\<lparr>i_valid := True\<rparr>) w"
  have ty: "i_type (iget_inode i ?w) \<noteq> 0" "i_valid (iget_inode i ?w)" "to_dinode (iget_inode i ?w) = x"
    using iw assms(3,8) by (simp_all add: iget_inode_def load_inode_def to_dinode_def)
  have "ilock_read i s = seq (modify (iset i (load_inode x))) (seq (brelse k) (seq (modify (iset i (\<lambda>p. p\<lparr>i_valid := True\<rparr>)))
     (bnd (gets (iget_inode i)) (\<lambda>ip. if i_type ip = 0 then panic ''ilock: no type'' else ret ())))) u"
    unfolding ilock_read_def bnd_gets assms(4) bnd_Ok[of "bread 1 ?n" s, OF u(1)] bnd_Ok[of "bdata k" u, OF b] x_def using assms(5) by (simp add: whenM_def bnd_Ok[of "bread 1 ?n" s, OF u(1)] bnd_Ok[of "bdata k" u, OF b])
  also have "\<dots> = seq (brelse k) (seq (modify (iset i (\<lambda>p. p\<lparr>i_valid := True\<rparr>)))
     (bnd (gets (iget_inode i)) (\<lambda>ip. if i_type ip = 0 then panic ''ilock: no type'' else ret ()))) ?u" by simp
  also have "\<dots> = Ok () ?w" using ty(1) unfolding seq_Ok[of "brelse k" ?u, OF w(1)] by simp
  finally show ?thesis using ty(2,3) \<open>tx w L bl\<close> by (intro exI[of _ ?w]) simp
qed

text \<open>
  Claim C8. What \<open>iupdate\<close> writes to the disk block of an inode decodes to the fields of the cached inode; the other inodes of the
  block, all other blocks and the inode cache are unchanged.  Reading the inode into another entry of the cache, as \<open>ilock\<close>
  does, gives the same fields.
\<close>

theorem iupdate_roundtrip:
  assumes "tx s L bl" "room s bl 2" "i_dev (iget_inode i s) = 1" "inode_ok (iget_inode i s)" "data_block s (IBLOCK (i_inum (iget_inode i s)) (sb s))"
  defines "ip \<equiv> iget_inode i s" and "n \<equiv> IBLOCK (i_inum (iget_inode i s)) (sb s)"
  shows "\<exists>w L' bl'. iupdate i s = Ok () w \<and> tx w L' bl' \<and> inodes w = inodes s \<and> sb w = sb s \<and>
    dinode_at (L' n) (dioff (i_inum ip)) = to_dinode ip \<and>
    (\<forall>k < IPB. k \<noteq> unat (i_inum ip) mod IPB \<longrightarrow> dinode_at (L' n) (64 * k) = dinode_at (L n) (64 * k)) \<and> (\<forall>m. m \<noteq> n \<longrightarrow> L' m = L m) \<and>
    (\<forall>j < length (inodes s). i_dev (iget_inode j s) = 1 \<and> i_inum (iget_inode j s) = i_inum ip \<and> \<not> i_valid (iget_inode j s) \<and> i_type ip \<noteq> 0 \<longrightarrow>
      (\<exists>w'. ilock_read j w = Ok () w' \<and> to_dinode (iget_inode j w') = to_dinode ip))"
proof -
  let ?d = "splice (L n) (dioff (i_inum ip)) (enc_dinode (to_dinode ip))"
  have r: "room s bl 1" "room s (add_block n bl) 1" using room_less[OF assms(2), of 1] room_add[of s bl 1 n] assms(2) by (simp_all add: numeral_2_eq_2)
  obtain w where w: "iupdate i s = Ok () w" "tx w (L(n := ?d)) (add_block n bl)" "lframe s w"
    using iupdate_tx[OF assms(1) r(1) assms(3-5)] unfolding ip_def n_def by blast
  note f = lframe_fs[OF w(3)]
  have o: "dinode_ok (to_dinode ip)" using assms(4) by (simp add: dinode_ok_def to_dinode_def inode_ok_def ip_def)
  have "dioff (i_inum ip) + 64 \<le> length (L n)" unfolding tx_length[OF assms(1)] by (simp add: dioff_def IPB_def BSIZE_def)
  note d = dinode_at_enc[OF o this]
  have "\<forall>k < IPB. k \<noteq> unat (i_inum ip) mod IPB \<longrightarrow> dinode_at ?d (64 * k) = dinode_at (L n) (64 * k)"
    unfolding dioff_def using dinode_at_other[OF o tx_length[OF assms(1)], of "unat (i_inum ip) mod IPB"] by (simp add: IPB_def)
  moreover have "\<exists>w'. ilock_read j w = Ok () w' \<and> to_dinode (iget_inode j w') = to_dinode ip"
    if j: "j < length (inodes s)" "i_dev (iget_inode j s) = 1" "i_inum (iget_inode j s) = i_inum ip" "\<not> i_valid (iget_inode j s)" "i_type ip \<noteq> 0" for j
  proof -
    have g: "iget_inode j w = iget_inode j s" using f by (simp add: iget_inode_def)
    have b: "IBLOCK (i_inum (iget_inode j w)) (sb w) = n" using f j(3) g by (simp add: n_def ip_def)
    have x: "dinode_at ((L(n := ?d)) (IBLOCK (i_inum (iget_inode j w)) (sb w))) (dioff (i_inum (iget_inode j w))) = to_dinode ip"
      unfolding b unfolding g j(3) using d by simp
    have "n < disksize w" using assms(5) lframe_sel(6)[OF w(3)] by (simp add: data_block_def n_def)
    then show ?thesis using ilock_read_tx[OF w(2), of j] r(2) lframe_keeps(2)[OF w(3)] j f x b unfolding g by (auto simp: to_dinode_def)
  qed
  ultimately show ?thesis using w(1,2) d f by (intro exI[of _ w] exI[of _ "L(n := ?d)"] exI[of _ "add_block n bl"]) simp
qed

subsection \<open>A disk to try them on\<close>

text \<open>\<open>image1\<close> is \<open>image0\<close> with a bitmap in which only block 70 is free.\<close>

definition fs0 :: fsst where
  "fs0 = logst.extend log0 (fsst.fields (sb_of []) [] (\<lambda>_. None) (\<lambda>_. None))"

definition image1 :: "uint \<Rightarrow> bytes" where
  "image1 = image0(58 := bm_clear (replicate BSIZE 255) 70)"

lemma fs0_ok: "thr_ok fs0" "length (lh_block fs0) = LOGSIZE" "lg_outstanding fs0 = 1"
proof -
  have "held fs0 = held log0" "c_proc fs0 = c_proc log0" "ptable fs0 = ptable log0" "lh_block fs0 = lh_block log0" "lg_outstanding fs0 = lg_outstanding log0"
    by (simp_all add: fs0_def log0_def biost.defs logst.defs fsst.defs)
  then show "thr_ok fs0" "length (lh_block fs0) = LOGSIZE" "lg_outstanding fs0 = 1" using log0_ok by (simp_all add: thr_ok_def)
qed

lemma image1_booted:
  obtains s where "boot image1 100 fs0 = Ok () s" "tx s image1 []" "room s [] 2" "disksize s = 100" "lg_start s = 2" "lg_size s = 30"
proof -
  have i: "image1 1 = image0 1" "image1 2 = image0 2" "\<And>m. length (image1 m) = BSIZE"
    by (simp_all add: image1_def image0_ok)
  have r: "recoverable 2 30 100 image1" by (simp add: recoverable_def log_fits_def i image0_ok image0_head)
  have w: "recover_writes 2 image1 = [(2, image1 2)]" by (simp add: recover_writes_def home_writes_def i image0_ok image0_head)
  have e: "apply_writes [(2, image1 2)] image1 = image1" by auto
  have n: "sint (30 :: uint) = 30" "(1 :: uint) < 100" by simp_all
  obtain s where s: "boot image1 100 fs0 = Ok () s" "bview s image1 image1 [(2, image1 2)] {} Map.empty" "log_state s []"
    "lg_start s = 2" "lg_size s = 30" "disksize s = 100" "lg_outstanding s = 1"
    using boot_view[where D = image1 and n = 100 and b = fs0, OF fs0_ok(1,2) i(3)] r n
    unfolding i(1) image0_ok w e fs0_ok(3) by metis
  have "tx s image1 []" using s(2,3,7) by (simp add: tx_def bview_def)
  moreover have "room s [] 2" using s(5) by (simp add: room_def LOGSIZE_def NBUF_def)
  ultimately show thesis using that s by blast
qed

abbreviation sb0 :: superblock where
  "sb0 \<equiv> sb_of (image0 1)"

lemma sb0_ok: "sb_size sb0 = 1000" "sb_inodestart sb0 = 32" "sb_bmapstart sb0 = 58"
  by (simp_all add: image0_def sb_of_def word_at_def BSIZE_def slice_def un32_def le32_def)

lemma BBLOCK_sb0: "b < 1000 \<Longrightarrow> BBLOCK (of_nat b) sb0 = 58"
  using BBLOCK_nat[of b sb0] by (simp add: sb0_ok BPB_def)

lemma image1_free: "free_block image1 sb0 b \<longleftrightarrow> b = 70"
proof -
  have m: "(255 :: uchar) = mask 8" by (simp add: mask_eq_exp_minus_1)
  have "bm_used (replicate BSIZE 255) b" if "b < 1000" using that by (simp add: bm_used_def BSIZE_def m bit_mask_iff)
  then show ?thesis using bm_used_clear[of "replicate BSIZE 255" 70 b] BBLOCK_sb0[of b]
    by (auto simp: free_block_def sb0_ok image1_def BPB_def)
qed

lemma image1_bitmap:
  assumes "disksize s = 100" "lg_start s = 2" "lg_size s = 30"
  shows "bitmap_ok s image1 sb0"
  using assms by (auto simp: bitmap_ok_def image1_free sb0_ok BBLOCK_sb0 data_block_def log_area_def)

theorem balloc_takes_free_block_witness:
  "\<exists>s w. boot image1 100 fs0 = Ok () s \<and> balloc 1 (s\<lparr>sb := sb0\<rparr>) = Ok 70 w"
proof -
  obtain s where s: "boot image1 100 fs0 = Ok () s" "tx s image1 []" "room s [] 2" "disksize s = 100" "lg_start s = 2" "lg_size s = 30"
    by (rule image1_booted)
  let ?s = "s\<lparr>sb := sb0\<rparr>"
  have "tx ?s image1 []" "room ?s [] 2" "bitmap_ok ?s image1 (sb ?s)" using s image1_bitmap[of ?s] by simp_all
  from balloc_takes_free_block[OF this] obtain b w where "balloc 1 ?s = Ok b w" "free_block image1 sb0 (unat b)"
    using image1_free by fastforce
  moreover from this(2) have "b = 70" unfolding image1_free by (simp add: word_unat_eq_iff)
  ultimately show ?thesis using s(1) by blast
qed

theorem bfree_frees_block_witness:
  "\<exists>s w. boot image1 100 fs0 = Ok () s \<and> bfree 1 70 s = Panic ''freeing free block'' \<and> bfree 1 71 s = Ok () w"
proof -
  obtain s where s: "boot image1 100 fs0 = Ok () s" "tx s image1 []" "room s [] 2" "disksize s = 100" "lg_start s = 2" "lg_size s = 30"
    by (rule image1_booted)
  have r: "room s [] 1" using s(3) by (rule room_less) simp
  have i: "sb_of (image1 1) = sb0" by (simp add: image1_def)
  have d: "1 < disksize s" "data_block s (BBLOCK 70 sb0)" "data_block s (BBLOCK 71 sb0)"
    using s(4-6) BBLOCK_sb0[of 70] BBLOCK_sb0[of 71] by (simp_all add: data_block_def log_area_def)
  have "bfree 1 70 s = Panic ''freeing free block''"
    using bfree_frees_block[OF s(2) r d(1) i _ d(2)] by (simp add: sb0_ok image1_free)
  moreover have "\<exists>w. bfree 1 71 s = Ok () w"
    using bfree_frees_block[OF s(2) r d(1) i _ d(3)] by (auto simp: sb0_ok image1_free)
  ultimately show ?thesis using s(1) by blast
qed

definition inode0 :: inode where
  "inode0 = \<lparr>i_dev = 1, i_inum = 9, i_ref = 1, i_valid = True, i_type = T_FILE, i_major = 0, i_minor = 0, i_nlink = 1, i_size = 5,
     i_addrs = replicate (NDIRECT + 3) 70\<rparr>"

theorem iupdate_roundtrip_witness:
  "\<exists>s w w'. boot image1 100 fs0 = Ok () s \<and>
    iupdate 0 (s\<lparr>sb := sb0, inodes := [inode0, inode0\<lparr>i_valid := False, i_size := 0\<rparr>]\<rparr>) = Ok () w \<and>
    ilock_read 1 w = Ok () w' \<and> i_size (iget_inode 1 w') = 5"
proof -
  obtain s where s: "boot image1 100 fs0 = Ok () s" "tx s image1 []" "room s [] 2" "disksize s = 100" "lg_start s = 2" "lg_size s = 30"
    by (rule image1_booted)
  let ?s = "s\<lparr>sb := sb0, inodes := [inode0, inode0\<lparr>i_valid := False, i_size := 0\<rparr>]\<rparr>"
  have b: "IBLOCK 9 sb0 = 33" by (simp add: IBLOCK_def sb0_ok IPB_def)
  have p: "tx ?s image1 []" "room ?s [] 2" "i_dev (iget_inode 0 ?s) = 1" "inode_ok (iget_inode 0 ?s)"
    "data_block ?s (IBLOCK (i_inum (iget_inode 0 ?s)) (sb ?s))"
    using s b by (simp_all add: room_def iget_inode_def inode0_def inode_ok_def data_block_def log_area_def)
  obtain w where w: "iupdate 0 ?s = Ok () w"
    "\<forall>j < length (inodes ?s). i_dev (iget_inode j ?s) = 1 \<and> i_inum (iget_inode j ?s) = i_inum (iget_inode 0 ?s) \<and> \<not> i_valid (iget_inode j ?s) \<and>
      i_type (iget_inode 0 ?s) \<noteq> 0 \<longrightarrow> (\<exists>w'. ilock_read j w = Ok () w' \<and> to_dinode (iget_inode j w') = to_dinode (iget_inode 0 ?s))"
    using iupdate_roundtrip[OF p] by blast
  have "\<exists>w'. ilock_read 1 w = Ok () w' \<and> to_dinode (iget_inode 1 w') = to_dinode (iget_inode 0 ?s)"
    using w(2)[rule_format, of 1] by (simp add: iget_inode_def inode0_def T_FILE_def)
  then obtain w' where "ilock_read 1 w = Ok () w'" "to_dinode (iget_inode 1 w') = to_dinode inode0" by (auto simp: iget_inode_def)
  moreover from this(2) have "i_size (iget_inode 1 w') = 5" by (simp add: to_dinode_def inode0_def)
  ultimately show ?thesis using s(1) w(1) by blast
qed

end
