(* ===== verification/Proc.thy ===== *)
theory Proc
  imports File Vm Fsblocks
begin

text \<open>
  The life of processes and threads (the first half of proc.c): creation, growth, exit, wait and join.  \<open>kd\<close>, \<open>forkret_a\<close> and
  \<open>trapret_a\<close> are the addresses of the linker symbol \<open>data\<close> and of the two entry points.  The kernel
  reaches user memory through the page table of the CPU; an access to a page that is not there, or a write to one that is read-only, is a trap
  in kernel mode, which panics.
\<close>

subsection \<open>User memory\<close>

definition utrans :: "uint \<Rightarrow> bool \<Rightarrow> 'b kmemst_scheme \<Rightarrow> uint option" where
  "utrans va wr s = (let pde = load32 (P2V (cr3 s) + 4 * PDX va) (mem s); need = (if wr then PTE_P OR PTE_W else PTE_P) in
     if pde AND need \<noteq> need then None
     else let pte = load32 (P2V (PTE_ADDR pde) + 4 * PTX va) (mem s) in
       if pte AND need \<noteq> need then None else Some (P2V (PTE_ADDR pte) + (va AND 0xFFF)))"

definition uload :: "uint \<Rightarrow> (uchar, 'b) mop" where
  "uload va = bnd (gets (utrans va False)) (\<lambda>r. case r of None \<Rightarrow> panic ''trap'' | Some a \<Rightarrow> gets (\<lambda>s. mem s a))"

fun uread :: "uint \<Rightarrow> nat \<Rightarrow> (bytes, 'b) mop" where
  "uread va 0 = ret []"
| "uread va (Suc n) = bnd (uload va) (\<lambda>c. bnd (uread (va + 1) n) (\<lambda>cs. ret (c # cs)))"

fun uwrite :: "uint \<Rightarrow> bytes \<Rightarrow> (unit, 'b) mop" where
  "uwrite va [] = ret ()"
| "uwrite va (c # cs) = bnd (gets (utrans va True)) (\<lambda>r. case r of None \<Rightarrow> panic ''trap''
     | Some a \<Rightarrow> seq (modify (\<lambda>s. s\<lparr>mem := (mem s)(a := c)\<rparr>)) (uwrite (va + 1) cs))"

subsection \<open>Allocation\<close>

text \<open>The assignments of \<open>allocproc\<close> to the entry it found.\<close>

definition fresh_proc :: "int \<Rightarrow> proc \<Rightarrow> proc" where
  "fresh_proc pid p = p\<lparr>p_state := EMBRYO, p_pid := pid, p_isMLFQ := True, p_pticks := 0, p_ptotalticks := 0, p_priority := 0,
     p_share := dint 0, p_stride := dint 0, p_pass := dint 0, p_isThread := False, p_tid := 0\<rparr>"

definition take_tid :: "nat \<Rightarrow> 'b kcore_scheme \<Rightarrow> 'b kcore_scheme" where
  "take_tid i s = (case find_index (\<lambda>t. t_state t = UNUSED) (ttable s) of None \<Rightarrow> s
     | Some k \<Rightarrow> (pset i (\<lambda>p. p\<lparr>p_tid := k\<rparr>) s)\<lparr>ttable := (ttable s)[k := \<lparr>t_index = k, t_state = EMBRYO\<rparr>]\<rparr>)"

definition first_context :: "uint \<Rightarrow> ctx" where
  "first_context a = \<lparr>c_edi = 0, c_esi = 0, c_ebx = 0, c_ebp = 0, c_eip = a\<rparr>"

definition allocproc :: "uint \<Rightarrow> uint \<Rightarrow> (nat option, 'b) mop" where
  "allocproc forkret_a trapret_a = seq (acquire L_ptable)
     (bnd (gets (\<lambda>s. find_index (\<lambda>p. p_state p = UNUSED) (ptable s))) (\<lambda>r. case r of
       None \<Rightarrow> seq (release L_ptable) (ret None)
     | Some i \<Rightarrow> bnd (gets nextpid) (\<lambda>pid. seq (in_range (int_range (pid + 1)))
       (seq (modify (\<lambda>s. s\<lparr>nextpid := pid + 1\<rparr>)) (seq (modify (pset i (fresh_proc pid)))
       (seq (acquire L_ttable) (seq (modify (take_tid i)) (seq (release L_ttable)
       (seq (modify (pset i (\<lambda>p. p\<lparr>p_isMainThread := True, p_cntThread := 1\<rparr>))) (seq (release L_ptable)
       (bnd kalloc (\<lambda>v. seq (modify (pset i (\<lambda>p. p\<lparr>p_kstack := v\<rparr>)))
       (if v = 0 then seq (modify (pset i (\<lambda>p. p\<lparr>p_state := UNUSED\<rparr>))) (ret None)
        else seq (store (v + KSTACKSIZE - 76 - 4) trapret_a)
          (seq (modify (pset i (\<lambda>p. p\<lparr>p_context := first_context forkret_a\<rparr>))) (ret (Some i))))))))))))))))"

definition user_frame :: trapframe where
  "user_frame = \<lparr>tf_edi = 0, tf_esi = 0, tf_ebp = 0, tf_oesp = 0, tf_ebx = 0, tf_edx = 0, tf_ecx = 0, tf_eax = 0, tf_gs = 0, tf_fs = 0,
     tf_es = 0x23, tf_ds = 0x23, tf_trapno = 0, tf_err = 0, tf_eip = 0, tf_cs = 0x1B, tf_eflags = 0x200, tf_esp = PGSIZE, tf_ss = 0x23\<rparr>"

definition initcode_name :: bytes where
  "initcode_name = map (\<lambda>c. of_nat (of_char c)) ''initcode'' @ [0]"

definition userinit :: "uint \<Rightarrow> uint \<Rightarrow> uint \<Rightarrow> bytes \<Rightarrow> (unit, 'b) fop" where
  "userinit kd forkret_a trapret_a initcode = bnd (allocproc forkret_a trapret_a) (\<lambda>p. seq (modify (\<lambda>s. s\<lparr>initproc := p\<rparr>))
     (bnd (deref p) (\<lambda>i. bnd (setupkvm kd) (\<lambda>d. seq (modify (pset i (\<lambda>p. p\<lparr>p_pgdir := d\<rparr>)))
     (if d = 0 then panic ''userinit: out of memory?''
      else seq (inituvm d initcode)
      (seq (modify (pset i (\<lambda>p. p\<lparr>p_sz := PGSIZE, p_tf := user_frame, p_name := safestrcpy (p_name p) initcode_name 16\<rparr>)))
      (bnd (namei [SLASH]) (\<lambda>d. seq (modify (pset i (\<lambda>p. p\<lparr>p_cwd := d\<rparr>)))
      (seq (acquire L_ptable) (seq (modify (pset i (\<lambda>p. p\<lparr>p_state := RUNNABLE\<rparr>))) (release L_ptable)))))))))))"

text \<open>The first thing a new process runs in the kernel.\<close>

definition forkret :: "(unit, 'b) fop" where
  "forkret = seq (release L_ptable) (bnd (gets forkret_first) (\<lambda>first.
     whenM first (seq (modify (\<lambda>s. s\<lparr>forkret_first := False\<rparr>)) (seq (iinit ROOTDEV) (initlog ROOTDEV)))))"

subsection \<open>Growth\<close>

text \<open>Change every entry of the table, knowing its index.\<close>

definition pimap :: "(nat \<Rightarrow> proc \<Rightarrow> proc) \<Rightarrow> 'b kcore_scheme \<Rightarrow> 'b kcore_scheme" where
  "pimap f s = s\<lparr>ptable := map (\<lambda>(j, p). f j p) (List.enumerate 0 (ptable s))\<rparr>"

definition growproc :: "int \<Rightarrow> (int, 'b) mop" where
  "growproc n = bnd curproc (\<lambda>c. bnd (gets (pget c)) (\<lambda>cp.
     bnd (if n > 0 then allocuvm (p_pgdir cp) (p_sz cp) (p_sz cp + of_int n)
          else if n < 0 then deallocuvm (p_pgdir cp) (p_sz cp) (p_sz cp + of_int n) else ret (p_sz cp)) (\<lambda>sz.
     if n \<noteq> 0 \<and> sz = 0 then ret (- 1)
     else seq (acquire L_ptable)
       (seq (modify (pimap (\<lambda>j p. if j \<noteq> c \<and> p_pid p = p_pid cp then p\<lparr>p_sz := p_sz p + of_int n\<rparr> else p)))
       (seq (release L_ptable) (seq (modify (pset c (\<lambda>p. p\<lparr>p_sz := sz\<rparr>))) (seq (switchuvm (Some c)) (ret 0))))))))"

subsection \<open>Fork and thread creation\<close>

definition dup_files :: "nat \<Rightarrow> nat \<Rightarrow> (unit, 'b) ftop" where
  "dup_files c np = forM [0..<NOFILE] (\<lambda>i. bnd (gets (\<lambda>s. p_ofile (pget c s) ! i)) (\<lambda>f. case f of None \<Rightarrow> ret ()
     | Some f \<Rightarrow> bnd (filedup f) (\<lambda>f. modify (pset np (\<lambda>p. p\<lparr>p_ofile := (p_ofile p)[i := Some f]\<rparr>)))))"

definition dup_cwd :: "nat \<Rightarrow> nat \<Rightarrow> (unit, 'b) fop" where
  "dup_cwd c np = bnd (gets (\<lambda>s. p_cwd (pget c s))) (\<lambda>d. bnd (deref d) (\<lambda>d. bnd (idup d) (\<lambda>d.
     modify (pset np (\<lambda>p. p\<lparr>p_cwd := Some d\<rparr>)))))"

definition fork :: "uint \<Rightarrow> uint \<Rightarrow> uint \<Rightarrow> (int, 'b) ftop" where
  "fork kd forkret_a trapret_a = bnd curproc (\<lambda>c. bnd (allocproc forkret_a trapret_a) (\<lambda>r. case r of None \<Rightarrow> ret (- 1) | Some np \<Rightarrow>
     bnd (gets (pget c)) (\<lambda>cp. bnd (copyuvm kd (p_pgdir cp) (p_sz cp)) (\<lambda>d.
     seq (modify (pset np (\<lambda>p. p\<lparr>p_pgdir := d\<rparr>)))
     (if d = 0 then bnd (gets (\<lambda>s. p_kstack (pget np s))) (\<lambda>k. seq (kfree k)
        (seq (modify (pset np (\<lambda>p. p\<lparr>p_kstack := 0, p_state := UNUSED\<rparr>))) (ret (- 1))))
      else seq (modify (pset np (\<lambda>p. p\<lparr>p_sz := p_sz cp, p_usz := p_usz cp, p_parent := Some c, p_tf := (p_tf cp)\<lparr>tf_eax := 0\<rparr>\<rparr>)))
        (seq (dup_files c np) (seq (dup_cwd c np)
        (seq (modify (pset np (\<lambda>p. p\<lparr>p_name := safestrcpy (p_name p) (p_name cp) 16\<rparr>)))
        (bnd (gets (\<lambda>s. p_pid (pget np s))) (\<lambda>pid. seq (acquire L_ptable)
        (seq (modify (pset np (\<lambda>p. p\<lparr>p_state := RUNNABLE\<rparr>))) (seq (release L_ptable) (ret pid)))))))))))))"

text \<open>The shares of the threads of a process that the stride scheduler runs.\<close>

definition share_threads :: "nat \<Rightarrow> nat option \<Rightarrow> (unit, 'b) kop" where
  "share_threads c tmp = seq (acquire L_ptable) (bnd (gets (pget c)) (\<lambda>cp. bnd (deref tmp) (\<lambda>t. bnd (gets (pget t)) (\<lambda>tp.
     let sh = ddiv (of_int (p_totalshare cp)) (dint (p_cntThread cp)) in
     seq (modify (pimap (\<lambda>j p. if p_pid p = p_pid cp then p\<lparr>p_isMLFQ := False, p_share := sh, p_stride := ddiv (of_int STRIDENUM) sh,
       p_pass := p_pass tp\<rparr> else p)))
     (release L_ptable)))))"

definition thread_create :: "uint \<Rightarrow> uint \<Rightarrow> uint \<Rightarrow> uint \<Rightarrow> uint \<Rightarrow> (int, 'b) ftop" where
  "thread_create forkret_a trapret_a thread start_routine arg = bnd curproc (\<lambda>c. bnd findMinPass (\<lambda>tmp. bnd (gets (pget c)) (\<lambda>cp.
     if p_isThread cp then ret (- 1)
     else bnd (allocproc forkret_a trapret_a) (\<lambda>r. case r of None \<Rightarrow> ret (- 1) | Some np \<Rightarrow>
     seq (modify (pset np (\<lambda>p. p\<lparr>p_pid := p_pid cp\<rparr>)))
     (seq (modify (pset c (\<lambda>p. p\<lparr>p_cntThread := p_cntThread p + 1\<rparr>)))
     (seq (whenM (\<not> p_isMLFQ cp) (share_threads c tmp))
     (seq (modify (pset np (\<lambda>p. p\<lparr>p_isThread := True, p_isMainThread := False, p_pgdir := p_pgdir cp, p_parent := Some c,
       p_tf := (p_tf cp)\<lparr>tf_eax := 0\<rparr>\<rparr>)))
     (seq (dup_files c np) (seq (dup_cwd c np)
     (seq (modify (pset np (\<lambda>p. p\<lparr>p_name := safestrcpy (p_name p) (p_name cp) 16\<rparr>)))
     (bnd (gets (\<lambda>s. p_usz cp + of_nat (p_tid (pget np s)) * 2 * PGSIZE)) (\<lambda>sz.
     let sp = sz - 8 in
     bnd (copyout (p_pgdir cp) sp (le32 0xFFFFFFFF @ le32 arg)) (\<lambda>e.
     if e < 0 then seq (modify (pset np (\<lambda>p. p\<lparr>p_state := UNUSED, p_kstack := 0\<rparr>)))
       (seq (modify (\<lambda>s. s\<lparr>nexttid := nexttid s - 1\<rparr>)) (ret (- 1)))
     else seq (modify (pset np (\<lambda>p. p\<lparr>p_usz := sz, p_sz := p_sz cp, p_tf := (p_tf cp)\<lparr>tf_esp := sp, tf_eip := start_routine\<rparr>, p_state := RUNNABLE\<rparr>)))
       (bnd (gets (\<lambda>s. p_tid (pget np s))) (\<lambda>t. seq (uwrite thread (le32 (of_nat t))) (ret 0))))))))))))))))"

subsection \<open>Exit\<close>

definition close_files :: "nat \<Rightarrow> (unit, 'b) ftop" where
  "close_files j = forM [0..<NOFILE] (\<lambda>fd. bnd (gets (\<lambda>s. p_ofile (pget j s) ! fd)) (\<lambda>f. case f of None \<Rightarrow> ret ()
     | Some f \<Rightarrow> seq (fileclose f) (modify (pset j (\<lambda>p. p\<lparr>p_ofile := (p_ofile p)[fd := None]\<rparr>)))))"

definition drop_cwd :: "nat \<Rightarrow> (unit, 'b) fop" where
  "drop_cwd j = seq begin_op (bnd (gets (\<lambda>s. p_cwd (pget j s))) (\<lambda>d. bnd (deref d) (\<lambda>d. seq (iput d)
     (seq end_op (modify (pset j (\<lambda>p. p\<lparr>p_cwd := None\<rparr>)))))))"

definition proc_chan :: "nat option \<Rightarrow> chan" where
  "proc_chan p = (case p of None \<Rightarrow> ChanNull | Some q \<Rightarrow> ChanProc q)"

text \<open>Children of an exiting process go to \<open>init\<close>, which is woken for those that are dead already.\<close>

definition adopt :: "nat \<Rightarrow> nat \<Rightarrow> (unit, 'b) kop" where
  "adopt c j = bnd (gets (pget j)) (\<lambda>p. whenM (p_parent p = Some c) (bnd (gets initproc) (\<lambda>ip.
     seq (modify (pset j (\<lambda>p. p\<lparr>p_parent := ip\<rparr>))) (whenM (p_state p = ZOMBIE) (wakeup1 (proc_chan ip))))))"

definition exit_threads :: "nat \<Rightarrow> (unit, 'b) ftop" where
  "exit_threads c = forM [0..<NPROC] (\<lambda>j. bnd (gets (pget j)) (\<lambda>p. bnd (gets (pget c)) (\<lambda>cp.
     whenM (p_pid p = p_pid cp \<and> j \<noteq> c) (seq (close_files j) (seq (drop_cwd j) (modify (pset j (\<lambda>p. p\<lparr>p_state := ZOMBIE\<rparr>))))))))"

definition exit_finish :: "nat \<Rightarrow> (unit, 'b) kop" where
  "exit_finish c = seq (modify (pset c (\<lambda>p. p\<lparr>p_state := ZOMBIE\<rparr>))) (seq (acquire L_ptable) (bnd (gets (pget c)) (\<lambda>cp.
     seq (if p_isThread cp then bnd (deref (p_parent cp)) (\<lambda>q. bnd (gets (\<lambda>s. p_parent (pget q s))) (\<lambda>g. wakeup1 (proc_chan g)))
          else wakeup1 (proc_chan (p_parent cp)))
     (seq (forM [0..<NPROC] (adopt c)) (seq sched (panic ''zombie exit''))))))"

definition exit :: "(unit, 'b) ftop" where
  "exit = bnd curproc (\<lambda>c. bnd (gets initproc) (\<lambda>ip. if ip = Some c then panic ''init exiting''
     else seq (close_files c) (seq (drop_cwd c) (seq (exit_threads c) (exit_finish c)))))"

definition thread_exit :: "uint \<Rightarrow> (unit, 'b) ftop" where
  "thread_exit retval = bnd curproc (\<lambda>c. bnd (gets initproc) (\<lambda>ip. if ip = Some c then panic ''init exiting''
     else seq (close_files c) (seq (drop_cwd c) (seq (acquire L_ptable)
       (seq (modify (pset c (\<lambda>p. p\<lparr>p_retval := retval\<rparr>))) (bnd (gets (\<lambda>s. p_parent (pget c s))) (\<lambda>q. seq (wakeup1 (proc_chan q))
       (seq (forM [0..<NPROC] (adopt c)) (seq (modify (pset c (\<lambda>p. p\<lparr>p_state := ZOMBIE\<rparr>))) (seq sched (panic ''zombie exit'')))))))))))"

subsection \<open>Wait and join\<close>

text \<open>The reset of an entry that is given back; the kernel stack is freed in between.\<close>

definition reset_sched :: "proc \<Rightarrow> proc" where
  "reset_sched p = p\<lparr>p_pass := dint 0, p_stride := dint 0, p_share := dint 0, p_pticks := 0, p_ptotalticks := 0, p_priority := 0,
     p_isMLFQ := False, p_tid := 0\<rparr>"

definition reset_proc :: "proc \<Rightarrow> proc" where
  "reset_proc p = p\<lparr>p_pid := 0, p_parent := None, p_name := (p_name p)[0 := 0], p_killed := False, p_state := UNUSED\<rparr>"

definition free_tid :: "nat \<Rightarrow> 'b kcore_scheme \<Rightarrow> 'b kcore_scheme" where
  "free_tid t s = s\<lparr>ttable := (ttable s)[t := (ttable s ! t)\<lparr>t_state := UNUSED\<rparr>]\<rparr>"

definition reap :: "nat \<Rightarrow> (unit, 'b) mop" where
  "reap j = seq (modify (pset j reset_sched)) (bnd (gets (\<lambda>s. p_kstack (pget j s))) (\<lambda>k. seq (kfree k) (modify (pset j (\<lambda>p. p\<lparr>p_kstack := 0\<rparr>)))))"

definition give_share :: "double \<Rightarrow> 'b kcore_scheme \<Rightarrow> 'b kcore_scheme" where
  "give_share sh s = s\<lparr>leftShare := dadd (leftShare s) sh, MLFQStrideVal := ddiv (of_int STRIDENUM) (dadd (leftShare s) sh)\<rparr>"

definition killsamepid :: "int \<Rightarrow> (int, 'b) mop" where
  "killsamepid pid = seq (forM [0..<NPROC] (\<lambda>j. bnd (gets (pget j)) (\<lambda>p.
     whenM (p_pid p = pid \<and> \<not> p_isMainThread p \<and> p_state p = ZOMBIE)
       (seq (modify (free_tid (p_tid p))) (seq (reap j) (modify (pset j reset_proc))))))) (ret 0)"

text \<open>The scan of \<open>wait\<close>: the pid it returns, or whether there are children to wait for.\<close>

fun wait_scan :: "nat \<Rightarrow> bool \<Rightarrow> nat list \<Rightarrow> (int + bool, 'b) mop" where
  "wait_scan c hk [] = ret (Inr hk)"
| "wait_scan c hk (j # js) = bnd (gets (pget j)) (\<lambda>p.
     if p_parent p \<noteq> Some c then wait_scan c hk js
     else if p_isThereExec p then seq (modify (pset j (\<lambda>p. p\<lparr>p_isThereExec := False\<rparr>))) (wait_scan c hk js)
     else if p_state p \<noteq> ZOMBIE then wait_scan c True js
     else bnd (killsamepid (p_pid p)) (\<lambda>e. if e \<noteq> 0 then panic ''killsamepid error'' else bnd (gets (pget j)) (\<lambda>p.
       if p_isThread p \<and> \<not> p_isMainThread p then wait_scan c True js
       else seq (modify (free_tid (p_tid p))) (seq (whenM (\<not> p_isMLFQ p) (modify (give_share (dint (p_totalshare p)))))
         (seq (modify (pset j (\<lambda>p. p\<lparr>p_totalshare := 0\<rparr>))) (seq (reap j)
         (seq (whenM (p_isMainThread p) (freevm (p_pgdir p))) (seq (modify (pset j reset_proc))
         (seq (release L_ptable) (ret (Inl (p_pid p))))))))))))"

definition wait_loop :: "nat \<Rightarrow> (int, 'b) mop" where
  "wait_loop c = bnd (wait_scan c False [0..<NPROC]) (\<lambda>r. case r of Inl pid \<Rightarrow> ret pid
     | Inr hk \<Rightarrow> bnd (gets (\<lambda>s. p_killed (pget c s))) (\<lambda>k.
         if \<not> hk \<or> k then seq (release L_ptable) (ret (- 1))
         else seq (sleep (ChanProc c) (Some L_ptable)) (ret (- 1))))"

definition wait :: "(int, 'b) mop" where
  "wait = bnd curproc (\<lambda>c. seq (acquire L_ptable) (wait_loop c))"

definition wait_wake :: "(int, 'b) mop" where
  "wait_wake = bnd curproc (\<lambda>c. seq (sleep_resume L_ptable c) (wait_loop c))"

text \<open>\<open>thread_join\<close> at the first child it meets.\<close>

definition join_at :: "nat \<Rightarrow> int \<Rightarrow> uint \<Rightarrow> nat \<Rightarrow> (int, 'b) mop" where
  "join_at c thread retval j = bnd (gets (pget j)) (\<lambda>p. bnd (gets (pget c)) (\<lambda>cp.
     if p_state p \<noteq> ZOMBIE \<and> p_pid p = p_pid cp \<and> int (p_tid p) = thread then seq (sleep (ChanProc c) (Some L_ptable)) (ret (- 1))
     else seq (uwrite retval (le32 (p_retval p))) (seq (modify (free_tid (p_tid p)))
       (seq (whenM (\<not> p_isMLFQ p) (modify (give_share (p_share p)))) (seq (reap j) (seq (modify (pset j reset_proc))
       (seq (release L_ptable) (ret 0))))))))"

definition thread_join :: "int \<Rightarrow> uint \<Rightarrow> (int, 'b) mop" where
  "thread_join thread retval = bnd curproc (\<lambda>c. seq (acquire L_ptable)
     (bnd (gets (\<lambda>s. find_index (\<lambda>p. p_parent p = Some c) (ptable s))) (\<lambda>r. case r of
       None \<Rightarrow> seq (release L_ptable) (ret (- 1)) | Some j \<Rightarrow> join_at c thread retval j)))"

definition thread_join_wake :: "int \<Rightarrow> uint \<Rightarrow> nat \<Rightarrow> (int, 'b) mop" where
  "thread_join_wake thread retval j = bnd curproc (\<lambda>c. seq (sleep_resume L_ptable c) (join_at c thread retval j))"

subsection \<open>Operations that keep a predicate\<close>

text \<open>\<open>preserves P m\<close>: \<open>P\<close> still holds when \<open>m\<close> returns or gives up the CPU.\<close>

definition preserves :: "('s \<Rightarrow> bool) \<Rightarrow> ('s \<Rightarrow> ('a, 's) res) \<Rightarrow> bool" where
  "preserves P m \<longleftrightarrow> (\<forall>s. P s \<longrightarrow> (case m s of Ok a s' \<Rightarrow> P s' | Swtch s' \<Rightarrow> P s' | _ \<Rightarrow> True))"

named_theorems pres

lemma preservesD: "preserves P m \<Longrightarrow> P s \<Longrightarrow> case m s of Ok a s' \<Rightarrow> P s' | Swtch s' \<Rightarrow> P s' | _ \<Rightarrow> True"
  by (simp add: preserves_def)

lemma pres_bnd [pres]:
  assumes "preserves P m" "\<And>a. preserves P (f a)"
  shows "preserves P (bnd m f)"
  unfolding preserves_def
proof (intro allI impI)
  fix s assume "P s"
  from preservesD[OF assms(1) this] show "case bnd m f s of Ok a s' \<Rightarrow> P s' | Swtch s' \<Rightarrow> P s' | _ \<Rightarrow> True"
    using preservesD[OF assms(2)] by (cases "m s") (simp_all add: bnd_def)
qed

lemma pres_seq [pres]: "preserves P m \<Longrightarrow> preserves P k \<Longrightarrow> preserves P (seq m k)"
  unfolding seq_def by (rule pres_bnd)

lemma pres_basic [pres]: "preserves P (ret a)" "preserves P (gets f)" "preserves P (panic e)" "preserves P fault" "preserves P hang" "preserves P (deref q)"
  "preserves P (in_range b)"
  by (auto simp: preserves_def deref_def in_range_def split: option.split)

lemma pres_modify: "(\<And>s. P s \<Longrightarrow> P (f s)) \<Longrightarrow> preserves P (modify f)"
  by (simp add: preserves_def)

lemma pres_if [pres]: "(b \<Longrightarrow> preserves P m) \<Longrightarrow> (\<not> b \<Longrightarrow> preserves P m') \<Longrightarrow> preserves P (if b then m else m')"
  by simp

lemma pres_whenM [pres]: "preserves P m \<Longrightarrow> preserves P (whenM b m)"
  by (simp add: whenM_def pres_basic)

lemma pres_option [pres]: "preserves P m \<Longrightarrow> (\<And>x. preserves P (f x)) \<Longrightarrow> preserves P (case q of None \<Rightarrow> m | Some x \<Rightarrow> f x)"
  by (cases q) simp_all

lemma pres_sum [pres]: "(\<And>x. preserves P (g x)) \<Longrightarrow> (\<And>y. preserves P (h y)) \<Longrightarrow> preserves P (case r of Inl x \<Rightarrow> g x | Inr y \<Rightarrow> h y)"
  by (cases r) simp_all

lemma pres_prod [pres]: "(\<And>x y. preserves P (f x y)) \<Longrightarrow> preserves P (case z of (x, y) \<Rightarrow> f x y)"
  by (cases z) simp_all

lemma pres_Let [pres]: "(\<And>x. preserves P (f x)) \<Longrightarrow> preserves P (Let a f)"
  by (simp add: Let_def)

lemma pres_forM [pres]: "(\<And>x. x \<in> set xs \<Longrightarrow> preserves P (f x)) \<Longrightarrow> preserves P (forM xs f)"
  by (induction xs) (auto intro!: pres)

subsection \<open>The process table keeps its shape\<close>

definition proc_typed :: "proc \<Rightarrow> bool" where
  "proc_typed p \<longleftrightarrow> length (p_ofile p) = NOFILE \<and> length (p_name p) = 16 \<and> p_tid p < NPROC"

definition table_typed :: "'b kcore_scheme \<Rightarrow> bool" where
  "table_typed s \<longleftrightarrow> length (ptable s) = NPROC \<and> length (ttable s) = NPROC \<and> (\<forall>p \<in> set (ptable s). proc_typed p)"

lemma typed_pset [pres]:
  assumes h: "\<And>p. proc_typed p \<Longrightarrow> proc_typed (f p)"
  shows "preserves table_typed (modify (pset i f))"
proof (rule pres_modify)
  fix s :: "'a kcore_scheme" assume s: "table_typed s"
  have "proc_typed q" if "q \<in> set ((ptable s)[i := f (ptable s ! i)])" for q
  proof (cases "i < length (ptable s)")
    case True
    then show ?thesis using s h that nth_mem[OF True] by (auto simp: table_typed_def dest!: set_update_subset_insert[THEN subsetD])
  next
    case False
    then have "(ptable s)[i := f (ptable s ! i)] = ptable s" by (simp add: list_update_beyond)
    then show ?thesis using s that by (simp add: table_typed_def)
  qed
  then show "table_typed (pset i f s)" using s by (simp add: table_typed_def pset_def)
qed

lemma typed_pmap [pres]: "(\<And>p. proc_typed p \<Longrightarrow> proc_typed (f p)) \<Longrightarrow> preserves table_typed (modify (pmap f))"
  by (intro pres_modify) (auto simp: table_typed_def pmap_def)

lemma typed_pimap [pres]: "(\<And>j p. proc_typed p \<Longrightarrow> proc_typed (f j p)) \<Longrightarrow> preserves table_typed (modify (pimap f))"
  by (intro pres_modify) (auto simp: table_typed_def pimap_def set_conv_nth nth_enumerate_eq, metis)

lemma typed_frame: "ptable s' = ptable s \<Longrightarrow> ttable s' = ttable s \<Longrightarrow> table_typed s' = table_typed s"
  by (simp add: table_typed_def)

lemma typed_other [pres]:
  "preserves table_typed (modify (\<lambda>s. s\<lparr>nextpid := f s\<rparr>))" "preserves table_typed (modify (\<lambda>s. s\<lparr>nexttid := f s\<rparr>))"
  "preserves table_typed (modify (\<lambda>s. s\<lparr>mem := g s\<rparr>))" "preserves table_typed (modify (\<lambda>s. s\<lparr>freelist := h s\<rparr>))"
  "preserves table_typed (modify (\<lambda>s. s\<lparr>freelist := c\<rparr>))" "preserves table_typed (modify (\<lambda>s. s\<lparr>nextpid := d\<rparr>))"
  "preserves table_typed (modify (\<lambda>s. s\<lparr>ts_esp0 := k, cr3 := l\<rparr>))" "preserves table_typed (modify (give_share x))"
  "preserves table_typed (modify (free_tid t))" "preserves table_typed (modify (iset i q))" "preserves table_typed (modify (fset j r))"
  by (rule pres_modify; simp add: table_typed_def give_share_def free_tid_def iset_def fset_def)+

lemma typed_locks [pres]: "preserves table_typed (acquire lk)" "preserves table_typed (release lk)"
  by (auto simp: preserves_def acquire_def release_def table_typed_def)

lemma typed_Swtch [pres]: "preserves P Swtch"
  by (simp add: preserves_def)

lemma typed_core [pres]: "preserves P curproc" "preserves P myproc" "preserves P findMinPass"
  unfolding curproc_def myproc_def by (intro pres pres_basic | simp add: preserves_def findMinPass_def split: option.split)+

lemma typed_sched [pres]: "preserves P sched"
  unfolding sched_def by (intro pres)

lemma typed_sleep [pres]: "preserves table_typed (wakeup1 ch)" "preserves table_typed (sleep ch lk)" "preserves table_typed (sleep_resume l i)"
  "preserves table_typed (switchuvm p)"
  unfolding wakeup1_def sleep_def myproc_def sleep_resume_def switchuvm_def by (intro pres typed_other; simp add: wake_def proc_typed_def)+

lemma typed_mem [pres]: "preserves table_typed kalloc" "preserves table_typed (kfree v)" "preserves table_typed (load a)"
  "preserves table_typed (store a w)" "preserves table_typed (zero_page a)"
  unfolding kalloc_def kfree_def load_def store_def zero_page_def by (intro pres)+

lemma typed_walk [pres]: "preserves table_typed (walkpgdir d va al)"
  unfolding walkpgdir_def by (intro pres)

lemma typed_mappages_loop [pres]: "preserves table_typed (mappages_loop d a pa perm k)"
proof (induction k arbitrary: a pa)
  case 0
  show ?case unfolding mappages_loop.simps[of d a pa perm 0] nat.case by (intro pres)
next
  case (Suc k)
  show ?case unfolding mappages_loop.simps[of d a pa perm "Suc k"] nat.case by (intro pres Suc)
qed

lemma typed_dealloc_loop [pres]: "preserves table_typed (deallocuvm_loop k d a old)"
proof (induction k arbitrary: a)
  case 0
  show ?case unfolding deallocuvm_loop.simps by (intro pres)
next
  case (Suc k)
  show ?case unfolding deallocuvm_loop.simps by (intro pres Suc)
qed

lemma typed_vm [pres]: "preserves table_typed (mappages d va n pa perm)" "preserves table_typed (deallocuvm d o' n')" "preserves table_typed (freevm d)"
  unfolding mappages_def deallocuvm_def freevm_def by (intro pres)+

lemma typed_alloc_loop [pres]: "preserves table_typed (allocuvm_loop d o' n' a k)"
  by (induction k arbitrary: a) (auto intro!: pres)

lemma typed_setup_loop [pres]: "preserves table_typed (setupkvm_loop d ks)"
proof (induction ks)
  case (Cons k ks)
  then show ?case by (cases k) (auto intro!: pres)
qed (auto intro!: pres)

lemma typed_copyuvm_loop [pres]: "preserves table_typed (copyuvm_loop d d' ks)"
  by (induction ks) (auto simp: Let_def intro!: pres)

lemma typed_uvm [pres]: "preserves table_typed (allocuvm d o' n')" "preserves table_typed (setupkvm kd)" "preserves table_typed (copyuvm kd d n)"
  "preserves table_typed (uva2ka d va)"
  unfolding allocuvm_def setupkvm_def copyuvm_def uva2ka_def by (intro pres)+

lemma typed_copyout [pres]: "preserves table_typed (copyout d va bs)"
proof (induction d va bs rule: copyout.induct)
  case (1 d va bs)
  show ?case by (subst copyout.simps) (auto simp: Let_def intro!: pres 1)
qed

lemma typed_uwrite [pres]: "preserves table_typed (uwrite va bs)"
  by (induction bs arbitrary: va) (auto intro!: pres)

lemma length_safestrcpy: "length n = 16 \<Longrightarrow> length (safestrcpy n t 16) = 16"
  unfolding safestrcpy_def safestrcpy_copy_cstr by (subst if_not_P, simp, subst length_splice) auto

lemmas typed_simps = proc_typed_def fresh_proc_def reset_proc_def reset_sched_def NPROC_def length_safestrcpy wake_def

lemma typed_take_tid [pres]: "preserves table_typed (modify (take_tid i))"
proof (rule pres_modify)
  fix s :: "'a kcore_scheme" assume s: "table_typed s"
  show "table_typed (take_tid i s)"
  proof (cases "find_index (\<lambda>t. t_state t = UNUSED) (ttable s)")
    case (Some k)
    then have "k < NPROC" using find_index_SomeD[OF Some] s by (simp add: table_typed_def)
    then have "preserves table_typed (modify (pset i (\<lambda>p. p\<lparr>p_tid := k\<rparr>)) :: (unit, 'a) kop)" by (intro pres) (simp add: proc_typed_def)
    then have "table_typed (pset i (\<lambda>p. p\<lparr>p_tid := k\<rparr>) s)" using s by (simp add: preserves_def)
    then show ?thesis using Some by (simp add: take_tid_def table_typed_def)
  qed (use s in \<open>simp add: take_tid_def\<close>)
qed

lemma typed_allocproc [pres]: "preserves table_typed (allocproc fa ta)"
  unfolding allocproc_def by (intro pres; auto simp: typed_simps)

lemma typed_growproc [pres]: "preserves table_typed (growproc n)"
  unfolding growproc_def by (intro pres; auto simp: typed_simps)

lemma typed_reap [pres]: "preserves table_typed (reap j)"
  unfolding reap_def by (intro pres; auto simp: typed_simps)

lemma typed_dup [pres]: "preserves table_typed (filedup f)" "preserves table_typed (idup q)"
  unfolding filedup_def idup_def by (intro pres)+

lemma typed_dups [pres]: "preserves table_typed (dup_files c np)" "preserves table_typed (dup_cwd c np)"
  unfolding dup_files_def dup_cwd_def by (intro pres; auto simp: typed_simps)+

lemma typed_fork [pres]: "preserves table_typed (fork kd fa ta)"
  unfolding fork_def by (intro pres; auto simp: typed_simps)

lemma typed_share [pres]: "preserves table_typed (share_threads c tmp)"
  unfolding share_threads_def by (intro pres; auto simp: typed_simps)

lemma typed_thread_create [pres]: "preserves table_typed (thread_create fa ta th st arg)"
  unfolding thread_create_def by (intro pres; auto simp: typed_simps)

lemma typed_killsamepid [pres]: "preserves table_typed (killsamepid pid)"
  unfolding killsamepid_def by (intro pres; auto simp: typed_simps)

lemma typed_wait_scan [pres]: "preserves table_typed (wait_scan c hk js)"
  by (induction js arbitrary: hk) (auto simp: typed_simps intro!: pres)

lemma typed_exit_finish [pres]: "preserves table_typed (exit_finish c)"
  unfolding exit_finish_def adopt_def by (intro pres; auto simp: typed_simps)

lemma typed_wait [pres]: "preserves table_typed wait" "preserves table_typed wait_wake"
  unfolding wait_def wait_wake_def wait_loop_def by (intro pres)+

lemma typed_join [pres]: "preserves table_typed (thread_join th rv)" "preserves table_typed (thread_join_wake th rv j)"
  unfolding thread_join_def thread_join_wake_def join_at_def by (intro pres; auto simp: typed_simps)+

subsection \<open>Allocating a process\<close>

text \<open>The state in which \<open>allocproc\<close> asks for a kernel stack.\<close>

definition embryo :: "nat \<Rightarrow> 'b kcore_scheme \<Rightarrow> 'b kcore_scheme" where
  "embryo i s = pset i (\<lambda>p. p\<lparr>p_isMainThread := True, p_cntThread := 1\<rparr>)
     (take_tid i (pset i (fresh_proc (nextpid s)) (s\<lparr>nextpid := nextpid s + 1\<rparr>)))"

lemma take_tid_sel [simp]: "held (take_tid i s) = held s" "nextpid (take_tid i s) = nextpid s" "length (ptable (take_tid i s)) = length (ptable s)"
  "take_tid i (s\<lparr>held := h\<rparr>) = (take_tid i s)\<lparr>held := h\<rparr>" "mem (take_tid i t) = mem t" "freelist (take_tid i t) = freelist t"
  "use_lock (take_tid i t) = use_lock t" "kend (take_tid i t) = kend t"
  by (simp_all add: take_tid_def pset_def split: option.split)

lemma pset_kmem [simp]: "mem (pset i f s) = mem s" "freelist (pset i f s) = freelist s" "use_lock (pset i f s) = use_lock s" "kend (pset i f s) = kend s"
  "nextpid (pset i f t) = nextpid t" "ttable (pset i f t) = ttable t" "initproc (pset i f t) = initproc t"
  "pset i f (s\<lparr>freelist := x\<rparr>) = (pset i f s)\<lparr>freelist := x\<rparr>" "pset i f (s\<lparr>mem := m\<rparr>) = (pset i f s)\<lparr>mem := m\<rparr>"
  by (simp_all add: pset_def)

lemma embryo_sel [simp]: "held (embryo i s) = held s" "nextpid (embryo i s) = nextpid s + 1" "length (ptable (embryo i s)) = length (ptable s)"
  "mem (embryo i t) = mem t" "freelist (embryo i t) = freelist t" "use_lock (embryo i t) = use_lock t" "kend (embryo i t) = kend t"
  by (simp_all add: embryo_def)

lemma take_tid_get: "j \<noteq> i \<Longrightarrow> pget j (take_tid i s) = pget j s"
  by (simp add: take_tid_def pget_def pset_def split: option.split)

lemma pget_other: "j \<noteq> i \<Longrightarrow> pget j (pset i f s) = pget j s"
  by (simp add: pget_def pset_def)

lemma held_nextpid: "s\<lparr>held := h, nextpid := n\<rparr> = s\<lparr>nextpid := n, held := h\<rparr>"
  by simp

lemma embryo_other: "j \<noteq> i \<Longrightarrow> pget j (embryo i s) = pget j s"
  by (simp add: embryo_def pget_other take_tid_get) (simp add: pget_def)

lemma embryo_same:
  assumes "i < length (ptable s)"
  shows "p_state (pget i (embryo i s)) = EMBRYO" "p_pid (pget i (embryo i s)) = nextpid s"
    "find_index (\<lambda>t. t_state t = UNUSED) (ttable s) = Some k \<Longrightarrow> p_tid (pget i (embryo i s)) = k \<and> t_state (ttable (embryo i s) ! k) = EMBRYO"
  using assms find_index_SomeD(1)[of "\<lambda>t. t_state t = UNUSED" "ttable s" k]
  by (auto simp: embryo_def pget_pset take_tid_def pget_def pset_def fresh_proc_def split: option.split)

lemma allocproc_eq:
  assumes "held s = []" "find_index (\<lambda>p. p_state p = UNUSED) (ptable s) = Some i" "int_range (nextpid s + 1)"
  shows "allocproc fa ta s = bnd kalloc (\<lambda>v. seq (modify (pset i (\<lambda>p. p\<lparr>p_kstack := v\<rparr>)))
     (if v = 0 then seq (modify (pset i (\<lambda>p. p\<lparr>p_state := UNUSED\<rparr>))) (ret None)
      else seq (store (v + KSTACKSIZE - 76 - 4) ta) (seq (modify (pset i (\<lambda>p. p\<lparr>p_context := first_context fa\<rparr>))) (ret (Some i))))) (embryo i s)"
  using assms by (simp add: allocproc_def embryo_def in_range_def held_nextpid)

lemma store32_in_page:
  assumes "unat k + 4 \<le> 4096" "\<not> inpage v x"
  shows "store32 (v + k) w m x = m x"
proof -
  have False if d: "unat (x - (v + k)) < 4"
  proof -
    define e where "e = x - (v + k)"
    have "x - v = k + e" by (simp add: e_def)
    then have "unat (x - v) = unat (k + e)" by metis
    also have "\<dots> = unat k + unat e" using d assms(1) by (simp add: e_def[symmetric] unat_word_ariths)
    finally show False using assms d by (simp add: inpage_def e_def)
  qed
  then show ?thesis by (auto simp: store32_apply)
qed

text \<open>
  Claim C35. \<open>allocproc\<close> with a free entry and a free page takes the first free entry, gives it the next process number, a
  thread number of its own and the page as kernel stack, leaves every other process as it is and keeps the free list of pages intact.
\<close>

theorem allocproc_fresh:
  assumes "held s = []" "kinv s (v # xs)" "find_index (\<lambda>p. p_state p = UNUSED) (ptable s) = Some i" "int_range (nextpid s + 1)"
  shows "\<exists>s'. allocproc fa ta s = Ok (Some i) s' \<and> held s' = [] \<and> kinv s' xs \<and> nextpid s' = nextpid s + 1 \<and>
    p_state (pget i s') = EMBRYO \<and> p_pid (pget i s') = nextpid s \<and> p_kstack (pget i s') = v \<and> c_eip (p_context (pget i s')) = fa \<and>
    (\<forall>k. find_index (\<lambda>t. t_state t = UNUSED) (ttable s) = Some k \<longrightarrow> p_tid (pget i s') = k \<and> t_state (ttable s' ! k) = EMBRYO) \<and>
    (\<forall>j. j \<noteq> i \<longrightarrow> pget j s' = pget j s)"
proof -
  note i = find_index_SomeD(1)[OF assms(3)]
  let ?e = "embryo i s"
  let ?m = "store32 (v + KSTACKSIZE - 76 - 4) ta (mem s)"
  let ?s = "pset i (\<lambda>p. p\<lparr>p_context := first_context fa\<rparr>) (pset i (\<lambda>p. p\<lparr>p_kstack := v\<rparr>) (?e\<lparr>freelist := load32 v (mem s), mem := ?m\<rparr>))"
  have k: "freelist s = v" "v \<noteq> 0" "chain (mem s) (load32 v (mem s)) xs" "v \<notin> set xs" "page_ok s v" "\<forall>x \<in> set xs. page_ok s x" "distinct xs" "0 < kend s"
    using assms(2) by (auto simp: kinv_def page_ok_def)
  have "kalloc ?e = Ok v (?e\<lparr>freelist := load32 v (mem s)\<rparr>)" using assms(1) k by (simp add: kalloc_eq)
  then have e: "allocproc fa ta s = Ok (Some i) ?s"
    unfolding allocproc_eq[OF assms(1,3,4)] using k(2) by (simp add: bnd_Ok[of kalloc ?e] store_def)
  have o: "v + KSTACKSIZE - 76 - 4 = v + 4016" by (simp add: KSTACKSIZE_def)
  have "?m x = mem s x" if "\<not> inpage v x" for x unfolding o using that by (intro store32_in_page) simp_all
  then have "load32 p ?m = load32 p (mem s)" if "p \<in> set xs" for p
    using that k(4-6) inpage_disjoint[of v p] by (intro load32_page) (auto simp: page_ok_def)
  then have "chain ?m (load32 v (mem s)) xs" using k(3) chain_cong[of xs ?m "mem s"] by simp
  then have "kinv ?s xs" using k assms(1) by (auto simp: kinv_def page_ok_def)
  then show ?thesis using e assms(1) i embryo_same[OF i] embryo_other[of _ i s]
    by (intro exI[of _ ?s]) (auto simp: pget_pset first_context_def, (simp add: pget_def)+)
qed

text \<open>
  When there is no page for the kernel stack, \<open>allocproc\<close> returns null and gives the process entry back, but the
  thread number it took stays marked as in use.
\<close>

theorem allocproc_leaks_tid:
  assumes "held s = []" "kinv s []" "find_index (\<lambda>p. p_state p = UNUSED) (ptable s) = Some i" "int_range (nextpid s + 1)"
    "find_index (\<lambda>t. t_state t = UNUSED) (ttable s) = Some k"
  shows "\<exists>s'. allocproc fa ta s = Ok None s' \<and> p_state (pget i s') = UNUSED \<and> t_state (ttable s' ! k) = EMBRYO"
proof -
  note i = find_index_SomeD(1)[OF assms(3)]
  let ?e = "embryo i s"
  let ?s = "pset i (\<lambda>p. p\<lparr>p_state := UNUSED\<rparr>) (pset i (\<lambda>p. p\<lparr>p_kstack := 0\<rparr>) ?e)"
  have "kalloc ?e = Ok 0 ?e" using assms(1,2) by (simp add: kalloc_eq kinv_def)
  then have "allocproc fa ta s = Ok None ?s" unfolding allocproc_eq[OF assms(1,3,4)] by (simp add: bnd_Ok[of kalloc ?e])
  then show ?thesis using i embryo_same[OF i] assms(5) by (simp add: pget_pset)
qed

subsection \<open>Exit\<close>

lemma pimap_sel [simp]: "held (pimap f s) = held s" "c_proc (pimap f s) = c_proc s" "initproc (pimap f s) = initproc s"
  "length (ptable (pimap f s)) = length (ptable s)" "pimap f (s\<lparr>held := h\<rparr>) = (pimap f s)\<lparr>held := h\<rparr>"
  by (simp_all add: pimap_def)

lemma pget_pimap [simp]: "j < length (ptable s) \<Longrightarrow> pget j (pimap f s) = f j (pget j s)"
  by (simp add: pimap_def pget_def nth_enumerate_eq)

lemma table_eqI:
  assumes "\<And>x. s\<lparr>ptable := x\<rparr> = t\<lparr>ptable := x\<rparr>" "length (ptable s) = length (ptable t)"
    "\<And>j. j < length (ptable s) \<Longrightarrow> pget j s = pget j t"
  shows "s = t"
proof -
  have "ptable s = ptable t" using assms(2,3) by (intro nth_equalityI) (simp_all add: pget_def)
  moreover have "s = s\<lparr>ptable := ptable s\<rparr>" by simp
  moreover have "t\<lparr>ptable := ptable t\<rparr> = t" by simp
  ultimately show ?thesis using assms(1)[of "ptable s"] by metis
qed

lemma table_upd: "(pimap f s)\<lparr>ptable := x\<rparr> = s\<lparr>ptable := x\<rparr>" "(pmap g s)\<lparr>ptable := x\<rparr> = s\<lparr>ptable := x\<rparr>"
  "(pset i g s)\<lparr>ptable := x\<rparr> = s\<lparr>ptable := x\<rparr>"
  by (simp_all add: pimap_def pmap_def pset_def)

definition adopted :: "nat \<Rightarrow> nat option \<Rightarrow> nat \<Rightarrow> bool \<Rightarrow> nat \<Rightarrow> proc \<Rightarrow> proc" where
  "adopted c ip n b j p = (let q = (if j < n \<and> p_parent p = Some c then p\<lparr>p_parent := ip\<rparr> else p) in if b then wake (proc_chan ip) q else q)"

lemma adopted_sel:
  "p_parent (adopted c ip n b j p) = (if j < n \<and> p_parent p = Some c then ip else p_parent p)"
  "p_state (adopted c ip n b j p) = ZOMBIE \<longleftrightarrow> p_state p = ZOMBIE"
  "p_state (adopted c ip n b j p) = (if b \<and> p_state p = SLEEPING \<and> p_chan p = proc_chan ip then RUNNABLE else p_state p)"
  by (auto simp: adopted_def wake_def Let_def)

lemma adopted_step:
  "j \<noteq> n \<Longrightarrow> adopted c ip (Suc n) b j p = adopted c ip n b j p"
  "p_parent p \<noteq> Some c \<Longrightarrow> adopted c ip (Suc n) b j p = adopted c ip n b j p"
  unfolding adopted_def by (simp_all add: less_Suc_eq)

lemma wake_parent: "(wake ch p)\<lparr>p_parent := ip\<rparr> = wake ch (p\<lparr>p_parent := ip\<rparr>)" "wake ch (wake ch p) = wake ch p"
  by (simp_all add: wake_def)

lemma adopted_at: "p_parent p = Some c \<Longrightarrow> (adopted c ip n b n p)\<lparr>p_parent := ip\<rparr> = adopted c ip (Suc n) b n p"
  "wake (proc_chan ip) (adopted c ip n b j p) = adopted c ip n True j p"
  by (simp_all only: adopted_def Let_def wake_parent if_True if_False if_distrib[where f = "\<lambda>q. q\<lparr>p_parent := ip\<rparr>"] if_distrib[where f = "wake (proc_chan ip)"]
    lessI less_irrefl simp_thms if_cancel)

definition dead_child :: "nat \<Rightarrow> nat \<Rightarrow> 'b kcore_scheme \<Rightarrow> bool" where
  "dead_child c n s \<longleftrightarrow> (\<exists>j < n. p_parent (pget j s) = Some c \<and> p_state (pget j s) = ZOMBIE)"

lemma adopt_step:
  assumes "n < length (ptable s)"
  shows "adopt c n (pimap (adopted c (initproc s) n (dead_child c n s)) s) =
    Ok () (pimap (adopted c (initproc s) (Suc n) (dead_child c (Suc n) s)) s)"
proof -
  let ?ip = "initproc s" and ?b = "dead_child c n s"
  let ?t = "pimap (adopted c ?ip n ?b) s"
  let ?u = "pimap (adopted c ?ip (Suc n) (dead_child c (Suc n) s)) s"
  have g: "pget n ?t = adopted c ?ip n ?b n (pget n s)" using assms by simp
  have p: "p_parent (pget n ?t) = p_parent (pget n s)" "p_state (pget n ?t) = ZOMBIE \<longleftrightarrow> p_state (pget n s) = ZOMBIE"
    unfolding g by (simp_all add: adopted_sel)
  have d: "dead_child c (Suc n) s \<longleftrightarrow> ?b \<or> p_parent (pget n s) = Some c \<and> p_state (pget n s) = ZOMBIE"
    by (auto simp: dead_child_def less_Suc_eq)
  show ?thesis
  proof (cases "p_parent (pget n s) = Some c")
    case False
    then have "dead_child c (Suc n) s = ?b" using d by simp
    have "?t = ?u"
    proof (rule table_eqI)
      fix j assume "j < length (ptable ?t)"
      then show "pget j ?t = pget j ?u" using False \<open>dead_child c (Suc n) s = ?b\<close> by (cases "j = n") (simp_all add: adopted_step)
    qed (simp_all add: table_upd)
    then show ?thesis using False p(1) by (simp add: adopt_def)
  next
    case True
    let ?v = "pset n (\<lambda>p. p\<lparr>p_parent := ?ip\<rparr>) ?t"
    have v: "adopt c n ?t = whenM (p_state (pget n s) = ZOMBIE) (wakeup1 (proc_chan ?ip)) ?v" using True p by (simp add: adopt_def)
    have gv: "pget j ?v = adopted c ?ip (Suc n) ?b j (pget j s)" if "j < length (ptable s)" for j
      using that assms True by (cases "j = n") (simp_all add: pget_pset adopted_step adopted_at)
    show ?thesis
    proof (cases "p_state (pget n s) = ZOMBIE")
      case z: True
      then have b: "dead_child c (Suc n) s" using d True by simp
      have "pmap (wake (proc_chan ?ip)) ?v = ?u"
      proof (rule table_eqI)
        fix j assume "j < length (ptable (pmap (wake (proc_chan ?ip)) ?v))"
        then show "pget j (pmap (wake (proc_chan ?ip)) ?v) = pget j ?u" using b gv by (simp add: adopted_at)
      qed (simp_all add: table_upd)
      then show ?thesis using v z by (simp add: wakeup1_def)
    next
      case z: False
      then have b: "dead_child c (Suc n) s = ?b" using d by simp
      have "?v = ?u"
      proof (rule table_eqI)
        fix j assume "j < length (ptable ?v)"
        then show "pget j ?v = pget j ?u" using b gv by simp
      qed (simp_all add: table_upd)
      then show ?thesis using v z by simp
    qed
  qed
qed

lemma adopt_all:
  "n \<le> length (ptable s) \<Longrightarrow> forM [0..<n] (adopt c) s = Ok () (pimap (adopted c (initproc s) n (dead_child c n s)) s)"
proof (induction n)
  case 0
  have "pimap (adopted c (initproc s) 0 (dead_child c 0 s)) s = s"
  proof (rule table_eqI)
    fix j assume "j < length (ptable (pimap (adopted c (initproc s) 0 (dead_child c 0 s)) s))"
    then show "pget j (pimap (adopted c (initproc s) 0 (dead_child c 0 s)) s) = pget j s" by (simp add: adopted_def dead_child_def)
  qed (simp_all add: table_upd)
  then show ?case by simp
next
  case (Suc n)
  have "n \<le> length (ptable s)" and n: "n < length (ptable s)" using Suc.prems by simp_all
  from forM_snoc[OF Suc.IH[OF this(1)] adopt_step[OF n]] show ?case .
qed

lemma exit_finish_eq:
  assumes "held s = []" "c_proc s = Some c" "c < NPROC" "length (ptable s) = NPROC" "\<not> p_isThread (pget c s)"
  defines "t \<equiv> pmap (wake (proc_chan (p_parent (pget c s)))) (pset c (\<lambda>p. p\<lparr>p_state := ZOMBIE\<rparr>) s)"
  shows "exit_finish c s = Swtch ((pimap (adopted c (initproc s) NPROC (dead_child c NPROC t)) t)\<lparr>held := [L_ptable]\<rparr>)"
proof -
  let ?t = "t\<lparr>held := [L_ptable]\<rparr>"
  let ?u = "pimap (adopted c (initproc s) NPROC (dead_child c NPROC ?t)) ?t"
  have l: "length (ptable ?t) = NPROC" "initproc ?t = initproc s" using assms(4) by (simp_all add: t_def)
  have f: "forM [0..<NPROC] (adopt c) ?t = Ok () ?u" using adopt_all[of NPROC ?t c] l by simp
  have "p_state (pget c ?t) = ZOMBIE" using assms(3,4) by (simp add: t_def pget_pset wake_def)
  then have z: "p_state (pget c ?u) = ZOMBIE" using l assms(3) by (simp add: adopted_sel)
  have "exit_finish c s = seq (forM [0..<NPROC] (adopt c)) (seq sched (panic ''zombie exit'')) ?t"
    using assms(1,3-5) by (simp add: exit_finish_def wakeup1_def t_def pget_pset)
  also have "\<dots> = seq sched (panic ''zombie exit'') ?u" by (rule seq_Ok[of "forM [0..<NPROC] (adopt c)" ?t, OF f])
  also have "\<dots> = Swtch ?u"
  proof -
    have "p_state (pget c ?u) \<noteq> RUNNING" using z by simp
    moreover have "held ?u = [L_ptable]" "c_proc ?u = Some c" using assms(2) by (simp_all add: t_def)
    ultimately have "sched ?u = Swtch ?u" by (intro sched_eq)
    then show ?thesis by (simp add: seq_def bnd_def)
  qed
  finally show ?thesis by (simp add: dead_child_def)
qed

lemma wake_sel [simp]: "p_parent (wake ch p) = p_parent p" "p_state (wake ch p) = (if p_state p = SLEEPING \<and> p_chan p = ch then RUNNABLE else p_state p)"
  "p_chan (wake ch p) = p_chan p"
  by (simp_all add: wake_def)

lemma exit_finish_table:
  assumes "held s = []" "c_proc s = Some c" "c < NPROC" "length (ptable s) = NPROC" "\<not> p_isThread (pget c s)"
  obtains s' b where "exit_finish c s = Swtch s'" "held s' = [L_ptable]"
    "\<And>j. j < NPROC \<Longrightarrow> pget j s' =
      adopted c (initproc s) NPROC b j (wake (proc_chan (p_parent (pget c s))) (if j = c then (pget c s)\<lparr>p_state := ZOMBIE\<rparr> else pget j s))"
    "\<And>j. j < NPROC \<Longrightarrow> p_parent (pget j s) = Some c \<Longrightarrow> p_state (pget j s) = ZOMBIE \<Longrightarrow> b"
proof -
  let ?t = "pmap (wake (proc_chan (p_parent (pget c s)))) (pset c (\<lambda>p. p\<lparr>p_state := ZOMBIE\<rparr>) s)"
  let ?b = "dead_child c NPROC ?t"
  let ?s = "(pimap (adopted c (initproc s) NPROC ?b) ?t)\<lparr>held := [L_ptable]\<rparr>"
  have t: "pget j ?t = wake (proc_chan (p_parent (pget c s))) (if j = c then (pget c s)\<lparr>p_state := ZOMBIE\<rparr> else pget j s)" if "j < NPROC" for j
    using that assms(3,4) by (simp add: pget_pset)
  have b: "?b" if "j < NPROC" "p_parent (pget j s) = Some c" "p_state (pget j s) = ZOMBIE" for j
    unfolding dead_child_def using that t[OF that(1)] by (intro exI[of _ j]) auto
  have g: "pget j ?s = adopted c (initproc s) NPROC ?b j (wake (proc_chan (p_parent (pget c s))) (if j = c then (pget c s)\<lparr>p_state := ZOMBIE\<rparr> else pget j s))"
    if "j < NPROC" for j
  proof -
    have "j < length (ptable ?t)" using that assms(4) by simp
    from pget_pimap[OF this] show ?thesis unfolding pget_held t[OF that] .
  qed
  show thesis using that[OF exit_finish_eq[OF assms] _ g b] by simp
qed

text \<open>
  The end of \<open>exit\<close>, after the files are closed: the process is a zombie that never runs again, its parent is woken if it
  waits, its children belong to \<open>init\<close>, which is woken if one of them is dead already, and the thread gives up the CPU with the table lock.
\<close>

theorem exit_finish_hands_over:
  assumes "held s = []" "c_proc s = Some c" "c < NPROC" "length (ptable s) = NPROC" "\<not> p_isThread (pget c s)"
  shows "\<exists>s'. exit_finish c s = Swtch s' \<and> held s' = [L_ptable] \<and> p_state (pget c s') = ZOMBIE \<and>
    (\<forall>j < NPROC. p_parent (pget j s') = (if p_parent (pget j s) = Some c then initproc s else p_parent (pget j s))) \<and>
    (\<forall>q < NPROC. q \<noteq> c \<and> p_parent (pget c s) = Some q \<and> p_state (pget q s) = SLEEPING \<and> p_chan (pget q s) = ChanProc q \<longrightarrow> p_state (pget q s') = RUNNABLE) \<and>
    (\<forall>q < NPROC. \<forall>j < NPROC. q \<noteq> c \<and> initproc s = Some q \<and> p_state (pget q s) = SLEEPING \<and> p_chan (pget q s) = ChanProc q \<and>
      p_parent (pget j s) = Some c \<and> p_state (pget j s) = ZOMBIE \<longrightarrow> p_state (pget q s') = RUNNABLE)"
proof -
  obtain s' b where e: "exit_finish c s = Swtch s'" "held s' = [L_ptable]"
    and g: "\<And>j. j < NPROC \<Longrightarrow> pget j s' =
      adopted c (initproc s) NPROC b j (wake (proc_chan (p_parent (pget c s))) (if j = c then (pget c s)\<lparr>p_state := ZOMBIE\<rparr> else pget j s))"
    and b: "\<And>j. j < NPROC \<Longrightarrow> p_parent (pget j s) = Some c \<Longrightarrow> p_state (pget j s) = ZOMBIE \<Longrightarrow> b"
    using exit_finish_table[OF assms] by metis
  have "p_state (pget c s') = ZOMBIE" using g[OF assms(3)] by (simp add: adopted_sel)
  moreover have "\<forall>j < NPROC. p_parent (pget j s') = (if p_parent (pget j s) = Some c then initproc s else p_parent (pget j s))"
    using g by (simp add: adopted_sel)
  moreover have "\<forall>q < NPROC. q \<noteq> c \<and> p_parent (pget c s) = Some q \<and> p_state (pget q s) = SLEEPING \<and> p_chan (pget q s) = ChanProc q \<longrightarrow> p_state (pget q s') = RUNNABLE"
    using g by (simp add: adopted_sel proc_chan_def)
  moreover have "p_state (pget q s') = RUNNABLE" if "q < NPROC" "j < NPROC" "q \<noteq> c" "initproc s = Some q" "p_state (pget q s) = SLEEPING" "p_chan (pget q s) = ChanProc q"
      "p_parent (pget j s) = Some c" "p_state (pget j s) = ZOMBIE" for q j
    using g[OF that(1)] b[OF that(2,7,8)] that(3-6) by (simp add: adopted_sel proc_chan_def)
  ultimately show ?thesis using e by (intro exI[of _ s']) blast
qed

subsection \<open>Wait\<close>

lemma wait_scan_live:
  assumes "\<forall>j \<in> set js. p_parent (pget j s) = Some c \<longrightarrow> p_state (pget j s) \<noteq> ZOMBIE \<and> \<not> p_isThereExec (pget j s)"
  shows "wait_scan c hk js s = Ok (Inr (hk \<or> (\<exists>j \<in> set js. p_parent (pget j s) = Some c))) s"
  using assms by (induction js arbitrary: hk) auto


subsection \<open>Join\<close>

lemma uwrite_frame: "uwrite va bs s = Ok () u \<Longrightarrow> \<exists>m. u = s\<lparr>mem := m\<rparr>"
proof (induction bs arbitrary: va s)
  case Nil
  then have "u = s\<lparr>mem := mem s\<rparr>" by simp
  then show ?case by blast
next
  case (Cons c cs)
  then obtain a where a: "utrans va True s = Some a" "uwrite (va + 1) cs (s\<lparr>mem := (mem s)(a := c)\<rparr>) = Ok () u"
    by (auto split: option.splits)
  from Cons.IH[OF a(2)] show ?case by auto
qed

text \<open>
  Claim C36. \<open>thread_join\<close> does not look for the thread it is asked for.  When the first child in the process table is another thread, it is given
  back at once, in whatever state it is: its entry becomes unused and its kernel stack is freed while it may still run.
\<close>

theorem thread_join_takes_first_child:
  assumes "held s = []" "c_proc s = Some c" "find_index (\<lambda>p. p_parent p = Some c) (ptable s) = Some j" "int (p_tid (pget j s)) \<noteq> thread"
    "uwrite retval (le32 (p_retval (pget j s))) (s\<lparr>held := [L_ptable]\<rparr>) = Ok () u" "page_ok s (p_kstack (pget j s))"
  shows "\<exists>s'. thread_join thread retval s = Ok 0 s' \<and> held s' = [] \<and> p_state (pget j s') = UNUSED \<and> freelist s' = p_kstack (pget j s)"
proof -
  let ?p = "pget j s" and ?s = "s\<lparr>held := [L_ptable]\<rparr>"
  obtain m where u: "u = ?s\<lparr>mem := m\<rparr>" using uwrite_frame[OF assms(5)] by blast
  note j = find_index_SomeD(1)[OF assms(3)]
  define v where "v = (if p_isMLFQ ?p then id else give_share (p_share ?p)) (free_tid (p_tid ?p) u)"
  have v: "held v = [L_ptable]" "ptable v = ptable s" "kend v = kend s" "use_lock v = use_lock s"
    by (simp_all add: v_def u free_tid_def give_share_def)
  have "thread_join thread retval s = seq (modify (free_tid (p_tid ?p))) (seq (whenM (\<not> p_isMLFQ ?p) (modify (give_share (p_share ?p))))
     (seq (reap j) (seq (modify (pset j reset_proc)) (seq (release L_ptable) (ret 0))))) u"
    using assms(1-4) by (simp add: thread_join_def join_at_def seq_Ok[of "uwrite retval (le32 (p_retval ?p))" ?s, OF assms(5)])
  also have "\<dots> = seq (reap j) (seq (modify (pset j reset_proc)) (seq (release L_ptable) (ret 0))) v" by (simp add: v_def)
  finally have e: "thread_join thread retval s = seq (reap j) (seq (modify (pset j reset_proc)) (seq (release L_ptable) (ret 0))) v" .
  let ?v = "pset j reset_sched v"
  have k: "p_kstack (pget j ?v) = p_kstack ?p" using j v(2) by (simp add: pget_def reset_sched_def)
  have "page_ok ?v (p_kstack ?p)" using assms(6) v(3) by (simp add: page_ok_def)
  then have f: "kfree (p_kstack ?p) ?v = Ok () (?v\<lparr>mem := store32 (p_kstack ?p) (freelist ?v) (memset (p_kstack ?p) 1 PGSIZE (mem ?v)), freelist := p_kstack ?p\<rparr>)"
    using v(1) by (intro kfree_eq) simp_all
  show ?thesis unfolding e using j v(1,2) k by (simp add: reap_def seq_Ok f pget_pset) (simp add: pget_def reset_proc_def)
qed

subsection \<open>Tables to try them on\<close>

definition page0 :: uint where
  "page0 = 0x80300000"

definition kmem1 :: kmemst where
  "kmem1 = kmem0\<lparr>mem := store32 page0 0 (memset page0 1 PGSIZE (\<lambda>_. 0)), freelist := page0\<rparr>"

lemma kmem0_tables: "ptable kmem0 = replicate NPROC proc0" "ttable kmem0 = replicate NPROC \<lparr>t_index = 0, t_state = UNUSED\<rparr>" "nextpid kmem0 = 1"
  by (simp_all add: kmem0_def kcore.defs kmemst.defs kcore0_def)

lemma kmem0_first: "find_index (\<lambda>p. p_state p = UNUSED) (ptable kmem0) = Some 0" "find_index (\<lambda>t. t_state t = UNUSED) (ttable kmem0) = Some 0"
  by (rule find_index_SomeI; simp add: kmem0_tables NPROC_def)+

lemma kmem0_inv: "kinv kmem0 []"
  by (simp add: kinv_def)

lemma kmem1_inv: "kinv kmem1 [page0]"
proof -
  have p: "page_ok kmem0 page0" by (simp add: page_ok_def aligned_def page0_def PGSIZE_def V2P_def KERNBASE_def PHYSTOP_def)
  then have "kfree page0 kmem0 = Ok () kmem1" unfolding kmem1_def by (subst kfree_eq) simp_all
  then show ?thesis using kfree_kinv[OF kmem0_inv p] by simp
qed

theorem allocproc_fresh_witness:
  "\<exists>s'. allocproc 0x80103000 0x80105000 kmem1 = Ok (Some 0) s' \<and> p_pid (pget 0 s') = 1 \<and> p_kstack (pget 0 s') = page0"
proof -
  have "held kmem1 = []" "find_index (\<lambda>p. p_state p = UNUSED) (ptable kmem1) = Some 0" "nextpid kmem1 = 1" "int_range (nextpid kmem1 + 1)"
    using kmem0_first kmem0_tables(3) by (simp_all add: kmem1_def int_range_def)
  then show ?thesis using allocproc_fresh[of kmem1 page0 "[]" 0 "0x80103000" "0x80105000"] kmem1_inv by auto
qed

theorem allocproc_leaks_tid_witness:
  "\<exists>s'. allocproc 0x80103000 0x80105000 kmem0 = Ok None s' \<and> p_state (pget 0 s') = UNUSED \<and> t_state (ttable s' ! 0) = EMBRYO"
proof -
  have "int_range (nextpid kmem0 + 1)" by (simp add: kmem0_tables int_range_def)
  then show ?thesis using allocproc_leaks_tid[of kmem0 0 0 "0x80103000" "0x80105000"] kmem0_inv kmem0_first by simp
qed

text \<open>Process 0 is the parent of process 1, whose child 2 is dead; \<open>init\<close> is process 3.\<close>

definition family :: kmemst where
  "family = kmem0\<lparr>c_proc := Some 1, initproc := Some 3, ptable := (replicate NPROC proc0)
     [0 := proc0\<lparr>p_state := SLEEPING, p_chan := ChanProc 0, p_pid := 1\<rparr>, 1 := proc0\<lparr>p_state := RUNNING, p_pid := 2, p_parent := Some 0\<rparr>,
      2 := proc0\<lparr>p_state := ZOMBIE, p_pid := 3, p_parent := Some 1\<rparr>, 3 := proc0\<lparr>p_state := SLEEPING, p_chan := ChanProc 3, p_pid := 4\<rparr>]\<rparr>"

lemma family_ok: "held family = []" "c_proc family = Some 1" "length (ptable family) = NPROC" "\<not> p_isThread (pget 1 family)"
  by (simp_all add: family_def pget_def NPROC_def)

lemma family_procs: "pget 0 family = proc0\<lparr>p_state := SLEEPING, p_chan := ChanProc 0, p_pid := 1\<rparr>" "p_parent (pget 1 family) = Some 0"
  "p_parent (pget 2 family) = Some 1" "p_state (pget 2 family) = ZOMBIE" "pget 3 family = proc0\<lparr>p_state := SLEEPING, p_chan := ChanProc 3, p_pid := 4\<rparr>"
  "initproc family = Some 3"
  by (simp_all add: family_def pget_def NPROC_def nth_list_update)

theorem exit_finish_hands_over_witness:
  "\<exists>s'. exit_finish 1 family = Swtch s' \<and> p_state (pget 1 s') = ZOMBIE \<and> p_state (pget 0 s') = RUNNABLE \<and> p_parent (pget 2 s') = Some 3 \<and>
    p_state (pget 3 s') = RUNNABLE"
proof -
  have n: "1 < NPROC" "0 < NPROC" "2 < NPROC" "3 < NPROC" by (simp_all add: NPROC_def)
  obtain s' where s': "exit_finish 1 family = Swtch s'" "p_state (pget 1 s') = ZOMBIE"
    "\<forall>j < NPROC. p_parent (pget j s') = (if p_parent (pget j family) = Some 1 then initproc family else p_parent (pget j family))"
    "\<forall>q < NPROC. q \<noteq> 1 \<and> p_parent (pget 1 family) = Some q \<and> p_state (pget q family) = SLEEPING \<and> p_chan (pget q family) = ChanProc q \<longrightarrow> p_state (pget q s') = RUNNABLE"
    "\<forall>q < NPROC. \<forall>j < NPROC. q \<noteq> 1 \<and> initproc family = Some q \<and> p_state (pget q family) = SLEEPING \<and> p_chan (pget q family) = ChanProc q \<and>
      p_parent (pget j family) = Some 1 \<and> p_state (pget j family) = ZOMBIE \<longrightarrow> p_state (pget q s') = RUNNABLE"
    using exit_finish_hands_over[OF family_ok(1,2) n(1) family_ok(3,4)] by blast
  have "p_state (pget 0 s') = RUNNABLE" using s'(4)[rule_format, of 0] n(2) family_procs by simp
  moreover have "p_parent (pget 2 s') = Some 3" using s'(3)[rule_format, OF n(3)] family_procs by simp
  moreover have "p_state (pget 3 s') = RUNNABLE" using s'(5)[rule_format, OF n(4,3)] family_procs by simp
  ultimately show ?thesis using s'(1,2) by blast
qed

text \<open>The same family with the child 2 alive and its parent, process 1, about to wait.\<close>

definition family2 :: kmemst where
  "family2 = kmem0\<lparr>c_proc := Some 1, ptable := (replicate NPROC proc0)
     [1 := proc0\<lparr>p_state := RUNNING, p_pid := 2\<rparr>, 2 := proc0\<lparr>p_state := RUNNABLE, p_pid := 3, p_parent := Some 1\<rparr>]\<rparr>"


text \<open>Process 0 joins thread 5 while its first child, thread 1, is runnable; every byte of memory is 7, so that every page is there and may be written.\<close>

definition family3 :: kmemst where
  "family3 = kmem0\<lparr>mem := (\<lambda>_. 7), c_proc := Some 0, cr3 := 0, ptable := (replicate NPROC proc0)
     [0 := proc0\<lparr>p_state := RUNNING, p_pid := 1\<rparr>,
      1 := proc0\<lparr>p_state := RUNNABLE, p_pid := 1, p_parent := Some 0, p_isThread := True, p_tid := 1, p_kstack := page0\<rparr>]\<rparr>"

lemma uwrite_family3: "\<exists>u. uwrite 0x5100 (le32 0) (family3\<lparr>held := [L_ptable]\<rparr>) = Ok () u"
  by (simp add: le32_def family3_def utrans_def load32_def un32_def PDX_def PTX_def PTE_ADDR_def P2V_def PTE_P_def PTE_W_def KERNBASE_def)

theorem thread_join_takes_first_child_witness:
  "\<exists>s'. thread_join 5 0x5100 family3 = Ok 0 s' \<and> p_state (pget 1 family3) = RUNNABLE \<and> p_tid (pget 1 family3) = 1 \<and> p_state (pget 1 s') = UNUSED \<and>
    freelist s' = p_kstack (pget 1 family3)"
proof -
  have p: "pget 1 family3 = proc0\<lparr>p_state := RUNNABLE, p_pid := 1, p_parent := Some 0, p_isThread := True, p_tid := 1, p_kstack := page0\<rparr>"
    by (simp add: family3_def pget_def NPROC_def)
  have f: "find_index (\<lambda>p. p_parent p = Some 0) (ptable family3) = Some 1"
    by (rule find_index_SomeI) (simp_all add: family3_def NPROC_def nth_list_update)
  have "p_retval (pget 1 family3) = 0" unfolding p by (simp add: proc0_def)
  then obtain u where u: "uwrite 0x5100 (le32 (p_retval (pget 1 family3))) (family3\<lparr>held := [L_ptable]\<rparr>) = Ok () u" using uwrite_family3 by auto
  have k: "page_ok family3 (p_kstack (pget 1 family3))"
    unfolding p by (simp add: family3_def page0_def page_ok_def aligned_def V2P_def KERNBASE_def PHYSTOP_def PGSIZE_def)
  have h: "held family3 = []" "c_proc family3 = Some 0" by (simp_all add: family3_def)
  have d: "int (p_tid (pget 1 family3)) \<noteq> 5" unfolding p by simp
  from thread_join_takes_first_child[OF h f d u k] show ?thesis unfolding p by auto
qed

end
