(* ===== verification/Exec.thy ===== *)
theory Exec
  imports Proc
begin

text \<open>
  Loading a program (\<open>exec\<close> of exec.c).  The file and program headers are decoded from the bytes \<open>readi\<close> returns, at the
  offsets of the fields of elf.h.  The arguments are the strings behind the user pointers; \<open>kd\<close> is the linker symbol \<open>data\<close>.
\<close>

definition MAXARG :: nat where "MAXARG = 32"
definition ELF_MAGIC :: uint where "ELF_MAGIC = 0x464C457F"
definition ELF_PROG_LOAD :: uint where "ELF_PROG_LOAD = 1"

record elfhdr =
  e_magic :: uint
  e_entry :: uint
  e_phoff :: uint
  e_phnum :: ushort

record proghdr =
  ph_type :: uint
  ph_off :: uint
  ph_vaddr :: uint
  ph_filesz :: uint
  ph_memsz :: uint

definition elfhdr_of :: "bytes \<Rightarrow> elfhdr" where
  "elfhdr_of b = \<lparr>e_magic = un32 (slice b 0 4), e_entry = un32 (slice b 24 4), e_phoff = un32 (slice b 28 4), e_phnum = un16 (slice b 44 2)\<rparr>"

definition proghdr_of :: "bytes \<Rightarrow> proghdr" where
  "proghdr_of b = \<lparr>ph_type = un32 (slice b 0 4), ph_off = un32 (slice b 4 4), ph_vaddr = un32 (slice b 8 4),
     ph_filesz = un32 (slice b 16 4), ph_memsz = un32 (slice b 20 4)\<rparr>"

text \<open>The loop over the program headers, \<open>k\<close> of them left; \<open>None\<close> is the jump to \<open>bad\<close>.\<close>

fun exec_load :: "uint \<Rightarrow> nat \<Rightarrow> int \<Rightarrow> uint \<Rightarrow> nat \<Rightarrow> (uint option, 'b) fop" where
  "exec_load pgdir ip off sz 0 = ret (Some sz)"
| "exec_load pgdir ip off sz (Suc k) = bnd (readi ip (of_int off) 32) (\<lambda>(r, b). let ph = proghdr_of b in
     if r \<noteq> 32 then ret None
     else if ph_type ph \<noteq> ELF_PROG_LOAD then seq (in_range (int_range (off + 32))) (exec_load pgdir ip (off + 32) sz k)
     else if ph_memsz ph < ph_filesz ph then ret None
     else if ph_vaddr ph + ph_memsz ph < ph_vaddr ph then ret None
     else bnd (allocuvm pgdir sz (ph_vaddr ph + ph_memsz ph)) (\<lambda>sz. if sz = 0 then ret None
     else if ph_vaddr ph mod PGSIZE \<noteq> 0 then ret None
     else bnd (loaduvm pgdir (ph_vaddr ph) ip (ph_off ph) (ph_filesz ph)) (\<lambda>e. if e < 0 then ret None
     else seq (in_range (int_range (off + 32))) (exec_load pgdir ip (off + 32) sz k))))"

text \<open>Push the argument strings; the result is the stack pointer and the addresses of the strings.\<close>

fun exec_args :: "uint \<Rightarrow> uint \<Rightarrow> uint list \<Rightarrow> bytes list \<Rightarrow> ((uint \<times> uint list) option, 'b) mop" where
  "exec_args pgdir sp us [] = ret (Some (sp, us))"
| "exec_args pgdir sp us (a # as) = (if length us \<ge> MAXARG then ret None
     else let sp' = (sp - (of_nat (length a) + 1)) AND NOT 3 in
       bnd (copyout pgdir sp' (a @ [0])) (\<lambda>e. if e < 0 then ret None else exec_args pgdir sp' (us @ [sp']) as))"

definition ustack :: "uint \<Rightarrow> uint list \<Rightarrow> uint list" where
  "ustack sp us = [0xFFFFFFFF, of_nat (length us), sp - (of_nat (length us) + 1) * 4] @ us @ [0]"

text \<open>The part of a path behind its last slash.\<close>

definition last_elem :: "bytes \<Rightarrow> bytes" where
  "last_elem path = rev (takeWhile (\<lambda>c. c \<noteq> SLASH) (rev path))"

text \<open>The stacks for the threads the program may create.\<close>

fun exec_stacks :: "uint \<Rightarrow> uint \<Rightarrow> nat \<Rightarrow> (uint option, 'b) mop" where
  "exec_stacks pgdir sz 0 = ret (Some sz)"
| "exec_stacks pgdir sz (Suc k) = bnd (allocuvm pgdir sz (sz + 2 * PGSIZE)) (\<lambda>sz. if sz = 0 then ret None else exec_stacks pgdir sz k)"

text \<open>A thread that calls \<open>exec\<close> takes the place of the main thread of its process.\<close>

definition exec_thread :: "nat \<Rightarrow> (unit, 'b) kop" where
  "exec_thread c = bnd (gets (pget c)) (\<lambda>cp. if p_isThread cp
     then bnd (deref (p_parent cp)) (\<lambda>q. seq (modify (pset q (\<lambda>p. p\<lparr>p_isMainThread := False\<rparr>)))
       (seq (modify (pset c (\<lambda>p. p\<lparr>p_isMainThread := True\<rparr>))) (seq (modify (pset q (\<lambda>p. p\<lparr>p_isThereExec := True\<rparr>)))
       (bnd (gets (\<lambda>s. p_parent (pget q s))) (\<lambda>g. modify (pset c (\<lambda>p. p\<lparr>p_parent := g, p_isThread := False\<rparr>)))))))
     else modify (pset c (\<lambda>p. p\<lparr>p_tid := 0\<rparr>)))"

definition exec_zombies :: "nat \<Rightarrow> (unit, 'b) kop" where
  "exec_zombies c = forM [0..<NPROC] (\<lambda>j. bnd (gets (pget j)) (\<lambda>p. bnd (gets (pget c)) (\<lambda>cp.
     whenM (p_pid p = p_pid cp \<and> j \<noteq> c)
       (seq (whenM (\<not> p_isMainThread p) (bnd (deref (p_parent p)) (\<lambda>q. bnd (gets (\<lambda>s. p_parent (pget q s))) (\<lambda>g.
          modify (pset j (\<lambda>p. p\<lparr>p_parent := g\<rparr>))))))
       (modify (pset j (\<lambda>p. p\<lparr>p_state := ZOMBIE\<rparr>)))))))"

definition exec_commit :: "nat \<Rightarrow> uint \<Rightarrow> uint \<Rightarrow> uint \<Rightarrow> uint \<Rightarrow> (int, 'b) mop" where
  "exec_commit c pgdir sz sp entry = bnd (gets (\<lambda>s. p_pgdir (pget c s))) (\<lambda>oldpgdir.
     seq (modify (pset c (\<lambda>p. p\<lparr>p_pgdir := pgdir, p_usz := sz\<rparr>)))
     (bnd (exec_stacks pgdir sz NPROC) (\<lambda>r. case r of None \<Rightarrow> ret (- 1) | Some sz \<Rightarrow>
     seq (modify (pset c (\<lambda>p. p\<lparr>p_sz := sz, p_tf := (p_tf p)\<lparr>tf_eip := entry, tf_esp := sp\<rparr>\<rparr>)))
     (seq (exec_thread c) (seq (acquire L_ptable) (seq (exec_zombies c) (seq (release L_ptable)
     (seq (switchuvm (Some c)) (seq (freevm oldpgdir) (ret 0))))))))))"

text \<open>The stack of the new program and what follows it; the inode is released by then.\<close>

definition exec_stack :: "nat \<Rightarrow> uint \<Rightarrow> uint \<Rightarrow> bytes \<Rightarrow> bytes list \<Rightarrow> uint \<Rightarrow> (int, 'b) mop" where
  "exec_stack c pgdir sz path argv entry = (let bad = seq (freevm pgdir) (ret (- 1)); sz = PGROUNDUP sz in
     bnd (allocuvm pgdir sz (sz + 2 * PGSIZE)) (\<lambda>sz. if sz = 0 then bad
     else seq (clearpteu pgdir (sz - 2 * PGSIZE)) (bnd (exec_args pgdir sz [] argv) (\<lambda>r. case r of None \<Rightarrow> bad | Some (sp, us) \<Rightarrow>
       let sp' = sp - of_nat (3 + length us + 1) * 4 in
       bnd (copyout pgdir sp' (concat (map le32 (ustack sp us)))) (\<lambda>e. if e < 0 then bad
       else seq (modify (pset c (\<lambda>p. p\<lparr>p_name := safestrcpy (p_name p) (last_elem path @ [0]) 16\<rparr>)))
         (exec_commit c pgdir sz sp' entry))))))"

definition exec :: "uint \<Rightarrow> bytes \<Rightarrow> bytes list \<Rightarrow> (int, 'b) fop" where
  "exec kd path argv = bnd curproc (\<lambda>c. seq begin_op (bnd (namei path) (\<lambda>r. case r of None \<Rightarrow> seq end_op (ret (- 1)) | Some ip \<Rightarrow>
     seq (ilock (Some ip)) (let bad = seq (iunlockput ip) (seq end_op (ret (- 1))) in
     bnd (readi ip 0 52) (\<lambda>(n, b). let elf = elfhdr_of b in
     if n \<noteq> 52 then bad
     else if e_magic elf \<noteq> ELF_MAGIC then bad
     else bnd (setupkvm kd) (\<lambda>pgdir. if pgdir = 0 then bad
     else bnd (exec_load pgdir ip (sint (e_phoff elf)) 0 (unat (e_phnum elf))) (\<lambda>r. case r of
       None \<Rightarrow> seq (freevm pgdir) bad
     | Some sz \<Rightarrow> seq (iunlockput ip) (seq end_op (exec_stack c pgdir sz path argv (e_entry elf))))))))))"

end
