(* ===== verification/Syscall.thy ===== *)
theory Syscall
  imports Exec
begin

text \<open>
  System calls and traps (syscall.c, sysproc.c, sysfile.c, trap.c).  The arguments are on the user stack, which the kernel reads through
  the page table of the CPU.  A fetched word is its 32 bits, \<open>sint\<close> of it the C \<open>int\<close>; \<open>None\<close> stands for the result -1 of a
  fetch.  A string is returned as its bytes, its length being the C result.  The bytes of a buffer are read from user memory before the
  file operation and written to it afterwards.  The addresses \<open>kd\<close>, \<open>forkret_a\<close> and \<open>trapret_a\<close> are passed on to theory Proc.
\<close>

subsection \<open>Arguments\<close>

definition cur :: "(proc \<Rightarrow> 'a) \<Rightarrow> ('a, 'b) kop" where
  "cur f = bnd curproc (\<lambda>c. gets (\<lambda>s. f (pget c s)))"

definition fetchint :: "uint \<Rightarrow> (uint option, 'b) mop" where
  "fetchint addr = bnd (cur p_sz) (\<lambda>sz. if addr \<ge> sz \<or> addr + 4 > sz then ret None
     else bnd (uread addr 4) (\<lambda>b. ret (Some (un32 b))))"

fun fetchstr_loop :: "uint \<Rightarrow> nat \<Rightarrow> (bytes option, 'b) mop" where
  "fetchstr_loop s 0 = ret None"
| "fetchstr_loop s (Suc n) = bnd (uload s) (\<lambda>c. if c = 0 then ret (Some [])
     else bnd (fetchstr_loop (s + 1) n) (\<lambda>r. ret (map_option (\<lambda>cs. c # cs) r)))"

definition fetchstr :: "uint \<Rightarrow> (bytes option, 'b) mop" where
  "fetchstr addr = bnd (cur p_sz) (\<lambda>sz. if addr \<ge> sz then ret None else fetchstr_loop addr (unat sz - unat addr))"

definition argint :: "nat \<Rightarrow> (uint option, 'b) mop" where
  "argint n = bnd (cur (\<lambda>p. tf_esp (p_tf p))) (\<lambda>esp. fetchint (esp + 4 + 4 * of_nat n))"

definition argptr :: "nat \<Rightarrow> int \<Rightarrow> (uint option, 'b) mop" where
  "argptr n len = bnd (argint n) (\<lambda>r. case r of None \<Rightarrow> ret None | Some i \<Rightarrow> bnd (cur p_sz) (\<lambda>sz.
     if len < 0 \<or> i \<ge> sz \<or> i + of_int len > sz then ret None else ret (Some i)))"

definition argstr :: "nat \<Rightarrow> (bytes option, 'b) mop" where
  "argstr n = bnd (argint n) (\<lambda>r. case r of None \<Rightarrow> ret None | Some a \<Rightarrow> fetchstr a)"

text \<open>Go on with a fetched argument, or return -1 from the system call.\<close>

definition orfail :: "('s \<Rightarrow> ('a option, 's) res) \<Rightarrow> ('a \<Rightarrow> 's \<Rightarrow> (int, 's) res) \<Rightarrow> 's \<Rightarrow> (int, 's) res" where
  "orfail m f = bnd m (\<lambda>r. case r of None \<Rightarrow> ret (- 1) | Some a \<Rightarrow> f a)"

subsection \<open>File descriptors\<close>

definition argfd :: "nat \<Rightarrow> ((nat \<times> nat) option, 'b) mop" where
  "argfd n = bnd (argint n) (\<lambda>r. case r of None \<Rightarrow> ret None | Some w \<Rightarrow>
     if sint w < 0 \<or> sint w \<ge> int NOFILE then ret None
     else bnd (cur (\<lambda>p. p_ofile p ! unat w)) (\<lambda>f. ret (map_option (\<lambda>f. (unat w, f)) f)))"

definition fdalloc :: "nat \<Rightarrow> (nat option, 'b) kop" where
  "fdalloc f = bnd curproc (\<lambda>c. bnd (gets (\<lambda>s. find_index (\<lambda>x. x = None) (take NOFILE (p_ofile (pget c s))))) (\<lambda>r. case r of None \<Rightarrow> ret None
     | Some fd \<Rightarrow> seq (modify (pset c (\<lambda>p. p\<lparr>p_ofile := (p_ofile p)[fd := Some f]\<rparr>))) (ret (Some fd))))"

definition clear_fd :: "nat \<Rightarrow> (unit, 'b) kop" where
  "clear_fd fd = bnd curproc (\<lambda>c. modify (pset c (\<lambda>p. p\<lparr>p_ofile := (p_ofile p)[fd := None]\<rparr>)))"

definition sys_dup :: "(int, 'b) ftop" where
  "sys_dup = orfail (argfd 0) (\<lambda>(_, f). orfail (fdalloc f) (\<lambda>fd. seq (filedup f) (ret (int fd))))"

text \<open>The arguments of the calls that read and write: the file, the buffer and the number of bytes.\<close>

definition arg_buf :: "(nat \<Rightarrow> uint \<Rightarrow> int \<Rightarrow> (int, 'b) ftop) \<Rightarrow> (int, 'b) ftop" where
  "arg_buf k = orfail (argfd 0) (\<lambda>(_, f). orfail (argint 2) (\<lambda>n. orfail (argptr 1 (sint n)) (\<lambda>p. k f p (sint n))))"

definition sys_read :: "(int, 'b) ftop" where
  "sys_read = arg_buf (\<lambda>f p n. bnd (fileread f n) (\<lambda>(r, b). seq (uwrite p b) (ret r)))"

definition sys_write :: "(int, 'b) ftop" where
  "sys_write = arg_buf (\<lambda>f p n. bnd (uread p (nat n)) (\<lambda>b. filewrite f b n))"

definition sys_pwrite :: "(int, 'b) ftop" where
  "sys_pwrite = arg_buf (\<lambda>f p n. orfail (argint 3) (\<lambda>off. bnd (uread p (nat n)) (\<lambda>b. pfilewrite f b n (sint off))))"

definition sys_pread :: "(int, 'b) ftop" where
  "sys_pread = arg_buf (\<lambda>f p n. orfail (argint 3) (\<lambda>off. bnd (pfileread f n (sint off)) (\<lambda>(r, b). seq (uwrite p b) (ret r))))"

definition sys_close :: "(int, 'b) ftop" where
  "sys_close = orfail (argfd 0) (\<lambda>(fd, f). seq (clear_fd fd) (seq (fileclose f) (ret 0)))"

text \<open>The fields of a \<open>struct stat\<close> at their offsets.\<close>

definition put_stat :: "uint \<Rightarrow> stat \<Rightarrow> (unit, 'b) mop" where
  "put_stat a st = seq (uwrite a (le16 (st_type st))) (seq (uwrite (a + 4) (le32 (st_dev st))) (seq (uwrite (a + 8) (le32 (st_ino st)))
     (seq (uwrite (a + 12) (le16 (st_nlink st))) (uwrite (a + 16) (le32 (st_size st))))))"

definition sys_fstat :: "(int, 'b) ftop" where
  "sys_fstat = orfail (argfd 0) (\<lambda>(_, f). orfail (argptr 1 20) (\<lambda>a. bnd (filestat f) (\<lambda>r. case r of None \<Rightarrow> ret (- 1)
     | Some st \<Rightarrow> seq (put_stat a st) (ret 0))))"

subsection \<open>Links\<close>

definition add_nlink :: "nat \<Rightarrow> ushort \<Rightarrow> (unit, 'b) fop" where
  "add_nlink ip d = seq (modify (iset ip (\<lambda>p. p\<lparr>i_nlink := i_nlink p + d\<rparr>))) (iupdate ip)"

definition link_bad :: "nat \<Rightarrow> (int, 'b) fop" where
  "link_bad ip = seq (ilock (Some ip)) (seq (add_nlink ip (- 1)) (seq (iunlockput ip) (seq end_op (ret (- 1)))))"

definition sys_link :: "(int, 'b) fop" where
  "sys_link = orfail (argstr 0) (\<lambda>old. orfail (argstr 1) (\<lambda>new. seq begin_op (bnd (namei old) (\<lambda>r. case r of None \<Rightarrow> seq end_op (ret (- 1))
     | Some ip \<Rightarrow> seq (ilock (Some ip)) (bnd (gets (\<lambda>s. i_type (iget_inode ip s))) (\<lambda>ty.
       if ty = T_DIR then seq (iunlockput ip) (seq end_op (ret (- 1)))
       else seq (add_nlink ip 1) (seq (iunlock (Some ip)) (bnd (nameiparent new) (\<lambda>r. case r of None \<Rightarrow> link_bad ip | Some (dp, name) \<Rightarrow>
         seq (ilock (Some dp)) (bnd (gets (\<lambda>s. (i_dev (iget_inode dp s) \<noteq> i_dev (iget_inode ip s), i_inum (iget_inode ip s)))) (\<lambda>(x, inum).
         bnd (if x then ret (- 1) else dirlink dp name inum) (\<lambda>e.
         if e < 0 then seq (iunlockput dp) (link_bad ip)
         else seq (iunlockput dp) (seq (iput ip) (seq end_op (ret 0)))))))))))))))"

fun isdirempty_loop :: "nat \<Rightarrow> nat list \<Rightarrow> (bool, 'b) fop" where
  "isdirempty_loop dp [] = ret True"
| "isdirempty_loop dp (off # offs) = bnd (readi dp (of_nat off) 16) (\<lambda>(r, de). if r \<noteq> 16 then panic ''isdirempty: readi''
     else if de_inum de \<noteq> 0 then ret False else isdirempty_loop dp offs)"

definition isdirempty :: "nat \<Rightarrow> (bool, 'b) fop" where
  "isdirempty dp = bnd (gets (\<lambda>s. i_size (iget_inode dp s))) (\<lambda>sz. isdirempty_loop dp (drop 2 (dir_offs sz)))"

definition unlink_at :: "nat \<Rightarrow> nat \<Rightarrow> uint \<Rightarrow> (int, 'b) fop" where
  "unlink_at dp ip off = bnd (gets (\<lambda>s. i_type (iget_inode ip s))) (\<lambda>ty. bnd (writei dp (replicate 16 0) off 16) (\<lambda>r.
     if r \<noteq> 16 then panic ''unlink: writei''
     else seq (whenM (ty = T_DIR) (add_nlink dp (- 1))) (seq (iunlockput dp) (seq (add_nlink ip (- 1)) (seq (iunlockput ip) (seq end_op (ret 0)))))))"

definition sys_unlink :: "(int, 'b) fop" where
  "sys_unlink = orfail (argstr 0) (\<lambda>path. seq begin_op (bnd (nameiparent path) (\<lambda>r. case r of None \<Rightarrow> seq end_op (ret (- 1))
     | Some (dp, name) \<Rightarrow> seq (ilock (Some dp)) (let bad = seq (iunlockput dp) (seq end_op (ret (- 1))) in
       if namecmp name [46] = 0 \<or> namecmp name [46, 46] = 0 then bad
       else bnd (dirlookup dp name) (\<lambda>x. case x of None \<Rightarrow> bad | Some (ip, off) \<Rightarrow> seq (ilock (Some ip)) (bnd (gets (iget_inode ip)) (\<lambda>p.
         if sint (i_nlink p) < 1 then panic ''unlink: nlink < 1''
         else bnd (if i_type p = T_DIR then isdirempty ip else ret True) (\<lambda>e.
           if \<not> e then seq (iunlockput ip) bad else unlink_at dp ip off))))))))"

subsection \<open>Creating and opening\<close>

definition create_dots :: "nat \<Rightarrow> nat \<Rightarrow> (unit, 'b) fop" where
  "create_dots dp ip = seq (add_nlink dp 1) (bnd (gets (\<lambda>s. (i_inum (iget_inode ip s), i_inum (iget_inode dp s)))) (\<lambda>(n, m).
     bnd (dirlink ip [46] n) (\<lambda>e. if e < 0 then panic ''create dots''
     else bnd (dirlink ip [46, 46] m) (\<lambda>e. if e < 0 then panic ''create dots'' else ret ()))))"

definition create :: "bytes \<Rightarrow> ushort \<Rightarrow> ushort \<Rightarrow> ushort \<Rightarrow> (nat option, 'b) fop" where
  "create path type major minor = bnd (nameiparent path) (\<lambda>r. case r of None \<Rightarrow> ret None | Some (dp, name) \<Rightarrow>
     seq (ilock (Some dp)) (bnd (dirlookup dp name) (\<lambda>x. case x of
       Some (ip, _) \<Rightarrow> seq (iunlockput dp) (seq (ilock (Some ip)) (bnd (gets (\<lambda>s. i_type (iget_inode ip s))) (\<lambda>ty.
         if type = T_FILE \<and> ty = T_FILE then ret (Some ip) else seq (iunlockput ip) (ret None))))
     | None \<Rightarrow> bnd (gets (\<lambda>s. i_dev (iget_inode dp s))) (\<lambda>dev. bnd (ialloc dev type) (\<lambda>ip. seq (ilock (Some ip))
         (seq (modify (iset ip (\<lambda>p. p\<lparr>i_major := major, i_minor := minor, i_nlink := 1\<rparr>))) (seq (iupdate ip)
         (seq (whenM (type = T_DIR) (create_dots dp ip)) (bnd (gets (\<lambda>s. i_inum (iget_inode ip s))) (\<lambda>inum.
         bnd (dirlink dp name inum) (\<lambda>e. if e < 0 then panic ''create: dirlink'' else seq (iunlockput dp) (ret (Some ip)))))))))))))"

definition O_WRONLY :: uint where "O_WRONLY = 1"
definition O_RDWR :: uint where "O_RDWR = 2"
definition O_CREATE :: uint where "O_CREATE = 0x200"

text \<open>The inode to open, locked, or \<open>None\<close>.\<close>

definition open_inode :: "bytes \<Rightarrow> uint \<Rightarrow> (nat option, 'b) fop" where
  "open_inode path omode = (if omode AND O_CREATE \<noteq> 0 then create path T_FILE 0 0
     else bnd (namei path) (\<lambda>r. case r of None \<Rightarrow> ret None | Some ip \<Rightarrow> seq (ilock (Some ip)) (bnd (gets (\<lambda>s. i_type (iget_inode ip s))) (\<lambda>ty.
       if ty = T_DIR \<and> omode \<noteq> 0 then seq (iunlockput ip) (ret None) else ret (Some ip)))))"

definition open_file :: "(nat \<times> nat) option \<Rightarrow> nat \<Rightarrow> uint \<Rightarrow> (int, 'b) ftop" where
  "open_file r ip omode = (case r of None \<Rightarrow> seq (iunlockput ip) (seq end_op (ret (- 1)))
     | Some (f, fd) \<Rightarrow> seq (iunlock (Some ip)) (seq end_op (seq (modify (fset f (\<lambda>x. x\<lparr>f_type := FD_INODE, f_ip := ip, f_off := 0,
       f_readable := omode AND O_WRONLY = 0, f_writable := omode AND O_WRONLY \<noteq> 0 \<or> omode AND O_RDWR \<noteq> 0\<rparr>))) (ret (int fd)))))"

text \<open>A file table entry with a descriptor for it, or none of the two.\<close>

definition new_fd :: "((nat \<times> nat) option, 'b) ftop" where
  "new_fd = bnd filealloc (\<lambda>r. case r of None \<Rightarrow> ret None | Some f \<Rightarrow> bnd (fdalloc f) (\<lambda>r. case r of
     None \<Rightarrow> seq (fileclose f) (ret None) | Some fd \<Rightarrow> ret (Some (f, fd))))"

definition sys_open :: "(int, 'b) ftop" where
  "sys_open = orfail (argstr 0) (\<lambda>path. orfail (argint 1) (\<lambda>omode. seq begin_op (bnd (open_inode path omode) (\<lambda>r. case r of
     None \<Rightarrow> seq end_op (ret (- 1)) | Some ip \<Rightarrow> bnd new_fd (\<lambda>r. open_file r ip omode)))))"

text \<open>The end of \<open>sys_mkdir\<close> and \<open>sys_mknod\<close>, which create an inode and keep no reference to it.\<close>

definition drop_created :: "nat option \<Rightarrow> (int, 'b) fop" where
  "drop_created r = (case r of None \<Rightarrow> seq end_op (ret (- 1)) | Some ip \<Rightarrow> seq (iunlockput ip) (seq end_op (ret 0)))"

definition sys_mkdir :: "(int, 'b) fop" where
  "sys_mkdir = seq begin_op (bnd (argstr 0) (\<lambda>p. bnd (case p of None \<Rightarrow> ret None | Some path \<Rightarrow> create path T_DIR 0 0) drop_created))"

definition sys_mknod :: "(int, 'b) fop" where
  "sys_mknod = seq begin_op (bnd (argstr 0) (\<lambda>p. bnd (case p of None \<Rightarrow> ret None | Some path \<Rightarrow>
     bnd (argint 1) (\<lambda>a. case a of None \<Rightarrow> ret None | Some major \<Rightarrow>
     bnd (argint 2) (\<lambda>b. case b of None \<Rightarrow> ret None | Some minor \<Rightarrow> create path T_DEV (ucast major) (ucast minor)))) drop_created))"

definition sys_chdir :: "(int, 'b) fop" where
  "sys_chdir = bnd curproc (\<lambda>c. seq begin_op (bnd (argstr 0) (\<lambda>p. bnd (case p of None \<Rightarrow> ret None | Some path \<Rightarrow> namei path) (\<lambda>r. case r of
     None \<Rightarrow> seq end_op (ret (- 1))
   | Some ip \<Rightarrow> seq (ilock (Some ip)) (bnd (gets (\<lambda>s. i_type (iget_inode ip s))) (\<lambda>ty.
       if ty \<noteq> T_DIR then seq (iunlockput ip) (seq end_op (ret (- 1)))
       else seq (iunlock (Some ip)) (bnd (gets (\<lambda>s. p_cwd (pget c s))) (\<lambda>d. bnd (deref d) (\<lambda>d. seq (iput d) (seq end_op
         (seq (modify (pset c (\<lambda>p. p\<lparr>p_cwd := Some ip\<rparr>))) (ret 0))))))))))))"

text \<open>The argument vector of \<open>exec\<close>, \<open>k\<close> slots of \<open>argv\<close> left.\<close>

fun fetch_argv :: "uint \<Rightarrow> nat \<Rightarrow> nat \<Rightarrow> (bytes list option, 'b) mop" where
  "fetch_argv uargv i 0 = ret None"
| "fetch_argv uargv i (Suc k) = bnd (fetchint (uargv + 4 * of_nat i)) (\<lambda>r. case r of None \<Rightarrow> ret None | Some uarg \<Rightarrow>
     if uarg = 0 then ret (Some []) else bnd (fetchstr uarg) (\<lambda>r. case r of None \<Rightarrow> ret None | Some a \<Rightarrow>
       bnd (fetch_argv uargv (Suc i) k) (\<lambda>r. ret (map_option (\<lambda>as. a # as) r))))"

definition sys_exec :: "uint \<Rightarrow> (int, 'b) fop" where
  "sys_exec kd = orfail (argstr 0) (\<lambda>path. orfail (argint 1) (\<lambda>uargv. orfail (fetch_argv uargv 0 MAXARG) (\<lambda>argv. exec kd path argv)))"

definition sys_pipe :: "(int, 'b) ftop" where
  "sys_pipe = orfail (argptr 0 8) (\<lambda>a. orfail pipealloc (\<lambda>(rf, wf). bnd (fdalloc rf) (\<lambda>fd0. case fd0 of
     None \<Rightarrow> seq (fileclose rf) (seq (fileclose wf) (ret (- 1)))
   | Some fd0 \<Rightarrow> bnd (fdalloc wf) (\<lambda>fd1. case fd1 of
       None \<Rightarrow> seq (clear_fd fd0) (seq (fileclose rf) (seq (fileclose wf) (ret (- 1))))
     | Some fd1 \<Rightarrow> seq (uwrite a (le32 (of_nat fd0))) (seq (uwrite (a + 4) (le32 (of_nat fd1))) (ret 0))))))"

subsection \<open>Processes\<close>

definition sys_thread_create :: "uint \<Rightarrow> uint \<Rightarrow> (int, 'b) ftop" where
  "sys_thread_create forkret_a trapret_a = orfail (argint 0) (\<lambda>n. orfail (argint 1) (\<lambda>sr. orfail (argint 2) (\<lambda>a.
     thread_create forkret_a trapret_a n sr a)))"

definition sys_thread_exit :: "(int, 'b) ftop" where
  "sys_thread_exit = orfail (argint 0) (\<lambda>retval. seq (thread_exit retval) (ret 0))"

definition sys_thread_join :: "(int, 'b) mop" where
  "sys_thread_join = orfail (argint 0) (\<lambda>thread. orfail (argint 1) (\<lambda>retval. thread_join (sint thread) retval))"

definition sys_getlev :: "(int, 'b) kop" where
  "sys_getlev = cur p_priority"

definition sys_yield :: "(int, 'b) kop" where
  "sys_yield = bnd (gets (\<lambda>s. yield_i s + 1)) (\<lambda>i. seq (modify (\<lambda>s. s\<lparr>yield_i := i\<rparr>))
     (seq (whenM (i mod 20 = 0) (seq (modify (\<lambda>s. s\<lparr>MLFQ_ticks := MLFQ_ticks s + 1\<rparr>))
        (bnd curproc (\<lambda>c. modify (pset c (\<lambda>p. p\<lparr>p_pticks := p_pticks p + 1, p_ptotalticks := p_ptotalticks p + 1\<rparr>))))))
     (seq yield (ret 0))))"

definition sys_fork :: "uint \<Rightarrow> uint \<Rightarrow> uint \<Rightarrow> (int, 'b) ftop" where
  "sys_fork kd forkret_a trapret_a = fork kd forkret_a trapret_a"

definition sys_exit :: "(int, 'b) ftop" where
  "sys_exit = seq exit (ret 0)"

definition sys_wait :: "(int, 'b) mop" where
  "sys_wait = wait"

definition sys_kill :: "(int, 'b) mop" where
  "sys_kill = orfail (argint 0) (\<lambda>pid. kill (sint pid))"

definition sys_getpid :: "(int, 'b) kop" where
  "sys_getpid = cur p_pid"

definition sys_sbrk :: "(int, 'b) mop" where
  "sys_sbrk = orfail (argint 0) (\<lambda>n. bnd (cur p_sz) (\<lambda>addr. bnd (growproc (sint n)) (\<lambda>e. ret (if e < 0 then - 1 else sint addr))))"

text \<open>The comparison of \<open>sys_sleep\<close> is one of unsigned numbers, because \<open>ticks\<close> is.\<close>

definition sleep_loop :: "uint \<Rightarrow> uint \<Rightarrow> (int, 'b) kop" where
  "sleep_loop n ticks0 = bnd (gets ticks) (\<lambda>t. if t - ticks0 < n
     then bnd (cur p_killed) (\<lambda>k. if k then seq (release L_tickslock) (ret (- 1)) else seq (sleep ChanTicks (Some L_tickslock)) (ret 0))
     else seq (release L_tickslock) (ret 0))"

definition sys_sleep :: "(int, 'b) mop" where
  "sys_sleep = orfail (argint 0) (\<lambda>n. seq (acquire L_tickslock) (bnd (gets ticks) (\<lambda>ticks0. sleep_loop n ticks0)))"

definition sys_sleep_wake :: "uint \<Rightarrow> uint \<Rightarrow> (int, 'b) kop" where
  "sys_sleep_wake n ticks0 = bnd curproc (\<lambda>c. seq (sleep_resume L_tickslock c) (sleep_loop n ticks0))"

definition sys_uptime :: "(int, 'b) kop" where
  "sys_uptime = seq (acquire L_tickslock) (bnd (gets ticks) (\<lambda>xticks. seq (release L_tickslock) (ret (sint xticks))))"

definition sys_set_cpu_share :: "(int, 'b) mop" where
  "sys_set_cpu_share = orfail (argint 0) (\<lambda>share. set_cpu_share (sint share))"

subsection \<open>Dispatch\<close>

text \<open>The table of system calls from number 1 on.\<close>

definition syscalls :: "uint \<Rightarrow> uint \<Rightarrow> uint \<Rightarrow> (int, 'b) ftop list" where
  "syscalls kd fa ta = [sys_fork kd fa ta, sys_exit, sys_wait, sys_pipe, sys_read, sys_kill, sys_exec kd, sys_fstat, sys_chdir, sys_dup,
     sys_getpid, sys_sbrk, sys_sleep, sys_uptime, sys_open, sys_write, sys_mknod, sys_unlink, sys_link, sys_mkdir, sys_close, sys_getlev,
     sys_yield, sys_set_cpu_share, sys_thread_create fa ta, sys_thread_exit, sys_thread_join, sys_pwrite, sys_pread]"

definition syscall :: "uint \<Rightarrow> uint \<Rightarrow> uint \<Rightarrow> (unit, 'b) ftop" where
  "syscall kd fa ta = bnd curproc (\<lambda>c. bnd (gets (\<lambda>s. sint (tf_eax (p_tf (pget c s))))) (\<lambda>num.
     bnd (if num > 0 \<and> num < 30 then syscalls kd fa ta ! nat (num - 1) else ret (- 1)) (\<lambda>r.
     modify (pset c (\<lambda>p. p\<lparr>p_tf := (p_tf p)\<lparr>tf_eax := of_int r\<rparr>\<rparr>)))))"

definition T_SYSCALL :: uint where "T_SYSCALL = 64"
definition T_IRQ0 :: uint where "T_IRQ0 = 32"

text \<open>
  The interrupts other than the system call.  \<open>cpu0\<close> says whether this is CPU 0.  The handlers of the keyboard and the serial line
  work on the state of the console (theory Console) and are arguments; the disk kept in memory never interrupts.
\<close>

definition trap_irq :: "bool \<Rightarrow> (unit, 'b) kop \<Rightarrow> (unit, 'b) kop \<Rightarrow> trapframe \<Rightarrow> (unit, 'b) kop" where
  "trap_irq cpu0 kbdintr uartintr tf = (let n = tf_trapno tf - T_IRQ0 in
     if n = 0 then whenM cpu0 (seq (acquire L_tickslock) (seq (modify (\<lambda>s. s\<lparr>ticks := ticks s + 1\<rparr>)) (seq (wakeup ChanTicks) (release L_tickslock))))
     else if n = 1 then kbdintr
     else if n = 4 then uartintr
     else if n \<in> {7, 14, 15, 31} then ret ()
     else bnd myproc (\<lambda>p. case p of None \<Rightarrow> panic ''trap''
       | Some c \<Rightarrow> if tf_cs tf AND 3 = 0 then panic ''trap'' else modify (pset c (\<lambda>p. p\<lparr>p_killed := True\<rparr>))))"

definition exit_if_killed :: "trapframe \<Rightarrow> (unit, 'b) ftop" where
  "exit_if_killed tf = bnd myproc (\<lambda>p. case p of None \<Rightarrow> ret ()
     | Some c \<Rightarrow> bnd (gets (\<lambda>s. p_killed (pget c s))) (\<lambda>k. whenM (k \<and> tf_cs tf AND 3 = 3) exit))"

definition trap :: "uint \<Rightarrow> uint \<Rightarrow> uint \<Rightarrow> bool \<Rightarrow> (unit, 'b filest_ext pipest_ext fsst_ext logst_ext biost_ext slst_ext kmemst_ext) kop \<Rightarrow>
    (unit, 'b filest_ext pipest_ext fsst_ext logst_ext biost_ext slst_ext kmemst_ext) kop \<Rightarrow> trapframe \<Rightarrow> (unit, 'b) ftop" where
  "trap kd fa ta cpu0 kbdintr uartintr tf = (if tf_trapno tf = T_SYSCALL
     then bnd curproc (\<lambda>c. bnd (cur p_killed) (\<lambda>k. seq (whenM k exit) (seq (modify (pset c (\<lambda>p. p\<lparr>p_tf := tf\<rparr>)))
       (seq (syscall kd fa ta) (bnd (cur p_killed) (\<lambda>k. whenM k exit))))))
     else seq (trap_irq cpu0 kbdintr uartintr tf) (seq (exit_if_killed tf)
       (seq (bnd myproc (\<lambda>p. case p of None \<Rightarrow> ret () | Some c \<Rightarrow> bnd (gets (\<lambda>s. p_state (pget c s))) (\<lambda>st.
          whenM (st = RUNNING \<and> tf_trapno tf = T_IRQ0) timer_tick)))
       (exit_if_killed tf))))"

text \<open>The rest of \<open>trap\<close> once a process that was preempted runs again.\<close>

definition trap_resume :: "trapframe \<Rightarrow> (unit, 'b) ftop" where
  "trap_resume tf = seq yield_resume (exit_if_killed tf)"

subsection \<open>User pointers\<close>

lemma cur_eq [simp]: "c_proc s = Some c \<Longrightarrow> cur f s = Ok (f (pget c s)) s"
  by (simp add: cur_def)

lemma bnd_cur [simp]: "c_proc s = Some c \<Longrightarrow> bnd (cur f) k s = k (f (pget c s)) s"
  by (simp add: bnd_Ok)

lemma uload_Ok: "uload va s = Ok b t \<longleftrightarrow> t = s \<and> (\<exists>a. utrans va False s = Some a \<and> b = mem s a)"
  by (auto simp: uload_def split: option.splits)

lemma uread_Ok: "uread va n s = Ok b t \<Longrightarrow> t = s \<and> length b = n"
  by (induction n arbitrary: va b) (fastforce simp: bnd_def uload_Ok split: res.splits)+

lemma no_wrap:
  assumes "(a :: uint) < sz" "sz \<le> KERNBASE" "n < 2 ^ 31" "a + of_nat n \<le> sz"
  shows "unat a + n \<le> unat sz"
proof -
  have b: "unat a < unat sz" "unat sz \<le> 2 ^ 31" using assms(1,2) by (simp_all add: word_less_nat_alt word_le_nat_alt KERNBASE_def)
  have n: "unat (of_nat n :: uint) = n" using assms(3) by (simp add: unat_of_nat take_bit_nat_eq_self)
  then have "unat (a + of_nat n) = unat a + n" using b assms(3) by (subst unat_add_lem[THEN iffD1]) simp_all
  then show ?thesis using assms(4) by (simp add: word_le_nat_alt)
qed

lemma argint_Ok: "c_proc s = Some c \<Longrightarrow> argint n s = Ok r t \<Longrightarrow> t = s"
  by (auto simp: argint_def fetchint_def bnd_def split: if_splits res.splits dest: uread_Ok)


text \<open>The bytes a process sees at an address.\<close>

definition ubytes :: "'b kmemst_scheme \<Rightarrow> uint \<Rightarrow> bytes \<Rightarrow> bool" where
  "ubytes s a b \<longleftrightarrow> (\<forall>k < length b. map_option (mem s) (utrans (a + of_nat k) False s) = Some (b ! k))"

lemma ubytes_Cons: "ubytes s a (x # b) \<longleftrightarrow> map_option (mem s) (utrans a False s) = Some x \<and> ubytes s (a + 1) b"
  by (auto simp: ubytes_def less_Suc_eq_0_disj add.assoc)

lemma fetchstr_loop_Some:
  "fetchstr_loop a n s = Ok (Some x) t \<Longrightarrow> t = s \<and> 0 \<notin> set x \<and> length x < n \<and> ubytes s a (x @ [0])"
proof (induction n arbitrary: a x)
  case (Suc n)
  from Suc.prems obtain c u where c: "uload a s = Ok c u" by (cases "uload a s") (simp_all add: bnd_def)
  then have u: "u = s" "map_option (mem s) (utrans a False s) = Some c" by (auto simp: uload_Ok)
  show ?case
  proof (cases "c = 0")
    case True
    then show ?thesis using Suc.prems c u by (auto simp: bnd_Ok ubytes_def)
  next
    case False
    then obtain y where y: "fetchstr_loop (a + 1) n s = Ok (Some y) t" "x = c # y"
      using Suc.prems c u by (cases "fetchstr_loop (a + 1) n s") (auto simp: bnd_def)
    then show ?thesis using Suc.IH[OF y(1)] u(2) False by (simp add: ubytes_Cons)
  qed
qed simp

text \<open>
  Claim C37. A string that \<open>argstr\<close> accepts is what user memory holds at an address from which the string and its terminating NUL lie below
  the size of the process; it contains no other NUL, and the state is not changed.
\<close>

theorem argstr_in_bounds:
  assumes "c_proc s = Some c" "argstr n s = Ok (Some x) t"
  shows "t = s \<and> 0 \<notin> set x \<and> (\<exists>a. unat a + length x < unat (p_sz (pget c s)) \<and> ubytes s a (x @ [0]))"
proof -
  obtain r u where r: "argint n s = Ok r u" using assms(2) by (cases "argint n s") (simp_all add: argstr_def bnd_def)
  then have u: "u = s" using argint_Ok[OF assms(1)] by blast
  obtain a where a: "fetchstr a s = Ok (Some x) t" using assms(2) r u by (auto simp: argstr_def bnd_Ok split: option.splits)
  then have f: "fetchstr_loop a (unat (p_sz (pget c s)) - unat a) s = Ok (Some x) t" using assms(1) by (auto simp: fetchstr_def split: if_splits)
  show ?thesis using fetchstr_loop_Some[OF f] by (auto intro!: exI[of _ a])
qed

subsection \<open>The descriptors of a process as an allocator\<close>

definition cur_files :: "'b kcore_scheme \<Rightarrow> nat option list" where
  "cur_files s = (case c_proc s of None \<Rightarrow> [] | Some c \<Rightarrow> p_ofile (pget c s))"

definition fds_ok :: "'b kcore_scheme \<Rightarrow> bool" where
  "fds_ok s \<longleftrightarrow> (case c_proc s of None \<Rightarrow> False | Some c \<Rightarrow> c < length (ptable s)) \<and> length (cur_files s) = NOFILE"

definition free_fds :: "'b kcore_scheme \<Rightarrow> nat set" where
  "free_fds s = {fd. fd < NOFILE \<and> cur_files s ! fd = None}"

definition open_fd :: "nat \<Rightarrow> 'b kcore_scheme \<Rightarrow> bool" where
  "open_fd fd s \<longleftrightarrow> fd < NOFILE"

lemma set_fd_files:
  assumes "fds_ok s" "c_proc s = Some c"
  shows "cur_files (pset c (\<lambda>p. p\<lparr>p_ofile := (p_ofile p)[fd := x]\<rparr>) s) = (cur_files s)[fd := x]"
    "fds_ok (pset c (\<lambda>p. p\<lparr>p_ofile := (p_ofile p)[fd := x]\<rparr>) s)"
  using assms by (auto simp: cur_files_def fds_ok_def pget_def)

lemma fdalloc_eq:
  assumes "fds_ok s" "c_proc s = Some c"
  shows "fdalloc f s = (case find_index (\<lambda>x. x = None) (cur_files s) of None \<Rightarrow> Ok None s
    | Some fd \<Rightarrow> Ok (Some fd) (pset c (\<lambda>p. p\<lparr>p_ofile := (p_ofile p)[fd := Some f]\<rparr>) s))"
  using assms by (simp add: fdalloc_def fds_ok_def cur_files_def split: option.split)

lemma clear_fd_eq: "c_proc s = Some c \<Longrightarrow> clear_fd fd s = Ok () (pset c (\<lambda>p. p\<lparr>p_ofile := (p_ofile p)[fd := None]\<rparr>) s)"
  by (simp add: clear_fd_def)

lemma fds_okE:
  assumes "fds_ok s"
  obtains c where "c_proc s = Some c" "c < length (ptable s)" "length (cur_files s) = NOFILE"
  using assms by (auto simp: fds_ok_def split: option.splits)

interpretation fds: pool fds_ok free_fds "fdalloc f" clear_fd open_fd for f
proof
  fix s :: "'a kcore_scheme" assume s: "fds_ok s"
  then obtain c where c: "c_proc s = Some c" "c < length (ptable s)" "length (cur_files s) = NOFILE" by (rule fds_okE)
  show "finite (free_fds s)" by (simp add: free_fds_def)
  show "fdalloc f s = Ok None s" if "free_fds s = {}"
  proof (cases "find_index (\<lambda>x. x = None) (cur_files s)")
    case (Some k)
    then show ?thesis using that find_index_SomeD[OF Some] c(3) by (auto simp: free_fds_def)
  qed (simp add: fdalloc_eq[OF s c(1)])
  show "\<exists>fd s'. fdalloc f s = Ok (Some fd) s' \<and> fds_ok s' \<and> fd \<in> free_fds s \<and> free_fds s' = free_fds s - {fd} \<and> open_fd fd s'"
    if "free_fds s \<noteq> {}"
  proof (cases "find_index (\<lambda>x. x = None) (cur_files s)")
    case None
    then have "cur_files s ! fd \<noteq> None" if "fd < NOFILE" for fd using that c(3) nth_mem[of fd "cur_files s"] by (auto simp: find_index_None)
    then show ?thesis using that by (auto simp: free_fds_def)
  next
    case (Some k)
    note k = find_index_SomeD[OF Some]
    show ?thesis using k c(3) set_fd_files[OF s c(1), of k "Some f"]
      by (auto simp: fdalloc_eq[OF s c(1)] Some free_fds_def open_fd_def nth_list_update)
  qed
  show "\<exists>s'. clear_fd fd s = Ok () s' \<and> fds_ok s' \<and> free_fds s' = insert fd (free_fds s)" if "open_fd fd s" "fd \<notin> free_fds s" for fd
    using set_fd_files[OF s c(1), of fd None] that c(3) by (auto simp: clear_fd_eq[OF c(1)] open_fd_def free_fds_def nth_list_update)
qed

lemma fdalloc_distinct:
  "fds_ok s \<Longrightarrow> \<exists>fs s'. alloc_many (fdalloc f) n s = Ok fs s' \<and> distinct fs \<and> set fs \<subseteq> free_fds s \<and> length fs = min n (card (free_fds s))"
  using fds.alloc_many_distinct[of s f n] by blast


subsection \<open>Examples\<close>

text \<open>A process of one page whose stack pointer is 0x100; every byte of memory is 7, except for the argument words at 0x104 and 0x108.\<close>

definition sysmem :: mem where
  "sysmem = (\<lambda>_. 7)(0x87070104 := 0, 0x87070105 := 2, 0x87070106 := 0, 0x87070107 := 0, 0x87070202 := 0)"

definition sys0 :: kmemst where
  "sys0 = kmem0\<lparr>mem := sysmem, c_proc := Some 0, cr3 := 0,
     ptable := (replicate NPROC proc0)[0 := proc0\<lparr>p_sz := 0x1000, p_tf := user_frame\<lparr>tf_esp := 0x100\<rparr>\<rparr>]\<rparr>"

lemma sys0_ok: "c_proc sys0 = Some 0" "p_sz (pget 0 sys0) = 0x1000" "tf_esp (p_tf (pget 0 sys0)) = 0x100" "mem sys0 = sysmem" "cr3 sys0 = 0"
  by (simp_all add: sys0_def pget_def NPROC_def)

lemma sysmem_tables: "load32 0x80000000 sysmem = 0x07070707" "load32 0x87070000 sysmem = 0x07070707"
  by (simp_all add: load32_def sysmem_def un32_def)

lemma sys0_trans: "a < 0x1000 \<Longrightarrow> utrans a False sys0 = Some (0x87070000 + (a AND 0xFFF))"
proof -
  assume "a < 0x1000"
  then have "drop_bit 12 a = 0" "drop_bit 22 a = 0" by (simp_all add: word_less_nat_alt word_unat_eq_iff unsigned_drop_bit_eq drop_bit_eq_div unat_div)
  then show ?thesis by (simp add: utrans_def sys0_ok PDX_def PTX_def P2V_def KERNBASE_def sysmem_tables PTE_P_def PTE_ADDR_def)
qed

lemma sys0_load: "uload a sys0 = Ok (sysmem (0x87070000 + (a AND 0xFFF))) sys0" if "a < 0x1000"
  using sys0_trans[OF that] by (simp add: uload_def sys0_ok)

lemma sys0_argint: "argint 0 sys0 = Ok (Some 0x200) sys0"
proof -
  have "uread 0x104 (Suc (Suc (Suc (Suc 0)))) sys0 = Ok [0, 2, 0, 0] sys0" by (simp add: bnd_Ok sys0_load sysmem_def)
  moreover have "Suc (Suc (Suc (Suc 0))) = 4" by simp
  ultimately have r: "uread 0x104 4 sys0 = Ok [0, 2, 0, 0] sys0" by (simp only:)
  show ?thesis by (simp add: argint_def fetchint_def sys0_ok bnd_Ok r un32_def)
qed


theorem argstr_in_bounds_witness:
  "argstr 0 sys0 = Ok (Some [7, 7]) sys0 \<and> (\<exists>a. unat a + 2 < unat (p_sz (pget 0 sys0)) \<and> ubytes sys0 a ([7, 7] @ [0]))"
proof -
  have "fetchstr_loop 0x200 (Suc (Suc (Suc n))) sys0 = Ok (Some [7, 7]) sys0" for n
    by (simp add: bnd_Ok sys0_load sysmem_def)
  from this[of "0xDFD"] have p: "argstr 0 sys0 = Ok (Some [7, 7]) sys0"
    by (simp add: argstr_def fetchstr_def bnd_Ok sys0_argint sys0_ok)
  then show ?thesis using argstr_in_bounds[OF sys0_ok(1) p] by simp
qed


end
