(* ===== verification/Typed.thy ===== *)
theory Typed
  imports Syscall
begin

text \<open>
  The shape of the process table (theory Proc) is kept by every layer of the kernel: sleep locks, buffers, log, file system, pipes, files,
  \<open>exec\<close>, the system calls and traps.
\<close>

lemma typed_upd: "(\<And>s. ptable (f s) = ptable s) \<Longrightarrow> (\<And>s. ttable (f s) = ttable s) \<Longrightarrow> preserves table_typed (modify f)"
  by (intro pres_modify) (simp add: table_typed_def)

lemma pres_fdtype [pres]:
  "preserves P a \<Longrightarrow> preserves P b \<Longrightarrow> preserves P c \<Longrightarrow> preserves P (case t of FD_NONE \<Rightarrow> a | FD_PIPE \<Rightarrow> b | FD_INODE \<Rightarrow> c)"
  by (cases t) simp_all

lemma pres_orfail [pres]: "preserves P m \<Longrightarrow> (\<And>a. preserves P (f a)) \<Longrightarrow> preserves P (orfail m f)"
  unfolding orfail_def by (intro pres)

subsection \<open>Buffers and the log\<close>

lemma typed_upd_bio [pres]:
  "preserves table_typed (modify (sl_set l x))" "preserves table_typed (modify (bset b f))" "preserves table_typed (modify (\<lambda>s. bset b (g s) s))"
  "preserves table_typed (modify (unlink_buf b))" "preserves table_typed (modify (link_front b))"
  "preserves table_typed (modify (\<lambda>s. s\<lparr>disk := d s, wtrace := w s\<rparr>))"
  by (rule typed_upd; simp add: sl_set_def bset_def unlink_buf_def link_front_def Let_def)+

lemma typed_upd_log [pres]:
  "preserves table_typed (modify (\<lambda>s. s\<lparr>lh_n := n s\<rparr>))" "preserves table_typed (modify (\<lambda>s. s\<lparr>lh_block := bl s\<rparr>))"
  "preserves table_typed (modify (\<lambda>s. s\<lparr>lg_outstanding := o' s\<rparr>))" "preserves table_typed (modify (\<lambda>s. s\<lparr>lg_committing := c s\<rparr>))"
  "preserves table_typed (modify (\<lambda>s. if b s then s\<lparr>lh_n := n s\<rparr> else s))"
  "preserves table_typed (modify (\<lambda>s. s\<lparr>lg_start := st, lg_size := sz, lg_dev := dev\<rparr>))"
  by (rule typed_upd; simp)+

lemma typed_wakeup [pres]: "preserves table_typed (wakeup ch)" "preserves table_typed yield" "preserves table_typed (kill pid)"
  unfolding wakeup_def yield_def kill_def by (intro pres; auto simp: typed_simps)+

lemma typed_sleeplock [pres]: "preserves table_typed (acquiresleep l)" "preserves table_typed (releasesleep l)" "preserves table_typed (holdingsleep l)"
  unfolding acquiresleep_def acquiresleep_loop_def releasesleep_def holdingsleep_def by (intro pres)+

lemma typed_iderw [pres]: "preserves table_typed (iderw b)"
  unfolding iderw_def by (intro pres)

lemma typed_bget [pres]: "preserves table_typed (bget dev n)"
  unfolding bget_def by (intro pres)

lemma typed_bio [pres]: "preserves table_typed (bread dev n)" "preserves table_typed (bwrite b)" "preserves table_typed (brelse b)"
  "preserves table_typed (bdata b)" "preserves table_typed (set_bdata b d)"
  unfolding bread_def bwrite_def brelse_def bdata_def set_bdata_def by (intro pres)+

lemma typed_log_blocks [pres]: "preserves table_typed (readsb dev)" "preserves table_typed (install_block k)" "preserves table_typed (log_block k)"
  "preserves table_typed write_head"
  unfolding readsb_def install_block_def log_block_def write_head_def by (intro pres)+

lemma typed_commit [pres]: "preserves table_typed install_trans" "preserves table_typed write_log"
  unfolding install_trans_def write_log_def by (intro pres)+

lemma typed_log [pres]: "preserves table_typed commit" "preserves table_typed begin_op" "preserves table_typed (log_write b)"
  unfolding commit_def begin_op_def begin_op_loop_def log_write_def by (intro pres)+

lemma typed_end_op [pres]: "preserves table_typed end_op"
  unfolding end_op_def by (intro pres)

subsection \<open>The file system\<close>

lemma typed_upd_fs [pres]: "preserves table_typed (modify (\<lambda>s. s\<lparr>sb := q s\<rparr>))"
  by (rule typed_upd; simp)

lemma typed_bzero [pres]: "preserves table_typed (bzero dev n)" "preserves table_typed (bfree dev n)"
  unfolding bzero_def bfree_def by (intro pres)+

lemma typed_balloc_loop [pres]: "preserves table_typed (balloc_loop dev bs)"
  by (induction bs) (simp_all only: balloc_loop.simps, (intro pres; assumption?)+)

lemma typed_balloc [pres]: "preserves table_typed (balloc dev)" "preserves table_typed (iget dev n)" "preserves table_typed (iupdate i)"
  unfolding balloc_def iget_def iupdate_def by (intro pres)+

lemma typed_ialloc_loop [pres]: "preserves table_typed (ialloc_loop dev ty ks)"
  by (induction ks) (simp_all only: ialloc_loop.simps, (intro pres; assumption?)+)

lemma typed_ialloc [pres]: "preserves table_typed (ialloc dev ty)" "preserves table_typed (ilock_read i)"
  unfolding ialloc_def ilock_read_def by (intro pres)+

lemma typed_ilock [pres]: "preserves table_typed (ilock i)" "preserves table_typed (iunlock i)"
  unfolding ilock_def iunlock_def by (intro pres)+

lemma typed_slots [pres]: "preserves table_typed (addr_slot i k)" "preserves table_typed (table_slot dev a k)"
  unfolding addr_slot_def table_slot_def by (intro pres)+

lemma typed_bmap [pres]: "preserves table_typed (bmap i bn)"
  unfolding bmap_def by (intro pres)

lemma typed_free_table [pres]: "preserves table_typed (free_table k dev a)"
  by (induction k arbitrary: a) (auto intro!: pres)

lemma typed_itrunc_slot [pres]: "(\<And>d a. preserves table_typed (f d a)) \<Longrightarrow> preserves table_typed (itrunc_slot i k f)"
  unfolding itrunc_slot_def by (intro pres)

lemma typed_itrunc [pres]: "preserves table_typed (itrunc i)"
  unfolding itrunc_def by (intro pres)

lemma typed_iput_locked [pres]: "preserves table_typed (iput_locked i)"
  unfolding iput_locked_def by (intro pres)

lemma typed_iput [pres]: "preserves table_typed (iput i)"
  unfolding iput_def by (intro pres)

lemma typed_iunlockput [pres]: "preserves table_typed (iunlockput i)" "preserves table_typed (stati i)"
  unfolding iunlockput_def stati_def by (intro pres)+

lemma typed_readi_loop [pres]: "preserves table_typed (readi_loop i off n)"
proof (induction i off n rule: readi_loop.induct)
  case (1 i off n)
  show ?case by (subst readi_loop.simps) (auto simp: Let_def intro!: pres 1)
qed

lemma typed_writei_loop [pres]: "preserves table_typed (writei_loop i off src)"
proof (induction i off src rule: writei_loop.induct)
  case (1 i off src)
  show ?case by (subst writei_loop.simps) (auto simp: Let_def intro!: pres 1)
qed

lemma typed_rw [pres]: "preserves table_typed (readi i off n)" "preserves table_typed (writei i src off n)"
  unfolding readi_def writei_def by (intro pres)+

lemma typed_dir_loops [pres]: "preserves table_typed (dirlookup_loop dp name offs)" "preserves table_typed (dirfree_loop dp k offs)"
  by (induction offs) (auto intro!: pres)

lemma typed_dirlookup [pres]: "preserves table_typed (dirlookup dp name)"
  unfolding dirlookup_def by (intro pres)

lemma typed_dirlink [pres]: "preserves table_typed (dirlink dp name n)"
  unfolding dirlink_def by (intro pres)

lemma typed_namex_loop [pres]: "preserves table_typed (namex_loop par ip path)"
proof (induction par ip path rule: namex_loop.induct)
  case (1 par ip path)
  show ?case by (subst namex_loop.simps) (auto split: option.split intro!: pres 1)
qed

lemma typed_namex [pres]: "preserves table_typed (namex path par)"
  unfolding namex_def by (intro pres)

lemma typed_namei [pres]: "preserves table_typed (namei path)" "preserves table_typed (nameiparent path)"
  unfolding namei_def nameiparent_def by (intro pres)+

subsection \<open>Pipes and files\<close>

lemma typed_upd_pipe [pres]: "preserves table_typed (modify (ppset v f))" "preserves table_typed (modify (\<lambda>s. ppset v (g s) s))"
  by (rule typed_upd; simp add: ppset_def)+

lemma typed_killed [pres]: "preserves table_typed killed"
  unfolding killed_def by (intro pres)

lemma typed_pipewrite_loop [pres]: "preserves table_typed (pipewrite_loop v cs)"
  by (induction cs) (simp_all only: pipewrite_loop.simps, (intro pres; assumption?)+)

lemma typed_piperead_loop [pres]: "preserves table_typed (piperead_loop v n)"
  by (induction n) (simp_all only: piperead_loop.simps, (intro pres; assumption?)+)

lemma typed_pipe [pres]: "preserves table_typed (pipewrite v a n)" "preserves table_typed (piperead v n)" "preserves table_typed (pipeclose v w)"
  unfolding pipewrite_def pipewrite_rest_def piperead_def piperead_wait_def pipeclose_def by (intro pres)+

lemma typed_file [pres]: "preserves table_typed filealloc" "preserves table_typed (fileclose f)" "preserves table_typed (filestat f)"
  "preserves table_typed (fileread f n)" "preserves table_typed (pfileread f n off)"
  unfolding filealloc_def fileclose_def filestat_def fileread_def pfileread_def by (intro pres)+

lemma typed_filewrite_loop [pres]: "preserves table_typed (filewrite_loop f a n i)"
proof (induction f a n i rule: filewrite_loop.induct)
  case (1 f a n i)
  show ?case by (subst filewrite_loop.simps) (auto simp: Let_def intro!: pres 1)
qed

lemma typed_pfilewrite_loop [pres]: "preserves table_typed (pfilewrite_loop f a n off i)"
proof (induction f a n off i rule: pfilewrite_loop.induct)
  case (1 f a n off i)
  show ?case by (subst pfilewrite_loop.simps) (auto simp: Let_def intro!: pres 1)
qed

lemma typed_filewrite [pres]: "preserves table_typed (filewrite f a n)" "preserves table_typed (pfilewrite f a n off)" "preserves table_typed (pipe_bad x y)"
  unfolding filewrite_def pfilewrite_def pipe_bad_def by (intro pres)+

lemma typed_pipealloc [pres]: "preserves table_typed pipealloc"
  unfolding pipealloc_def by (intro pres)

subsection \<open>The end of processes, and \<open>exec\<close>\<close>

lemma typed_close [pres]: "preserves table_typed (close_files j)" "preserves table_typed (drop_cwd j)"
  unfolding close_files_def drop_cwd_def by (intro pres; auto simp: typed_simps)+

lemma typed_exit [pres]: "preserves table_typed exit" "preserves table_typed (thread_exit rv)"
  unfolding exit_def thread_exit_def exit_threads_def adopt_def by (intro pres; auto simp: typed_simps)+

lemma typed_loaduvm_loop [pres]: "preserves table_typed (loaduvm_loop d a ip off n ks)"
  by (induction ks) (auto simp: Let_def intro!: pres)

lemma typed_uvm2 [pres]: "preserves table_typed (loaduvm d a ip off n)" "preserves table_typed (clearpteu d a)"
  unfolding loaduvm_def clearpteu_def by (intro pres)+

lemma typed_exec_load [pres]: "preserves table_typed (exec_load d ip off sz k)"
  by (induction k arbitrary: off sz) (auto simp: Let_def intro!: pres)

lemma typed_exec_args [pres]: "preserves table_typed (exec_args d sp us as)"
  by (induction as arbitrary: sp us) (auto simp: Let_def intro!: pres)

lemma typed_exec_stacks [pres]: "preserves table_typed (exec_stacks d sz k)"
  by (induction k arbitrary: sz) (auto intro!: pres)

lemma typed_exec_threads [pres]: "preserves table_typed (exec_thread c)" "preserves table_typed (exec_zombies c)"
  unfolding exec_thread_def exec_zombies_def by (intro pres; auto simp: typed_simps)+

lemma typed_exec_commit [pres]: "preserves table_typed (exec_commit c d sz sp entry)"
  unfolding exec_commit_def by (intro pres; auto simp: typed_simps)

lemma typed_exec_stack [pres]: "preserves table_typed (exec_stack c d sz path argv entry)"
  unfolding exec_stack_def Let_def by (intro pres; auto simp: typed_simps)

lemma typed_exec [pres]: "preserves table_typed (exec kd path argv)"
  unfolding exec_def Let_def by (intro pres)

subsection \<open>System calls\<close>

lemma typed_uread [pres]: "preserves table_typed (uload va)" "preserves table_typed (uread va n)"
proof -
  show l: "preserves table_typed (uload va)" for va unfolding uload_def by (intro pres)
  show "preserves table_typed (uread va n)" by (induction n arbitrary: va) (auto intro!: pres l)
qed

lemma typed_cur [pres]: "preserves table_typed (cur f)"
  unfolding cur_def by (intro pres)

lemma typed_fetchstr_loop [pres]: "preserves table_typed (fetchstr_loop a n)"
  by (induction n arbitrary: a) (auto intro!: pres)

lemma typed_fetch [pres]: "preserves table_typed (fetchint a)" "preserves table_typed (fetchstr a)"
  unfolding fetchint_def fetchstr_def by (intro pres)+

lemma typed_argint [pres]: "preserves table_typed (argint n)"
  unfolding argint_def by (intro pres)

lemma typed_args [pres]: "preserves table_typed (argptr n len)" "preserves table_typed (argstr n)" "preserves table_typed (argfd n)"
  "preserves table_typed (fdalloc f)" "preserves table_typed (clear_fd fd)" "preserves table_typed (put_stat a st)"
  unfolding argptr_def argstr_def argfd_def fdalloc_def clear_fd_def put_stat_def by (intro pres; auto simp: typed_simps)+

lemma typed_arg_buf [pres]: "(\<And>f p n. preserves table_typed (k f p n)) \<Longrightarrow> preserves table_typed (arg_buf k)"
  unfolding arg_buf_def by (intro pres)

lemma typed_files_calls [pres]: "preserves table_typed sys_dup" "preserves table_typed sys_read" "preserves table_typed sys_write"
  "preserves table_typed sys_pwrite" "preserves table_typed sys_pread" "preserves table_typed sys_close" "preserves table_typed sys_fstat"
  "preserves table_typed sys_pipe"
  unfolding sys_dup_def sys_read_def sys_write_def sys_pwrite_def sys_pread_def sys_close_def sys_fstat_def sys_pipe_def by (intro pres)+

lemma typed_add_nlink [pres]: "preserves table_typed (add_nlink ip d)"
  unfolding add_nlink_def by (intro pres)

lemma typed_link [pres]: "preserves table_typed sys_link"
  unfolding sys_link_def link_bad_def by (intro pres)

lemma typed_isdirempty_loop [pres]: "preserves table_typed (isdirempty_loop dp offs)"
  by (induction offs) (auto intro!: pres)

lemma typed_unlink [pres]: "preserves table_typed sys_unlink"
  unfolding sys_unlink_def unlink_at_def isdirempty_def Let_def by (intro pres)

lemma typed_create [pres]: "preserves table_typed (create path ty ma mi)"
  unfolding create_def create_dots_def by (intro pres)

lemma typed_open [pres]: "preserves table_typed (open_inode path omode)" "preserves table_typed new_fd" "preserves table_typed (open_file r ip omode)"
  "preserves table_typed (drop_created r')"
  unfolding open_inode_def new_fd_def open_file_def drop_created_def by (intro pres)+

lemma typed_fetch_argv [pres]: "preserves table_typed (fetch_argv a i k)"
  by (induction k arbitrary: i) (auto intro!: pres)

lemma typed_path_calls [pres]: "preserves table_typed sys_open" "preserves table_typed sys_mkdir" "preserves table_typed sys_mknod"
  "preserves table_typed sys_chdir" "preserves table_typed (sys_exec kd)"
  unfolding sys_open_def sys_mkdir_def sys_mknod_def sys_chdir_def sys_exec_def by (intro pres; auto simp: typed_simps)+

lemma typed_upd_sched [pres]: "preserves table_typed (modify (\<lambda>s. s\<lparr>leftShare := l s\<rparr>))" "preserves table_typed (modify (\<lambda>s. s\<lparr>MLFQStrideVal := v s\<rparr>))"
  "preserves table_typed (modify (\<lambda>s. s\<lparr>MLFQ_ticks := t s\<rparr>))" "preserves table_typed (modify (\<lambda>s. s\<lparr>yield_i := i s\<rparr>))"
  "preserves table_typed (modify (\<lambda>s. s\<lparr>ticks := t s\<rparr>))"
  by (rule typed_upd; simp)+

lemma typed_set_cpu_share [pres]: "preserves table_typed (set_cpu_share sh)"
  unfolding set_cpu_share_def cpu_share_def charge_share_def by (intro pres; auto simp: typed_simps Let_def)

lemma typed_proc_calls [pres]: "preserves table_typed (sys_thread_create fa ta)" "preserves table_typed sys_thread_exit" "preserves table_typed sys_thread_join"
  "preserves table_typed sys_getlev" "preserves table_typed sys_yield" "preserves table_typed (sys_fork kd fa ta)" "preserves table_typed sys_exit"
  "preserves table_typed sys_wait" "preserves table_typed sys_kill" "preserves table_typed sys_getpid" "preserves table_typed sys_sbrk"
  "preserves table_typed sys_uptime" "preserves table_typed sys_set_cpu_share"
  unfolding sys_thread_create_def sys_thread_exit_def sys_thread_join_def sys_getlev_def sys_yield_def sys_fork_def sys_exit_def sys_wait_def sys_kill_def
    sys_getpid_def sys_sbrk_def sys_uptime_def sys_set_cpu_share_def by (intro pres; auto simp: typed_simps)+

lemma typed_sys_sleep [pres]: "preserves table_typed sys_sleep" "preserves table_typed (sys_sleep_wake n t)"
  unfolding sys_sleep_def sys_sleep_wake_def sleep_loop_def by (intro pres)+

lemma typed_syscalls: "m \<in> set (syscalls kd fa ta) \<Longrightarrow> preserves table_typed m"
  unfolding syscalls_def by (auto intro!: pres)

lemma typed_syscall [pres]: "preserves table_typed (syscall kd fa ta :: (unit, 'a) ftop)"
proof -
  have h: "preserves table_typed (if num > 0 \<and> num < 30 then syscalls kd fa ta ! nat (num - 1) else ret (- 1) :: (int, 'a) ftop)" for num
  proof (cases "num > 0 \<and> num < 30")
    case True
    then have "nat (num - 1) < length (syscalls kd fa ta :: (int, 'a) ftop list)" by (simp add: syscalls_def nat_less_iff)
    from typed_syscalls[OF nth_mem[OF this]] show ?thesis using True by simp
  qed (auto intro: pres)
  show ?thesis unfolding syscall_def by (intro pres_bnd h typed_pset pres_basic typed_core) (auto simp: typed_simps)
qed

lemma typed_timer [pres]: "preserves table_typed timer_tick"
  unfolding timer_tick_def MLFQ_Check_def by (intro pres; auto simp: typed_simps)

lemma typed_exit_if_killed [pres]: "preserves table_typed (exit_if_killed tf)"
  unfolding exit_if_killed_def by (intro pres)


definition typed0 :: filest where
  "typed0 = filest0\<lparr>ptable := replicate NPROC (proc0\<lparr>p_name := replicate 16 0\<rparr>), ttable := replicate NPROC \<lparr>t_index = 0, t_state = UNUSED\<rparr>\<rparr>"


subsection \<open>Killed processes\<close>

text \<open>Operations that never return.\<close>

definition never :: "('s \<Rightarrow> ('a, 's) res) \<Rightarrow> bool" where
  "never m \<longleftrightarrow> (\<forall>s a t. m s \<noteq> Ok a t)"

lemma never_bnd: "(\<And>a. never (f a)) \<Longrightarrow> never (bnd m f)"
  by (auto simp: never_def bnd_def split: res.splits)

lemma never_seq: "never k \<Longrightarrow> never (seq m k)"
  unfolding seq_def by (rule never_bnd)

lemma never_panic: "never (panic e)"
  by (simp add: never_def panic_def)

lemma never_if: "never m \<Longrightarrow> never k \<Longrightarrow> never (if b then m else k)"
  by simp

lemma exit_never: "never exit"
  unfolding exit_def exit_finish_def by (intro never_bnd never_seq never_if never_panic)

lemma whenM_exit: "whenM b exit s = Ok a t \<Longrightarrow> \<not> b \<and> t = s"
  using exit_never by (cases b) (auto simp: never_def whenM_def)

lemma exit_if_killed_Ok: "exit_if_killed tf s = Ok a t \<Longrightarrow> tf_cs tf AND 3 = 3 \<Longrightarrow> t = s \<and> (\<forall>c. c_proc s = Some c \<longrightarrow> \<not> p_killed (pget c s))"
  by (auto simp: exit_if_killed_def split: option.splits dest!: whenM_exit)



end
