(* ===== verification/Sh.thy ===== *)
theory Sh
  imports Prelude
begin

text \<open>
  The shell (\<open>sh.c\<close>).  A command line is a string \<open>buf\<close>; a pointer into it is a position, and the byte at the position
  \<open>length buf\<close> is the terminating NUL.  The parser is a state transformer on the current position \<open>*ps\<close> with the
  outcomes of the prelude: \<open>Panic\<close> is the shell's own \<open>panic\<close>, which prints the message and exits.  Its
  loops and mutual recursion carry a fuel argument; the outcome \<open>Hang\<close> stands for fuel that is used up, and \<open>parsecmd\<close>
  supplies an amount that is shown to be enough for every input.

  \<open>runcmd\<close> is a tree of system calls: each node is a call and a function from its results to the rest of the program.
  \<open>malloc\<close> is assumed to succeed.
\<close>

subsection \<open>Parsed commands\<close>

definition MAXARGS :: nat where "MAXARGS = 10"

definition O_RDONLY :: int where "O_RDONLY = 0"
definition O_WRONLY :: int where "O_WRONLY = 1"
definition O_RDWR :: int where "O_RDWR = 2"
definition O_CREATE :: int where "O_CREATE = 0x200"

text \<open>Strings are pairs of positions, \<open>argv[i]\<close> with \<open>eargv[i]\<close> and \<open>file\<close> with \<open>efile\<close>.\<close>

datatype cmd =
    EXEC "(nat \<times> nat) list"
  | REDIR cmd nat nat int nat
  | PIPE cmd cmd
  | LIST cmd cmd
  | BACK cmd

definition execcmd :: cmd where
  "execcmd = EXEC []"

definition redircmd :: "cmd \<Rightarrow> nat \<Rightarrow> nat \<Rightarrow> int \<Rightarrow> nat \<Rightarrow> cmd" where
  "redircmd subcmd file efile mode fd = REDIR subcmd file efile mode fd"

definition pipecmd :: "cmd \<Rightarrow> cmd \<Rightarrow> cmd" where
  "pipecmd left right = PIPE left right"

definition listcmd :: "cmd \<Rightarrow> cmd \<Rightarrow> cmd" where
  "listcmd left right = LIST left right"

definition backcmd :: "cmd \<Rightarrow> cmd" where
  "backcmd subcmd = BACK subcmd"

text \<open>
  \<open>parseexec\<close> goes on filling in the \<open>argv\<close> of its \<open>execcmd\<close> after redirections have been wrapped around it: the
  assignment through the pointer \<open>cmd\<close> reaches the innermost command.
\<close>

fun add_arg :: "nat \<Rightarrow> nat \<Rightarrow> cmd \<Rightarrow> cmd" where
  "add_arg q eq (EXEC as) = EXEC (as @ [(q, eq)])"
| "add_arg q eq (REDIR c f ef m fd) = REDIR (add_arg q eq c) f ef m fd"
| "add_arg q eq c = c"

subsection \<open>Tokens\<close>

definition whitespace :: string where
  "whitespace = [CHR '' '', CHR 0x09, CHR 0x0D, CHR 0x0A, CHR 0x0B]"

definition symbols :: string where
  "symbols = ''<|>&;()''"

definition char_at :: "string \<Rightarrow> nat \<Rightarrow> char" where
  "char_at buf i = (if i < length buf then buf ! i else CHR 0x00)"

definition skipws :: "string \<Rightarrow> nat \<Rightarrow> nat" where
  "skipws buf i = i + length (takeWhile (\<lambda>c. c \<in> set whitespace) (drop i buf))"

definition word_end :: "string \<Rightarrow> nat \<Rightarrow> nat" where
  "word_end buf i = i + length (takeWhile (\<lambda>c. c \<notin> set whitespace \<and> c \<notin> set symbols) (drop i buf))"

text \<open>The token at a position and the position behind it.\<close>

definition scan_token :: "string \<Rightarrow> nat \<Rightarrow> char \<times> nat" where
  "scan_token buf s = (let c = char_at buf s in
     if c = CHR 0x00 then (c, s)
     else if c \<in> set ''|();&<'' then (c, s + 1)
     else if c = CHR ''>'' then (if char_at buf (s + 1) = CHR ''>'' then (CHR ''+'', s + 2) else (c, s + 1))
     else (CHR ''a'', word_end buf s))"

definition gettoken :: "string \<Rightarrow> nat \<Rightarrow> (char \<times> nat \<times> nat, nat) res" where
  "gettoken buf i = (let q = skipws buf i; (tok, eq) = scan_token buf q in Ok (tok, q, eq) (skipws buf eq))"

definition peek :: "string \<Rightarrow> string \<Rightarrow> nat \<Rightarrow> (bool, nat) res" where
  "peek buf toks i = (let s = skipws buf i in
     Ok (char_at buf s \<noteq> CHR 0x00 \<and> char_at buf s \<in> set toks) s)"

subsection \<open>The parser\<close>

fun parseredirs :: "nat \<Rightarrow> string \<Rightarrow> cmd \<Rightarrow> nat \<Rightarrow> (cmd, nat) res" where
  "parseredirs 0 buf c = hang"
| "parseredirs (Suc k) buf c = bnd (peek buf ''<>'') (\<lambda>b. if \<not> b then ret c else
     bnd (gettoken buf) (\<lambda>(tok, _, _). bnd (gettoken buf) (\<lambda>(t, q, eq).
     if t \<noteq> CHR ''a'' then panic ''missing file for redirection''
     else parseredirs k buf
       (if tok = CHR ''<'' then redircmd c q eq O_RDONLY 0
        else if tok = CHR ''>'' then redircmd c q eq (O_WRONLY OR O_CREATE) 1
        else if tok = CHR ''+'' then redircmd c q eq (O_WRONLY OR O_CREATE) 1 else c))))"

text \<open>The argument loop of \<open>parseexec\<close>.\<close>

fun parseargs :: "nat \<Rightarrow> string \<Rightarrow> nat \<Rightarrow> cmd \<Rightarrow> nat \<Rightarrow> (cmd, nat) res" where
  "parseargs 0 buf argc c = hang"
| "parseargs (Suc k) buf argc c = bnd (peek buf ''|)&;'') (\<lambda>b. if b then ret c else
     bnd (gettoken buf) (\<lambda>(tok, q, eq). if tok = CHR 0x00 then ret c
     else if tok \<noteq> CHR ''a'' then panic ''syntax''
     else if argc + 1 \<ge> MAXARGS then panic ''too many args''
     else bnd (parseredirs k buf (add_arg q eq c)) (parseargs k buf (argc + 1))))"

text \<open>The loop of \<open>parseline\<close> over \<open>&\<close>.\<close>

fun parseback :: "nat \<Rightarrow> string \<Rightarrow> cmd \<Rightarrow> nat \<Rightarrow> (cmd, nat) res" where
  "parseback 0 buf c = hang"
| "parseback (Suc k) buf c = bnd (peek buf ''&'') (\<lambda>b. if \<not> b then ret c else
     seq (gettoken buf) (parseback k buf (backcmd c)))"

fun parseline :: "nat \<Rightarrow> string \<Rightarrow> nat \<Rightarrow> (cmd, nat) res"
and parsepipe :: "nat \<Rightarrow> string \<Rightarrow> nat \<Rightarrow> (cmd, nat) res"
and parseexec :: "nat \<Rightarrow> string \<Rightarrow> nat \<Rightarrow> (cmd, nat) res"
and parseblock :: "nat \<Rightarrow> string \<Rightarrow> nat \<Rightarrow> (cmd, nat) res" where
  "parseline 0 buf = hang"
| "parseline (Suc k) buf = bnd (parsepipe k buf) (\<lambda>c. bnd (parseback k buf c) (\<lambda>c.
     bnd (peek buf '';'') (\<lambda>b. if b then seq (gettoken buf) (bnd (parseline k buf) (\<lambda>d. ret (listcmd c d))) else ret c)))"
| "parsepipe 0 buf = hang"
| "parsepipe (Suc k) buf = bnd (parseexec k buf) (\<lambda>c.
     bnd (peek buf ''|'') (\<lambda>b. if b then seq (gettoken buf) (bnd (parsepipe k buf) (\<lambda>d. ret (pipecmd c d))) else ret c))"
| "parseexec 0 buf = hang"
| "parseexec (Suc k) buf = bnd (peek buf ''('') (\<lambda>b. if b then parseblock k buf else
     bnd (parseredirs k buf execcmd) (parseargs k buf 0))"
| "parseblock 0 buf = hang"
| "parseblock (Suc k) buf = bnd (peek buf ''('') (\<lambda>b. if \<not> b then panic ''parseblock'' else
     seq (gettoken buf) (bnd (parseline k buf) (\<lambda>c. bnd (peek buf '')'') (\<lambda>b.
     if \<not> b then panic ''syntax - missing )'' else seq (gettoken buf) (parseredirs k buf c)))))"

text \<open>\<open>nulterminate\<close> overwrites the byte behind every string; it returns the changed buffer, here with the final NUL.\<close>

fun nulterminate :: "cmd \<Rightarrow> string \<Rightarrow> string" where
  "nulterminate (EXEC as) b = fold (\<lambda>(q, eq) b. b[eq := CHR 0x00]) as b"
| "nulterminate (REDIR c f ef m fd) b = (nulterminate c b)[ef := CHR 0x00]"
| "nulterminate (PIPE l r) b = nulterminate r (nulterminate l b)"
| "nulterminate (LIST l r) b = nulterminate r (nulterminate l b)"
| "nulterminate (BACK c) b = nulterminate c b"

definition parse_fuel :: "string \<Rightarrow> nat" where
  "parse_fuel buf = 4 * length buf + 8"

definition parsecmd :: "string \<Rightarrow> (cmd \<times> string, nat) res" where
  "parsecmd buf = bnd (parseline (parse_fuel buf) buf) (\<lambda>c. seq (peek buf '''')
     (bnd (gets id) (\<lambda>s. if s \<noteq> length buf then panic ''syntax''
      else ret (c, nulterminate c (buf @ [CHR 0x00]))))) 0"

subsection \<open>Running commands\<close>

text \<open>System calls of the shell; the results are the returned value and, for \<open>pipe\<close>, the two descriptors.\<close>

datatype sysc =
    SClose int | SOpen string int | SDup int | SPipe | SFork | SWait | SExec string "string list"
  | SChdir string | SPrint int string | SGets nat

datatype prog = Exit | Call sysc "int \<Rightarrow> int \<Rightarrow> int \<Rightarrow> prog"

definition sh_panic :: "string \<Rightarrow> prog" where
  "sh_panic s = Call (SPrint 2 (s @ [CHR 0x0A])) (\<lambda>_ _ _. Exit)"

definition fork1 :: "(int \<Rightarrow> prog) \<Rightarrow> prog" where
  "fork1 k = Call SFork (\<lambda>pid _ _. if pid = - 1 then sh_panic ''fork'' else k pid)"

text \<open>The C string at a position of the buffer.\<close>

definition cstring :: "string \<Rightarrow> nat \<Rightarrow> string" where
  "cstring b p = takeWhile (\<lambda>c. c \<noteq> CHR 0x00) (drop p b)"

fun runcmd :: "string \<Rightarrow> cmd \<Rightarrow> prog" where
  "runcmd b (EXEC as) = (if as = [] then Exit else
     Call (SExec (cstring b (fst (hd as))) (map (\<lambda>a. cstring b (fst a)) as)) (\<lambda>_ _ _.
     Call (SPrint 2 (''exec '' @ cstring b (fst (hd as)) @ '' failed'' @ [CHR 0x0A])) (\<lambda>_ _ _. Exit)))"
| "runcmd b (REDIR c f ef m fd) = Call (SClose (int fd)) (\<lambda>_ _ _. Call (SOpen (cstring b f) m) (\<lambda>r _ _.
     if r < 0 then Call (SPrint 2 (''open '' @ cstring b f @ '' failed'' @ [CHR 0x0A])) (\<lambda>_ _ _. Exit)
     else runcmd b c))"
| "runcmd b (LIST l r) = fork1 (\<lambda>pid. if pid = 0 then runcmd b l else Call SWait (\<lambda>_ _ _. runcmd b r))"
| "runcmd b (PIPE l r) = Call SPipe (\<lambda>x p0 p1. if x < 0 then sh_panic ''pipe'' else
     fork1 (\<lambda>pid. if pid = 0 then Call (SClose 1) (\<lambda>_ _ _. Call (SDup p1) (\<lambda>_ _ _. Call (SClose p0) (\<lambda>_ _ _.
        Call (SClose p1) (\<lambda>_ _ _. runcmd b l)))) else
     fork1 (\<lambda>pid. if pid = 0 then Call (SClose 0) (\<lambda>_ _ _. Call (SDup p0) (\<lambda>_ _ _. Call (SClose p0) (\<lambda>_ _ _.
        Call (SClose p1) (\<lambda>_ _ _. runcmd b r)))) else
     Call (SClose p0) (\<lambda>_ _ _. Call (SClose p1) (\<lambda>_ _ _. Call SWait (\<lambda>_ _ _. Call SWait (\<lambda>_ _ _. Exit)))))))"
| "runcmd b (BACK c) = fork1 (\<lambda>pid. if pid = 0 then runcmd b c else Exit)"

text \<open>What the main loop does with a line that \<open>getcmd\<close> has read; the loop ends at an empty line (end of file).\<close>

definition sh_line :: "string \<Rightarrow> prog \<Rightarrow> prog" where
  "sh_line buf again = (if buf = [] then Exit
     else if take 3 buf = ''cd '' then Call (SChdir (drop 3 (butlast buf))) (\<lambda>r _ _.
       if r < 0 then Call (SPrint 2 (''cannot cd '' @ drop 3 (butlast buf) @ [CHR 0x0A])) (\<lambda>_ _ _. again) else again)
     else fork1 (\<lambda>pid. if pid = 0 then
         (case parsecmd buf of Ok (c, b) _ \<Rightarrow> runcmd b c | Panic e \<Rightarrow> sh_panic e | _ \<Rightarrow> Exit)
       else Call SWait (\<lambda>_ _ _. again)))"

subsection \<open>The parser returns\<close>

text \<open>An outcome at the position \<open>i\<close> is fine when it is an error of the shell or moves the position forward within the buffer.\<close>

definition fine :: "string \<Rightarrow> nat \<Rightarrow> ('a, nat) res \<Rightarrow> bool" where
  "fine buf i x = (case x of Ok _ j \<Rightarrow> i \<le> j \<and> j \<le> length buf | Panic _ \<Rightarrow> True | _ \<Rightarrow> False)"

lemma fine_simps [simp]:
  "fine buf i (Ok a j) \<longleftrightarrow> i \<le> j \<and> j \<le> length buf" "fine buf i (Panic e)" "\<not> fine buf i Hang"
  by (simp_all add: fine_def)

lemma fine_bnd:
  assumes "fine buf i (m i)" "\<And>a j. m i = Ok a j \<Longrightarrow> i \<le> j \<Longrightarrow> j \<le> length buf \<Longrightarrow> fine buf j (f a j)"
  shows "fine buf i (bnd m f i)"
  using assms by (fastforce simp: bnd_def fine_def split: res.splits)

lemma fine_seq:
  assumes "fine buf i (m i)" "\<And>a j. m i = Ok a j \<Longrightarrow> i \<le> j \<Longrightarrow> j \<le> length buf \<Longrightarrow> fine buf j (f j)"
  shows "fine buf i (seq m f i)"
  unfolding seq_def using assms by (rule fine_bnd)

lemma fine_mono: "fine buf j x \<Longrightarrow> i \<le> j \<Longrightarrow> fine buf i x"
  by (auto simp: fine_def split: res.splits)

lemma skipws_le: "i \<le> skipws buf i" "i \<le> length buf \<Longrightarrow> skipws buf i \<le> length buf"
  using length_takeWhile_le[of "\<lambda>c. c \<in> set whitespace" "drop i buf"] by (simp_all add: skipws_def)

lemma takeWhile_stop: "i + length (takeWhile P (drop i xs)) < length xs \<Longrightarrow> \<not> P (xs ! (i + length (takeWhile P (drop i xs))))"
  using nth_length_takeWhile[of P "drop i xs"] by simp

lemma skipws_stop: "skipws buf i < length buf \<Longrightarrow> buf ! skipws buf i \<notin> set whitespace"
  using takeWhile_stop[of i "\<lambda>c. c \<in> set whitespace" buf] by (simp add: skipws_def)

lemma word_end_gt:
  assumes "s < length buf" "buf ! s \<notin> set whitespace" "buf ! s \<notin> set symbols"
  shows "s < word_end buf s" "word_end buf s \<le> length buf"
proof -
  have "drop s buf = buf ! s # drop (Suc s) buf" using assms(1) by (simp add: Cons_nth_drop_Suc)
  then show "s < word_end buf s" using assms(2,3) by (simp add: word_end_def)
  show "word_end buf s \<le> length buf"
    using length_takeWhile_le[of "\<lambda>c. c \<notin> set whitespace \<and> c \<notin> set symbols" "drop s buf"] assms(1) by (simp add: word_end_def)
qed

lemma gettoken_fine:
  assumes "i \<le> length buf" "gettoken buf i = Ok (tok, q, eq) j"
  shows "i \<le> j" "j \<le> length buf" "tok \<noteq> CHR 0x00 \<Longrightarrow> i < j" "char_at buf (skipws buf i) \<noteq> CHR 0x00 \<Longrightarrow> i < j"
proof -
  let ?q = "skipws buf i"
  have q: "i \<le> ?q" "?q \<le> length buf" using skipws_le assms(1) by auto
  have e: "scan_token buf ?q = (tok, eq)" "j = skipws buf eq"
    using assms(2) by (auto simp: gettoken_def Let_def split: prod.splits)
  have "?q \<le> eq \<and> eq \<le> length buf \<and> (char_at buf ?q \<noteq> CHR 0x00 \<longrightarrow> ?q < eq) \<and> (tok \<noteq> CHR 0x00 \<longrightarrow> char_at buf ?q \<noteq> CHR 0x00)"
  proof (cases "char_at buf ?q = CHR 0x00")
    case True
    then show ?thesis using e(1) q by (auto simp: scan_token_def Let_def)
  next
    case False
    then have l: "?q < length buf" by (auto simp: char_at_def split: if_splits)
    note ws = skipws_stop[OF l]
    have w: "?q < word_end buf ?q \<and> word_end buf ?q \<le> length buf" if "char_at buf ?q \<notin> set ''|();&<''" "char_at buf ?q \<noteq> CHR ''>''"
      using word_end_gt[OF l ws] that l by (simp add: char_at_def symbols_def)
    have "?q + 2 \<le> length buf" if "char_at buf (?q + 1) = CHR ''>''"
      using that by (auto simp: char_at_def split: if_splits)
    then show ?thesis using e(1) l w False by (auto simp: scan_token_def Let_def split: if_splits)
  qed
  then show "i \<le> j" "j \<le> length buf" "tok \<noteq> CHR 0x00 \<Longrightarrow> i < j" "char_at buf (skipws buf i) \<noteq> CHR 0x00 \<Longrightarrow> i < j"
    using q e(2) skipws_le[of eq buf] by auto
qed

lemma peek_eq: "peek buf toks i = Ok b j \<longleftrightarrow> j = skipws buf i \<and> b = (char_at buf j \<noteq> CHR 0x00 \<and> char_at buf j \<in> set toks)"
  by (auto simp: peek_def Let_def)

lemma peek_fine: "i \<le> length buf \<Longrightarrow> fine buf i (peek buf toks i)"
  by (simp add: peek_def Let_def skipws_le)

lemma skipws_idem: "skipws buf (skipws buf i) = skipws buf i"
proof (cases "skipws buf i < length buf")
  case True
  then have "drop (skipws buf i) buf = buf ! skipws buf i # drop (Suc (skipws buf i)) buf" by (simp add: Cons_nth_drop_Suc)
  then have "takeWhile (\<lambda>c. c \<in> set whitespace) (drop (skipws buf i) buf) = []" using skipws_stop[OF True] by simp
  then show ?thesis by (simp only: skipws_def[of buf "skipws buf i"] list.size add_0_right)
next
  case False
  then show ?thesis by (simp add: skipws_def[of buf "skipws buf i"])
qed

text \<open>A peek that succeeds makes the next \<open>gettoken\<close> move forward.\<close>

lemma peek_token:
  assumes "i \<le> length buf" "peek buf toks i = Ok True j"
  shows "i \<le> j" "j \<le> length buf" "\<And>tok q eq j'. gettoken buf j = Ok (tok, q, eq) j' \<Longrightarrow> j < j' \<and> j' \<le> length buf"
proof -
  have j: "j = skipws buf i" "char_at buf j \<noteq> CHR 0x00" using assms(2) by (auto simp: peek_eq)
  show "i \<le> j" "j \<le> length buf" using j(1) skipws_le assms(1) by auto
  then show "j < j' \<and> j' \<le> length buf" if "gettoken buf j = Ok (tok, q, eq) j'" for tok q eq j'
    using gettoken_fine[OF _ that] j skipws_idem[of buf i] by simp
qed

lemma fine_gettoken: "i \<le> length buf \<Longrightarrow> fine buf i (gettoken buf i)"
proof -
  assume i: "i \<le> length buf"
  obtain tok eq where s: "scan_token buf (skipws buf i) = (tok, eq)" by fastforce
  then have g: "gettoken buf i = Ok (tok, skipws buf i, eq) (skipws buf eq)" by (simp add: gettoken_def)
  show ?thesis using gettoken_fine(1,2)[OF i g] g by simp
qed

lemma parseredirs_fine: "length buf - i < k \<Longrightarrow> i \<le> length buf \<Longrightarrow> fine buf i (parseredirs k buf c i)"
proof (induction k arbitrary: c i)
  case (Suc k)
  show ?case unfolding parseredirs.simps
  proof (intro fine_bnd peek_fine Suc.prems)
    fix b j assume b: "peek buf ''<>'' i = Ok b j" "i \<le> j" "j \<le> length buf"
    have "fine buf j (bnd (gettoken buf) (\<lambda>(tok, _, _). bnd (gettoken buf) (\<lambda>(t, q, eq).
       if t \<noteq> CHR ''a'' then panic ''missing file for redirection'' else parseredirs k buf (F tok q eq))) j)" if "b" for F
    proof (intro fine_bnd fine_gettoken b)
      fix a j' assume a: "gettoken buf j = Ok a j'" "j \<le> j'" "j' \<le> length buf"
      then have "j < j'" using peek_token(3)[OF Suc.prems(2), of "''<>''" j] b that by (cases a) auto
      have "fine buf j' (bnd (gettoken buf) (\<lambda>(t, q, eq).
        if t \<noteq> CHR ''a'' then panic ''missing file for redirection'' else parseredirs k buf (F (fst a) q eq)) j')"
      proof (intro fine_bnd fine_gettoken a)
        fix a' j'' assume "gettoken buf j' = Ok a' j''" "j' \<le> j''" "j'' \<le> length buf"
        then show "fine buf j'' ((case a' of (t, q, eq) \<Rightarrow>
          if t \<noteq> CHR ''a'' then panic ''missing file for redirection'' else parseredirs k buf (F (fst a) q eq)) j'')"
          using Suc.IH[of j''] Suc.prems b(2) \<open>j < j'\<close> by (auto split: prod.splits)
      qed
      then show "fine buf j' ((case a of (tok, _, _) \<Rightarrow> bnd (gettoken buf) (\<lambda>(t, q, eq).
        if t \<noteq> CHR ''a'' then panic ''missing file for redirection'' else parseredirs k buf (F tok q eq))) j')"
        by (simp add: case_prod_beta)
    qed
    then show "fine buf j ((if \<not> b then ret c else bnd (gettoken buf) (\<lambda>(tok, _, _). bnd (gettoken buf) (\<lambda>(t, q, eq).
       if t \<noteq> CHR ''a'' then panic ''missing file for redirection''
       else parseredirs k buf
       (if tok = CHR ''<'' then redircmd c q eq O_RDONLY 0
        else if tok = CHR ''>'' then redircmd c q eq (O_WRONLY OR O_CREATE) 1
        else if tok = CHR ''+'' then redircmd c q eq (O_WRONLY OR O_CREATE) 1 else c)))) j)"
      using b by simp
  qed
qed simp

lemma parseargs_fine: "length buf - i < k \<Longrightarrow> i \<le> length buf \<Longrightarrow> fine buf i (parseargs k buf n c i)"
proof (induction k arbitrary: c i n)
  case (Suc k)
  show ?case unfolding parseargs.simps
  proof (intro fine_bnd peek_fine Suc.prems)
    fix b j assume b: "peek buf ''|)&;'' i = Ok b j" "i \<le> j" "j \<le> length buf"
    have "fine buf j (bnd (gettoken buf) (\<lambda>(tok, q, eq). if tok = CHR 0x00 then ret c
     else if tok \<noteq> CHR ''a'' then panic ''syntax'' else if n + 1 \<ge> MAXARGS then panic ''too many args''
     else bnd (parseredirs k buf (add_arg q eq c)) (parseargs k buf (n + 1))) j)"
    proof (intro fine_bnd fine_gettoken b)
      fix a j' assume a: "gettoken buf j = Ok a j'" "j \<le> j'" "j' \<le> length buf"
      have "fine buf j' (bnd (parseredirs k buf (add_arg q eq c)) (parseargs k buf (n + 1)) j')" if "fst a \<noteq> CHR 0x00" for q eq
      proof (intro fine_bnd)
        have "j < j'" using gettoken_fine(3)[OF b(3), of "fst a"] a(1) that by (metis prod.collapse)
        then show "fine buf j' (parseredirs k buf (add_arg q eq c) j')"
          using Suc.prems b(2) a(3) by (intro parseredirs_fine) auto
        fix d j'' assume "j' \<le> j''" "j'' \<le> length buf"
        then show "fine buf j'' (parseargs k buf (n + 1) d j'')" using Suc.IH[of j''] Suc.prems b(2) \<open>j < j'\<close> by auto
      qed
      then show "fine buf j' ((case a of (tok, q, eq) \<Rightarrow> if tok = CHR 0x00 then ret c
        else if tok \<noteq> CHR ''a'' then panic ''syntax'' else if n + 1 \<ge> MAXARGS then panic ''too many args''
        else bnd (parseredirs k buf (add_arg q eq c)) (parseargs k buf (n + 1))) j')"
        using a(3) by (simp add: case_prod_beta)
    qed
    then show "fine buf j ((if b then ret c else bnd (gettoken buf) (\<lambda>(tok, q, eq). if tok = CHR 0x00 then ret c
     else if tok \<noteq> CHR ''a'' then panic ''syntax'' else if n + 1 \<ge> MAXARGS then panic ''too many args''
     else bnd (parseredirs k buf (add_arg q eq c)) (parseargs k buf (n + 1)))) j)"
      using b by simp
  qed
qed simp

text \<open>After a successful peek, the next token is consumed before the rest runs.\<close>

lemma fine_after_peek:
  assumes "i \<le> length buf" "peek buf toks i = Ok True j" "\<And>j'. j < j' \<Longrightarrow> j' \<le> length buf \<Longrightarrow> fine buf j' (f j')"
  shows "fine buf j (seq (gettoken buf) f j)"
proof (rule fine_seq)
  show "fine buf j (gettoken buf j)" using peek_token(2)[OF assms(1,2)] by (rule fine_gettoken)
  fix a j' assume "gettoken buf j = Ok a j'"
  then have "j < j' \<and> j' \<le> length buf" using peek_token(3)[OF assms(1,2)] by (cases a) auto
  then show "fine buf j' (f j')" using assms(3) by blast
qed

lemma parseback_fine: "length buf - i < k \<Longrightarrow> i \<le> length buf \<Longrightarrow> fine buf i (parseback k buf c i)"
proof (induction k arbitrary: c i)
  case (Suc k)
  show ?case unfolding parseback.simps
  proof (intro fine_bnd peek_fine Suc.prems)
    fix b j assume b: "peek buf ''&'' i = Ok b j" "i \<le> j" "j \<le> length buf"
    have "fine buf j (seq (gettoken buf) (parseback k buf (backcmd c)) j)" if "b"
    proof (rule fine_after_peek[OF Suc.prems(2)])
      show "peek buf ''&'' i = Ok True j" using b that by simp
      show "fine buf j' (parseback k buf (backcmd c) j')" if "j < j'" "j' \<le> length buf" for j'
        using Suc.IH[of j'] Suc.prems b(2) that by auto
    qed
    then show "fine buf j ((if \<not> b then ret c else seq (gettoken buf) (parseback k buf (backcmd c))) j)" using b by simp
  qed
qed simp

lemma parse_fine:
  "i \<le> length buf \<Longrightarrow> 4 * (length buf - i) + 5 \<le> k \<Longrightarrow> fine buf i (parseline k buf i)"
  "i \<le> length buf \<Longrightarrow> 4 * (length buf - i) + 4 \<le> k \<Longrightarrow> fine buf i (parsepipe k buf i)"
  "i \<le> length buf \<Longrightarrow> 4 * (length buf - i) + 3 \<le> k \<Longrightarrow> fine buf i (parseexec k buf i)"
  "i \<le> length buf \<Longrightarrow> 4 * (length buf - i) + 2 \<le> k \<Longrightarrow> fine buf i (parseblock k buf i)"
proof (induction k arbitrary: i)
  case (Suc k)
  { case 1
    show ?case unfolding parseline.simps
    proof (intro fine_bnd peek_fine Suc.IH(2))
      show "i \<le> length buf" "4 * (length buf - i) + 4 \<le> k" using 1 by auto
      fix c j assume j: "i \<le> j" "j \<le> length buf"
      then show "fine buf j (parseback k buf c j)" using 1 by (intro parseback_fine) auto
      fix c j' assume j': "j \<le> j'" "j' \<le> length buf"
      then show "j' \<le> length buf" by simp
      fix b j'' assume b: "peek buf '';'' j' = Ok b j''" "j' \<le> j''" "j'' \<le> length buf"
      have "fine buf j'' (seq (gettoken buf) (bnd (parseline k buf) (\<lambda>d. ret (listcmd c d))) j'')" if "b"
      proof (rule fine_after_peek[OF j'(2)])
        show "peek buf '';'' j' = Ok True j''" using b that by simp
        fix l assume l: "j'' < l" "l \<le> length buf"
        show "fine buf l (bnd (parseline k buf) (\<lambda>d. ret (listcmd c d)) l)"
          by (intro fine_bnd Suc.IH(1)) (use 1 j j' b l in auto)
      qed
      then show "fine buf j'' ((if b then seq (gettoken buf) (bnd (parseline k buf) (\<lambda>d. ret (listcmd c d))) else ret c) j'')"
        using b by simp
    qed
  next case 2
    show ?case unfolding parsepipe.simps
    proof (intro fine_bnd peek_fine Suc.IH(3))
      show "i \<le> length buf" "4 * (length buf - i) + 3 \<le> k" using 2 by auto
      fix c j assume j: "i \<le> j" "j \<le> length buf"
      then show "j \<le> length buf" by simp
      fix b j' assume b: "peek buf ''|'' j = Ok b j'" "j \<le> j'" "j' \<le> length buf"
      have "fine buf j' (seq (gettoken buf) (bnd (parsepipe k buf) (\<lambda>d. ret (pipecmd c d))) j')" if "b"
      proof (rule fine_after_peek[OF j(2)])
        show "peek buf ''|'' j = Ok True j'" using b that by simp
        fix l assume l: "j' < l" "l \<le> length buf"
        show "fine buf l (bnd (parsepipe k buf) (\<lambda>d. ret (pipecmd c d)) l)"
          by (intro fine_bnd Suc.IH(2)) (use 2 j b l in auto)
      qed
      then show "fine buf j' ((if b then seq (gettoken buf) (bnd (parsepipe k buf) (\<lambda>d. ret (pipecmd c d))) else ret c) j')"
        using b by simp
    qed
  next case 3
    show ?case unfolding parseexec.simps
    proof (intro fine_bnd peek_fine)
      show "i \<le> length buf" using 3 by simp
      fix b j assume j: "peek buf ''('' i = Ok b j" "i \<le> j" "j \<le> length buf"
      have "fine buf j (bnd (parseredirs k buf execcmd) (parseargs k buf 0) j)"
        by (intro fine_bnd parseredirs_fine parseargs_fine) (use 3 j in auto)
      moreover have "fine buf j (parseblock k buf j)" using Suc.IH(4)[of j] 3 j by auto
      ultimately show "fine buf j ((if b then parseblock k buf else bnd (parseredirs k buf execcmd) (parseargs k buf 0)) j)" by simp
    qed
  next case 4
    show ?case unfolding parseblock.simps
    proof (intro fine_bnd peek_fine)
      show "i \<le> length buf" using 4 by simp
      fix b j assume j: "peek buf ''('' i = Ok b j" "i \<le> j" "j \<le> length buf"
      have "fine buf j (seq (gettoken buf) (bnd (parseline k buf) (\<lambda>c. bnd (peek buf '')'') (\<lambda>b.
         if \<not> b then panic ''syntax - missing )'' else seq (gettoken buf) (parseredirs k buf c)))) j)" if "b"
      proof (rule fine_after_peek[OF \<open>i \<le> length buf\<close>])
        show "peek buf ''('' i = Ok True j" using j that by simp
        fix l assume l: "j < l" "l \<le> length buf"
        show "fine buf l (bnd (parseline k buf) (\<lambda>c. bnd (peek buf '')'') (\<lambda>b.
           if \<not> b then panic ''syntax - missing )'' else seq (gettoken buf) (parseredirs k buf c))) l)"
        proof (intro fine_bnd Suc.IH(1) peek_fine)
          show "l \<le> length buf" "4 * (length buf - l) + 5 \<le> k" using 4 j l by auto
          fix c m assume m: "l \<le> m" "m \<le> length buf"
          then show "m \<le> length buf" by simp
          fix b m' assume b: "peek buf '')'' m = Ok b m'" "m \<le> m'" "m' \<le> length buf"
          have "fine buf m' (seq (gettoken buf) (parseredirs k buf c) m')" if "b"
          proof (rule fine_after_peek[OF m(2)])
            show "peek buf '')'' m = Ok True m'" using b that by simp
            show "fine buf n (parseredirs k buf c n)" if "m' < n" "n \<le> length buf" for n
              using 4 j l m b that by (intro parseredirs_fine) auto
          qed
          then show "fine buf m' ((if \<not> b then panic ''syntax - missing )'' else seq (gettoken buf) (parseredirs k buf c)) m')" by simp
        qed
      qed
      then show "fine buf j ((if \<not> b then panic ''parseblock'' else seq (gettoken buf) (bnd (parseline k buf) (\<lambda>c. bnd (peek buf '')'') (\<lambda>b.
         if \<not> b then panic ''syntax - missing )'' else seq (gettoken buf) (parseredirs k buf c))))) j)" by simp
    qed }
qed auto

text \<open>
  Claim C27. Parsing a command line always ends: for every input \<open>parsecmd\<close> returns a command, having consumed the
  whole line, or reports a syntax error.
\<close>

theorem parsecmd_returns:
  "(\<exists>c b. parsecmd buf = Ok (c, b) (length buf)) \<or> (\<exists>e. parsecmd buf = Panic e)"
proof -
  have f: "fine buf 0 (parseline (parse_fuel buf) buf 0)" by (rule parse_fine) (simp_all add: parse_fuel_def)
  show ?thesis
  proof (cases "parseline (parse_fuel buf) buf 0")
    case (Ok c j)
    then show ?thesis by (simp add: parsecmd_def bnd_Ok[of "parseline (parse_fuel buf) buf" 0, OF Ok] peek_def Let_def seq_def bnd_def)
  qed (use f in \<open>auto simp: parsecmd_def bnd_def fine_def\<close>)
qed

end
