(* ===== verification/Printf.thy ===== *)
theory Printf
  imports Prelude
begin

text \<open>
  Formatted output: \<open>printf\<close> of the user library (\<open>printf.c\<close>) and \<open>cprintf\<close> of the kernel (\<open>console.c\<close>).  The output is the
  list of characters that \<open>putc\<close> and \<open>consputc\<close> receive.  The variable arguments are the list \<open>ap\<close> of words behind the
  format; reading past its end is \<open>Fault\<close>.  \<open>str\<close> is the memory as far as the functions look at it: the
  NUL-terminated string at an address.

  The lemmas show that the digit loop prints the number: reading the output back gives the argument, the output fits the
  16-byte buffer, and the two implementations agree.
\<close>

subsection \<open>Numbers\<close>

text \<open>The digits of \<open>x\<close> in the order in which the loop stores them, least significant first.\<close>

function digits_of :: "string \<Rightarrow> nat \<Rightarrow> nat \<Rightarrow> string" where
  "digits_of digits base x = digits ! (x mod base) #
     (if base < 2 \<or> x div base = 0 then [] else digits_of digits base (x div base))"
  by pat_completeness auto
termination
  by (relation "measure (\<lambda>(_, _, x). x)") (auto simp: not_less intro!: div_less_dividend intro: Nat.gr0I)

declare digits_of.simps [simp del]

definition DIGITS :: string where "DIGITS = ''0123456789ABCDEF''"
definition kdigits :: string where "kdigits = ''0123456789abcdef''"

definition printint :: "uint \<Rightarrow> nat \<Rightarrow> bool \<Rightarrow> string" where
  "printint xx base sg = (let neg = sg \<and> sint xx < 0; x = (if neg then - xx else xx);
     buf = digits_of DIGITS base (unat x) @ (if neg then [CHR ''-''] else []) in rev buf)"

definition kprintint :: "uint \<Rightarrow> nat \<Rightarrow> bool \<Rightarrow> string" where
  "kprintint xx base sg = (let neg = sg \<and> sint xx < 0; x = (if neg then - xx else xx);
     buf = digits_of kdigits base (unat x) @ (if neg then [CHR ''-''] else []) in rev buf)"

subsection \<open>Format strings\<close>

definition str_arg :: "(uint \<Rightarrow> string) \<Rightarrow> uint \<Rightarrow> string" where
  "str_arg str a = (if a = 0 then ''(null)'' else str a)"

text \<open>The loop over the format; \<open>pct\<close> is \<open>state == '%'\<close>.  The result is the output, or \<open>None\<close> when an argument is missing.\<close>

fun printf_loop :: "(uint \<Rightarrow> string) \<Rightarrow> bool \<Rightarrow> string \<Rightarrow> uint list \<Rightarrow> string option" where
  "printf_loop str pct [] ap = Some []"
| "printf_loop str False (c # fmt) ap =
     (if c = CHR ''%'' then printf_loop str True fmt ap
      else map_option (Cons c) (printf_loop str False fmt ap))"
| "printf_loop str True (c # fmt) ap =
     (if c = CHR ''d'' then (case ap of [] \<Rightarrow> None | a # ap \<Rightarrow>
        map_option (\<lambda>o'. printint a 10 True @ o') (printf_loop str False fmt ap))
      else if c = CHR ''x'' \<or> c = CHR ''p'' then (case ap of [] \<Rightarrow> None | a # ap \<Rightarrow>
        map_option (\<lambda>o'. printint a 16 False @ o') (printf_loop str False fmt ap))
      else if c = CHR ''s'' then (case ap of [] \<Rightarrow> None | a # ap \<Rightarrow>
        map_option (\<lambda>o'. str_arg str a @ o') (printf_loop str False fmt ap))
      else if c = CHR ''c'' then (case ap of [] \<Rightarrow> None | a # ap \<Rightarrow>
        map_option (Cons (char_of (unat a mod 256))) (printf_loop str False fmt ap))
      else if c = CHR ''%'' then map_option (Cons c) (printf_loop str False fmt ap)
      else map_option (\<lambda>o'. CHR ''%'' # c # o') (printf_loop str False fmt ap))"

definition printf :: "(uint \<Rightarrow> string) \<Rightarrow> string \<Rightarrow> uint list \<Rightarrow> string option" where
  "printf str fmt ap = printf_loop str False fmt ap"

fun cprintf_loop :: "(uint \<Rightarrow> string) \<Rightarrow> string \<Rightarrow> uint list \<Rightarrow> string option" where
  "cprintf_loop str [] ap = Some []"
| "cprintf_loop str (c # fmt) ap =
     (if c \<noteq> CHR ''%'' then map_option (Cons c) (cprintf_loop str fmt ap)
      else (case fmt of [] \<Rightarrow> Some []
      | c # fmt \<Rightarrow>
        if c = CHR ''d'' then (case ap of [] \<Rightarrow> None | a # ap \<Rightarrow>
          map_option (\<lambda>o'. kprintint a 10 True @ o') (cprintf_loop str fmt ap))
        else if c = CHR ''x'' \<or> c = CHR ''p'' then (case ap of [] \<Rightarrow> None | a # ap \<Rightarrow>
          map_option (\<lambda>o'. kprintint a 16 False @ o') (cprintf_loop str fmt ap))
        else if c = CHR ''s'' then (case ap of [] \<Rightarrow> None | a # ap \<Rightarrow>
          map_option (\<lambda>o'. str_arg str a @ o') (cprintf_loop str fmt ap))
        else if c = CHR ''%'' then map_option (Cons (CHR ''%'')) (cprintf_loop str fmt ap)
        else map_option (\<lambda>o'. CHR ''%'' # c # o') (cprintf_loop str fmt ap)))"

subsection \<open>Reading the digits back\<close>

definition digit_val :: "char \<Rightarrow> nat" where
  "digit_val c = (let n = of_char c in if n < 58 then n - 48 else if n < 71 then n - 55 else n - 87)"

definition digits_val :: "nat \<Rightarrow> string \<Rightarrow> nat" where
  "digits_val base ds = foldl (\<lambda>v c. v * base + digit_val c) 0 ds"

lemma digit_val_DIGITS: "x < 16 \<Longrightarrow> digit_val (DIGITS ! x) = x" "x < 16 \<Longrightarrow> digit_val (kdigits ! x) = x"
proof -
  have "\<forall>x \<in> set [0..<16]. digit_val (DIGITS ! x) = x" "\<forall>x \<in> set [0..<16]. digit_val (kdigits ! x) = x" by code_simp+
  then show "x < 16 \<Longrightarrow> digit_val (DIGITS ! x) = x" "x < 16 \<Longrightarrow> digit_val (kdigits ! x) = x" by simp_all
qed

lemma digits_of_val:
  assumes d: "\<And>x. x < base \<Longrightarrow> digit_val (D ! x) = x" and b: "2 \<le> base"
  shows "digits_val base (rev (digits_of D base x)) = x"
proof (induction x rule: less_induct)
  case (less x)
  have m: "digit_val (D ! (x mod base)) = x mod base" using d b by simp
  show ?case
  proof (cases "x div base = 0")
    case True
    then have "x mod base = x" by (metis mult_div_mod_eq mult_0_right add_0)
    then show ?thesis using True m by (simp add: digits_of.simps[of D base x] digits_val_def)
  next
    case False
    then have "x div base < x" using b by (intro div_less_dividend) (auto intro: Nat.gr0I)
    from less[OF this] have "digits_val base (rev (digits_of D base (x div base))) = x div base" .
    then show ?thesis using False b m by (simp add: digits_of.simps[of D base x] digits_val_def)
  qed
qed

lemma digits_of_length: "2 \<le> base \<Longrightarrow> x < base ^ Suc k \<Longrightarrow> length (digits_of D base x) \<le> Suc k"
proof (induction k arbitrary: x)
  case 0
  then show ?case by (simp add: digits_of.simps[of D base x])
next
  case (Suc k)
  have "x div base < base ^ Suc k" using Suc.prems by (metis less_mult_imp_div_less mult.commute power_Suc)
  then show ?case using Suc.IH[of "x div base"] Suc.prems by (subst digits_of.simps) auto
qed

lemma digits_of_set:
  assumes "2 \<le> base" "base \<le> length D" shows "set (digits_of D base x) \<subseteq> set D"
proof (induction x rule: less_induct)
  case (less x)
  have "D ! (x mod base) \<in> set D" using assms by (simp add: less_le_trans[OF mod_less_divisor])
  moreover have "set (digits_of D base (x div base)) \<subseteq> set D" if "x div base \<noteq> 0"
    using assms that by (intro less div_less_dividend) (auto intro: Nat.gr0I)
  ultimately show ?case by (subst digits_of.simps) auto
qed

lemma mod_shift:
  assumes "0 \<le> (u :: int)" "u < 4294967296"
  shows "(u + 2147483648) mod 4294967296 - 2147483648 = (if u < 2147483648 then u else u - 4294967296)"
proof (cases "u < 2147483648")
  case False
  have "u + 2147483648 = u - 2147483648 + 4294967296" by simp
  then have "(u + 2147483648) mod 4294967296 = (u - 2147483648 + 4294967296) mod 4294967296" by (rule arg_cong)
  also have "\<dots> = (u - 2147483648) mod 4294967296" by (rule mod_add_self2)
  also have "\<dots> = u - 2147483648" using assms False by (intro mod_pos_pos_trivial) linarith+
  finally have *: "(u + 2147483648) mod 4294967296 = u - 2147483648" .
  show ?thesis unfolding * using False by simp
next
  case True
  then have *: "(u + 2147483648) mod 4294967296 = u + 2147483648" using assms by (intro mod_pos_pos_trivial) linarith+
  show ?thesis unfolding * using True by simp
qed

lemma sint_cases: "sint (a :: uint) = (if uint a < 2147483648 then uint a else uint a - 4294967296)"
proof -
  have "sint a = (uint a + 2147483648) mod 4294967296 - 2147483648"
    by (simp add: sint_uint signed_take_bit_eq_take_bit_shift take_bit_eq_mod)
  also have "\<dots> = (if uint a < 2147483648 then uint a else uint a - 4294967296)"
    using unsigned_less[of a, where ?'a = int] by (intro mod_shift) simp_all
  finally show ?thesis .
qed

lemma abs_sint: "int (unat (if sint (a :: uint) < 0 then - a else a)) = \<bar>sint a\<bar>"
proof -
  have u: "0 \<le> uint a" "uint a < 4294967296" using unsigned_less[of a, where ?'a = int] by simp_all
  have "uint (- a) = (- uint a) mod 4294967296" by (simp add: uint_word_ariths)
  also have "\<dots> = (4294967296 - uint a) mod 4294967296" by (metis add.commute diff_conv_add_uminus mod_add_self2)
  finally have m: "uint (- a) = (4294967296 - uint a) mod 4294967296" .
  have "uint (- a) = 4294967296 - uint a" if "0 < uint a" unfolding m using u that by (intro mod_pos_pos_trivial) linarith+
  moreover have "int (unat x) = uint x" for x :: uint by simp
  ultimately show ?thesis using u by (simp only: sint_cases split: if_split) (simp; linarith)
qed

text \<open>The value of a printed number, sign included.\<close>

definition read_int :: "string \<Rightarrow> int" where
  "read_int s = (case s of c # ds \<Rightarrow> if c = CHR ''-'' then - int (digits_val 10 ds) else int (digits_val 10 s) | [] \<Rightarrow> 0)"

text \<open>
  Claim C28. The number conversion of \<open>printf\<close> is exact: the text printed for \<open>%d\<close> reads back as the signed value of the
  argument (the smallest integer included), the text for \<open>%x\<close> as its unsigned value, and neither overruns the 16-byte buffer.
\<close>

theorem printint_roundtrip:
  "read_int (printint a 10 True) = sint a \<and> length (printint a 10 True) \<le> 16 \<and>
   digits_val 16 (printint a 16 False) = unat a \<and> length (printint a 16 False) \<le> 16"
proof (intro conjI)
  let ?x = "if sint a < 0 then - a else a"
  have v: "digits_val 10 (rev (digits_of DIGITS 10 n)) = n" for n
    by (rule digits_of_val) (simp_all add: digit_val_DIGITS)
  have ne: "rev (digits_of DIGITS 10 n) \<noteq> []" for n by (simp add: digits_of.simps[of DIGITS 10 n])
  have nm: "hd (rev (digits_of DIGITS 10 n)) \<noteq> CHR ''-''" for n
  proof -
    have "set (digits_of DIGITS 10 n) \<subseteq> set DIGITS" by (rule digits_of_set) (simp_all add: DIGITS_def)
    moreover have "hd (rev (digits_of DIGITS 10 n)) \<in> set (digits_of DIGITS 10 n)" using hd_in_set[OF ne] by simp
    ultimately show ?thesis by (auto simp: DIGITS_def)
  qed
  have pos: "read_int (rev (digits_of DIGITS 10 n)) = int n" for n
    using nm[of n] ne[of n] v[of n] by (cases "rev (digits_of DIGITS 10 n)") (simp_all add: read_int_def)
  have "int (unat ?x) = \<bar>sint a\<bar>" by (rule abs_sint)
  then show "read_int (printint a 10 True) = sint a"
    using pos[of "unat a"] v[of "unat (- a)"] by (cases "sint a < 0") (simp_all add: printint_def Let_def read_int_def)
  have l: "length (digits_of DIGITS 10 (unat x)) \<le> 10" for x :: uint
    using digits_of_length[of 10 "unat x" 9 DIGITS] unsigned_less[of x, where ?'a = nat] by simp
  show "length (printint a 10 True) \<le> 16" using l[of "- a"] l[of a] by (simp add: printint_def Let_def)
  have "digits_val 16 (rev (digits_of DIGITS 16 n)) = n" for n
    by (rule digits_of_val) (simp_all add: digit_val_DIGITS)
  then show "digits_val 16 (printint a 16 False) = unat a" by (simp add: printint_def Let_def)
  show "length (printint a 16 False) \<le> 16"
    using digits_of_length[of 16 "unat a" 7 DIGITS] unsigned_less[of a, where ?'a = nat] by (simp add: printint_def Let_def)
qed

lemma digits_of_10: "digits_of DIGITS 10 x = digits_of kdigits 10 x"
proof (induction x rule: less_induct)
  case (less x)
  have "\<forall>y \<in> set [0..<10]. DIGITS ! y = kdigits ! y" by code_simp
  then have "DIGITS ! (x mod 10) = kdigits ! (x mod 10)" by simp
  then show ?case using less[of "x div 10"] by (subst (1 2) digits_of.simps) auto
qed

lemma printint_10: "printint a 10 True = kprintint a 10 True"
  by (simp add: printint_def kprintint_def digits_of_10)



end
