(* ===== verification/Console.thy ===== *)
theory Console
  imports Kstate Printf
begin

text \<open>
  The console (\<open>console.c\<close>) and the keyboard (\<open>kbd.c\<close>, \<open>kbd.h\<close>).  The state adds to the kernel state the input ring with its
  three indices, the text screen with its cursor, and the characters sent to the serial line.  The cursor position kept in the two
  CRT controller registers is \<open>crtpos\<close>; \<open>c_dst\<close> is what a reader has copied to its destination buffer so far.
  The functions that the kernel installs in \<open>devsw\<close> release the inode lock around their body; \<open>consoleread\<close> and \<open>consolewrite\<close> are
  those bodies.

  The input ring is shown to implement a line editor on two lists, the committed input and the line being typed, and the
  cursor to stay on the screen.
\<close>

record consst = kcore +
  panicked :: bool
  cons_locking :: bool
  uart :: bool
  uart_out :: "int list"
  crt :: "ushort list"
  crtpos :: int
  cbuf :: "uchar list"
  cr :: uint
  cw :: uint
  ce :: uint
  c_dst :: bytes

type_synonym ('a, 'b) cop = "'b consst_scheme \<Rightarrow> ('a, 'b consst_scheme) res"

definition INPUT_BUF :: nat where "INPUT_BUF = 128"
definition BACKSPACE :: int where "BACKSPACE = 0x100"

subsection \<open>Output\<close>

definition cell :: "int \<Rightarrow> ushort" where
  "cell c = (of_int c AND 0xff) OR 0x0700"

text \<open>\<open>cgaputc\<close> up to the check of the cursor position.\<close>

definition cga_move :: "int \<Rightarrow> (int, 'b) cop" where
  "cga_move c = bnd (gets crtpos) (\<lambda>pos.
     if c = 10 then ret (pos + (80 - pos mod 80))
     else if c = BACKSPACE then ret (if pos > 0 then pos - 1 else pos)
     else bnd (gets (\<lambda>s. length (crt s))) (\<lambda>n. seq (in_range (0 \<le> pos \<and> nat pos < n))
       (seq (modify (\<lambda>s. s\<lparr>crt := (crt s)[nat pos := cell c]\<rparr>)) (ret (pos + 1)))))"

definition scroll :: "int \<Rightarrow> ushort list \<Rightarrow> ushort list" where
  "scroll pos m = (let m1 = splice m 0 (slice m 80 (23 * 80)) in splice m1 (nat pos) (replicate (24 * 80 - nat pos) 0))"

definition cgaputc :: "int \<Rightarrow> (unit, 'b) cop" where
  "cgaputc c = bnd (cga_move c) (\<lambda>pos.
     if pos < 0 \<or> pos > 25 * 80 then panic ''pos under/overflow''
     else bnd (if pos div 80 \<ge> 24 then seq (modify (\<lambda>s. s\<lparr>crt := scroll (pos - 80) (crt s)\<rparr>)) (ret (pos - 80)) else ret pos) (\<lambda>pos.
     seq (modify (\<lambda>s. s\<lparr>crtpos := pos\<rparr>))
     (bnd (gets (\<lambda>s. length (crt s))) (\<lambda>n. seq (in_range (nat pos < n))
     (modify (\<lambda>s. s\<lparr>crt := (crt s)[nat pos := 0x0720]\<rparr>))))))"

definition uartputc :: "int \<Rightarrow> (unit, 'b) cop" where
  "uartputc c = bnd (gets uart) (\<lambda>u. whenM u (modify (\<lambda>s. s\<lparr>uart_out := uart_out s @ [c]\<rparr>)))"

definition consputc :: "int \<Rightarrow> (unit, 'b) cop" where
  "consputc c = bnd (gets panicked) (\<lambda>p. if p then hang else
     seq (if c = BACKSPACE then seq (uartputc 8) (seq (uartputc 32) (uartputc 8)) else uartputc c) (cgaputc c))"

definition cprintf :: "(uint \<Rightarrow> string) \<Rightarrow> string option \<Rightarrow> uint list \<Rightarrow> (unit, 'b) cop" where
  "cprintf str fmt ap = bnd (gets cons_locking) (\<lambda>locking. seq (whenM locking (acquire L_cons))
     (case fmt of None \<Rightarrow> panic ''null fmt''
      | Some f \<Rightarrow> (case cprintf_loop str f ap of None \<Rightarrow> fault
          | Some out \<Rightarrow> seq (forM (map (\<lambda>c. int (of_char c :: nat)) out) consputc) (whenM locking (release L_cons)))))"

subsection \<open>Input\<close>

text \<open>The loop of control-U, which runs at most \<open>e - w\<close> times.\<close>

fun killline :: "nat \<Rightarrow> (unit, 'b) cop" where
  "killline 0 = ret ()"
| "killline (Suc k) = bnd (gets (\<lambda>s. ce s \<noteq> cw s \<and> cbuf s ! (unat (ce s - 1) mod INPUT_BUF) \<noteq> 10)) (\<lambda>b.
     if b then seq (modify (\<lambda>s. s\<lparr>ce := ce s - 1\<rparr>)) (seq (consputc BACKSPACE) (killline k)) else ret ())"

text \<open>One character of the loop of \<open>consoleintr\<close>; the result is \<open>doprocdump\<close>.\<close>

definition intr_char :: "int \<Rightarrow> bool \<Rightarrow> (bool, 'b) cop" where
  "intr_char c d = (if c = 16 then ret True
     else if c = 21 then seq (bnd (gets (\<lambda>s. unat (ce s - cw s))) killline) (ret d)
     else if c = 8 \<or> c = 0x7f then
       seq (bnd (gets (\<lambda>s. ce s \<noteq> cw s)) (\<lambda>b. whenM b (seq (modify (\<lambda>s. s\<lparr>ce := ce s - 1\<rparr>)) (consputc BACKSPACE)))) (ret d)
     else bnd (gets (\<lambda>s. c \<noteq> 0 \<and> ce s - cr s < of_nat INPUT_BUF)) (\<lambda>b.
       seq (whenM b (let c = (if c = 13 then 10 else c) in
         seq (modify (\<lambda>s. s\<lparr>cbuf := (cbuf s)[unat (ce s) mod INPUT_BUF := of_int c], ce := ce s + 1\<rparr>))
         (seq (consputc c)
         (bnd (gets (\<lambda>s. c = 10 \<or> c = 4 \<or> ce s = cr s + of_nat INPUT_BUF)) (\<lambda>b.
         whenM b (seq (modify (\<lambda>s. s\<lparr>cw := ce s\<rparr>)) (wakeup ChanInput))))))) (ret d)))"

text \<open>\<open>cs\<close> are the values of \<open>getc\<close> before the first negative one; the caller of a true result goes on to \<open>procdump\<close>.\<close>

fun intr_loop :: "int list \<Rightarrow> bool \<Rightarrow> (bool, 'b) cop" where
  "intr_loop [] d = ret d"
| "intr_loop (c # cs) d = bnd (intr_char c d) (intr_loop cs)"

definition consoleintr :: "int list \<Rightarrow> (bool, 'b) cop" where
  "consoleintr cs = seq (acquire L_cons) (bnd (intr_loop cs False) (\<lambda>d. seq (release L_cons) (ret d)))"

fun consoleread_loop :: "nat \<Rightarrow> nat \<Rightarrow> (int, 'b) cop" where
  "consoleread_loop target 0 = ret (int target)"
| "consoleread_loop target (Suc n) = bnd (gets (\<lambda>s. cr s = cw s)) (\<lambda>empty.
     if empty then bnd curproc (\<lambda>i. bnd (gets (\<lambda>s. p_killed (pget i s))) (\<lambda>k.
       if k then ret (- 1) else seq (sleep ChanInput (Some L_cons)) (ret 0)))
     else bnd (gets (\<lambda>s. cbuf s ! (unat (cr s) mod INPUT_BUF))) (\<lambda>c.
     seq (modify (\<lambda>s. s\<lparr>cr := cr s + 1\<rparr>))
     (if c = 4 then seq (whenM (Suc n < target) (modify (\<lambda>s. s\<lparr>cr := cr s - 1\<rparr>))) (ret (int (target - Suc n)))
      else seq (modify (\<lambda>s. s\<lparr>c_dst := c_dst s @ [c]\<rparr>))
        (if c = 10 then ret (int (target - n)) else consoleread_loop target n))))"

definition consoleread :: "int \<Rightarrow> (int, 'b) cop" where
  "consoleread n = seq (acquire L_cons) (bnd (consoleread_loop (nat n) (nat n)) (\<lambda>r. seq (release L_cons) (ret r)))"

definition consolewrite :: "bytes \<Rightarrow> (int, 'b) cop" where
  "consolewrite b = seq (acquire L_cons) (seq (forM (map uint b) consputc) (seq (release L_cons) (ret (int (length b)))))"

subsection \<open>The keyboard\<close>

text \<open>A table given by its first entries and designated initialisers; the rest is 0.\<close>

definition table :: "uchar list \<Rightarrow> (nat \<times> uchar) list \<Rightarrow> nat \<Rightarrow> uchar" where
  "table xs ds i = (if i < length xs then xs ! i else case map_of ds i of Some v \<Rightarrow> v | None \<Rightarrow> 0)"

definition chars :: "string \<Rightarrow> uchar list" where
  "chars s = map (\<lambda>c. of_nat (of_char c)) s"

definition SHIFT :: uint where "SHIFT = 1"
definition CTL :: uint where "CTL = 2"
definition ALT :: uint where "ALT = 4"
definition CAPSLOCK :: uint where "CAPSLOCK = 8"
definition NUMLOCK :: uint where "NUMLOCK = 16"
definition SCROLLLOCK :: uint where "SCROLLLOCK = 32"
definition E0ESC :: uint where "E0ESC = 64"

definition shiftcode :: "nat \<Rightarrow> uchar" where
  "shiftcode = table [] [(0x1D, ucast CTL), (0x2A, ucast SHIFT), (0x36, ucast SHIFT), (0x38, ucast ALT), (0x9D, ucast CTL), (0xB8, ucast ALT)]"

definition togglecode :: "nat \<Rightarrow> uchar" where
  "togglecode = table [] [(0x3A, ucast CAPSLOCK), (0x45, ucast NUMLOCK), (0x46, ucast SCROLLLOCK)]"

definition keypad :: "(nat \<times> uchar) list" where
  "keypad = [(0xC8, 0xE2), (0xD0, 0xE3), (0xC9, 0xE6), (0xD1, 0xE7), (0xCB, 0xE4), (0xCD, 0xE5), (0x97, 0xE0), (0xCF, 0xE1), (0xD2, 0xE8), (0xD3, 0xE9)]"

definition normalmap :: "nat \<Rightarrow> uchar" where
  "normalmap = table ([0, 0x1B] @ chars ''1234567890-='' @ [8, 9] @ chars ''qwertyuiop[]'' @ [10, 0] @ chars ''asdfghjkl;'' @
     [39, 96, 0, 92] @ chars ''zxcvbnm,./'' @ [0] @ chars ''*'' @ [0] @ chars '' '' @ replicate 13 0 @ chars ''789-456+1230.'')
     ([(0x9C, 10), (0xB5, 47)] @ keypad)"

definition shiftmap :: "nat \<Rightarrow> uchar" where
  "shiftmap = table ([0, 0x1B] @ chars ''!@#$%^&*()_+'' @ [8, 9] @ chars ''QWERTYUIOP{}'' @ [10, 0] @ chars ''ASDFGHJKL:'' @
     [34, 126, 0, 124] @ chars ''ZXCVBNM<>?'' @ [0] @ chars ''*'' @ [0] @ chars '' '' @ replicate 13 0 @ chars ''789-456+1230.'')
     ([(0x9C, 10), (0xB5, 47)] @ keypad)"

definition ctl :: "string \<Rightarrow> uchar list" where
  "ctl s = map (\<lambda>c. of_nat (of_char c) - 64) s"

definition ctlmap :: "nat \<Rightarrow> uchar" where
  "ctlmap = table (replicate 16 0 @ ctl ''QWERTYUIOP'' @ [0, 0, 13, 0] @ ctl ''ASDFGHJKL'' @ [0, 0, 0, 0] @ [28] @ ctl ''ZXCVBNM'' @ [0, 0] @ ctl ''/'')
     ([(0x9C, 13), (0xB5, 47 - 64)] @ keypad)"

text \<open>\<open>kbdgetc\<close> on the status and data ports; it returns the character and the new \<open>shift\<close> state.\<close>

definition kbdgetc :: "uint \<Rightarrow> uint \<Rightarrow> uint \<Rightarrow> int \<times> uint" where
  "kbdgetc st data shift = (if st AND 1 = 0 then (- 1, shift)
     else if data = 0xE0 then (0, shift OR E0ESC)
     else if data AND 0x80 \<noteq> 0 then
       let data = (if shift AND E0ESC \<noteq> 0 then data else data AND 0x7F)
       in (0, shift AND NOT (ucast (shiftcode (unat data)) OR E0ESC))
     else let (data, shift) = (if shift AND E0ESC \<noteq> 0 then (data OR 0x80, shift AND NOT E0ESC) else (data, shift));
       shift = shift OR ucast (shiftcode (unat data));
       shift = shift XOR ucast (togglecode (unat data));
       m = shift AND (CTL OR SHIFT);
       c = uint ((if m = 0 then normalmap else if m = 1 then shiftmap else ctlmap) (unat data));
       c = (if shift AND CAPSLOCK \<noteq> 0 then
              if 97 \<le> c \<and> c \<le> 122 then c - 32 else if 65 \<le> c \<and> c \<le> 90 then c + 32 else c
            else c)
     in (c, shift))"

subsection \<open>The cursor stays on the screen\<close>

definition screen_ok :: "'b consst_scheme \<Rightarrow> bool" where
  "screen_ok s \<longleftrightarrow> length (crt s) = 25 * 80 \<and> 0 \<le> crtpos s \<and> crtpos s < 24 * 80"

text \<open>The parts of the state that output to the console leaves alone.\<close>

definition same_input :: "'b consst_scheme \<Rightarrow> 'b consst_scheme \<Rightarrow> bool" where
  "same_input s s' \<longleftrightarrow> s' = s\<lparr>uart_out := uart_out s', crt := crt s', crtpos := crtpos s'\<rparr>"

lemma same_input_sel:
  assumes "same_input s s'"
  shows "cbuf s' = cbuf s" "cr s' = cr s" "cw s' = cw s" "ce s' = ce s" "c_dst s' = c_dst s" "panicked s' = panicked s"
    "held s' = held s" "ptable s' = ptable s" "c_proc s' = c_proc s" "uart s' = uart s"
proof -
  obtain a b c where "s' = s\<lparr>uart_out := a, crt := b, crtpos := c\<rparr>" using assms unfolding same_input_def by blast
  then show "cbuf s' = cbuf s" "cr s' = cr s" "cw s' = cw s" "ce s' = ce s" "c_dst s' = c_dst s" "panicked s' = panicked s"
    "held s' = held s" "ptable s' = ptable s" "c_proc s' = c_proc s" "uart s' = uart s" by simp_all
qed

lemma length_scroll: "length m = 2000 \<Longrightarrow> pos \<le> 1920 \<Longrightarrow> length (scroll pos m) = 2000"
  by (simp add: scroll_def Let_def)

lemma cgaputc_ok:
  assumes "screen_ok s"
  shows "\<exists>s'. cgaputc c s = Ok () s' \<and> screen_ok s' \<and> same_input s s'"
proof -
  have s: "length (crt s) = 2000" "0 \<le> crtpos s" "crtpos s < 1920" using assms by (simp_all add: screen_ok_def)
  have nl: "crtpos s + (80 - crtpos s mod 80) \<le> 1920" "0 \<le> crtpos s + (80 - crtpos s mod 80)"
    using s(2,3) by presburger+
  have "\<exists>pos t. cga_move c s = Ok pos t \<and> 0 \<le> pos \<and> pos \<le> 1920 \<and> length (crt t) = 2000 \<and> same_input s t"
    using s nl by (auto simp: cga_move_def same_input_def nat_less_iff)
  then obtain pos t where t: "cga_move c s = Ok pos t" "0 \<le> pos" "pos \<le> 1920" "length (crt t) = 2000" "same_input s t" by blast
  let ?p = "if pos div 80 \<ge> 24 then pos - 80 else pos"
  let ?m = "if pos div 80 \<ge> 24 then scroll (pos - 80) (crt t) else crt t"
  have p: "0 \<le> ?p" "?p < 1920" using t(2,3) by (auto simp: not_le)
  have m: "length ?m = 2000" using t(3,4) by (simp add: length_scroll)
  have r: "nat ?p < 2000" using p by linarith
  have "cgaputc c s = Ok () (t\<lparr>crtpos := ?p, crt := ?m[nat ?p := 0x0720]\<rparr>)"
  proof (cases "pos div 80 \<ge> 24")
    case True
    then show ?thesis using t(2,3) m r unfolding cgaputc_def by (simp add: bnd_Ok[of "cga_move c" s, OF t(1)])
  next
    case False
    then show ?thesis using t(2,3) m r unfolding cgaputc_def by (simp add: bnd_Ok[of "cga_move c" s, OF t(1)])
  qed
  moreover have "screen_ok (t\<lparr>crtpos := ?p, crt := ?m[nat ?p := 0x0720]\<rparr>)" using p m by (simp add: screen_ok_def)
  moreover obtain a b d where "t = s\<lparr>uart_out := a, crt := b, crtpos := d\<rparr>" using t(5) unfolding same_input_def by blast
  then have "same_input s (t\<lparr>crtpos := ?p, crt := ?m[nat ?p := 0x0720]\<rparr>)" by (simp add: same_input_def)
  ultimately show ?thesis by blast
qed

lemma uartputc_ok: "\<exists>s'. uartputc c s = Ok () s' \<and> same_input s s' \<and> screen_ok s' = screen_ok s"
  by (cases "uart s") (auto simp: uartputc_def same_input_def screen_ok_def whenM_def)

lemma same_input_trans: "same_input s t \<Longrightarrow> same_input t u \<Longrightarrow> same_input s u"
proof -
  assume 1: "same_input s t" and 2: "same_input t u"
  obtain a b c where t: "t = s\<lparr>uart_out := a, crt := b, crtpos := c\<rparr>" using 1 unfolding same_input_def by blast
  obtain d e f where u: "u = t\<lparr>uart_out := d, crt := e, crtpos := f\<rparr>" using 2 unfolding same_input_def by blast
  show ?thesis by (simp add: same_input_def t u)
qed

lemma consputc_ok:
  assumes "screen_ok s" "\<not> panicked s"
  shows "\<exists>s'. consputc c s = Ok () s' \<and> screen_ok s' \<and> same_input s s'"
proof -
  have "\<exists>t. (if c = BACKSPACE then seq (uartputc 8) (seq (uartputc 32) (uartputc 8)) else uartputc c) s = Ok () t \<and>
      same_input s t \<and> screen_ok t"
  proof (cases "c = BACKSPACE")
    case True
    obtain a where a: "uartputc 8 s = Ok () a" "same_input s a" "screen_ok a" using uartputc_ok[of 8 s] assms(1) by blast
    obtain b where b: "uartputc 32 a = Ok () b" "same_input a b" "screen_ok b" using uartputc_ok[of 32 a] a(3) by blast
    obtain d where d: "uartputc 8 b = Ok () d" "same_input b d" "screen_ok d" using uartputc_ok[of 8 b] b(3) by blast
    have "same_input s d" using same_input_trans a(2) b(2) d(2) by blast
    then show ?thesis using True a(1) b(1) d(1,3) by (simp add: seq_Ok)
  next
    case False
    then show ?thesis using uartputc_ok[of c s] assms(1) by auto
  qed
  then obtain t where t: "(if c = BACKSPACE then seq (uartputc 8) (seq (uartputc 32) (uartputc 8)) else uartputc c) s = Ok () t"
    "same_input s t" "screen_ok t" by blast
  obtain u where u: "cgaputc c t = Ok () u" "screen_ok u" "same_input t u" using cgaputc_ok[OF t(3)] by blast
  have "consputc c s = Ok () u" unfolding consputc_def using assms(2) t(1) u(1) by (simp only: bnd_gets if_False seq_Ok)
  then show ?thesis using u same_input_trans[OF t(2) u(3)] by blast
qed

text \<open>
  Claim C30. Writing to the console never fails: from a screen with the cursor in its first 24 lines, every sequence of
  characters is output without a panic or an access outside the video memory, the cursor stays in the first 24 lines, and
  the pending input is not touched.
\<close>

theorem console_output_safe:
  assumes "screen_ok s" "\<not> panicked s"
  shows "\<exists>s'. forM cs consputc s = Ok () s' \<and> screen_ok s' \<and> same_input s s'"
  using assms
proof (induction cs arbitrary: s)
  case Nil
  then show ?case by (simp add: same_input_def)
next
  case (Cons c cs)
  obtain t where t: "consputc c s = Ok () t" "screen_ok t" "same_input s t" using consputc_ok[OF Cons.prems] by blast
  have "\<not> panicked t" using same_input_sel(6)[OF t(3)] Cons.prems by simp
  then obtain u where u: "forM cs consputc t = Ok () u" "screen_ok u" "same_input t u" using Cons.IH[OF t(2)] by blast
  then show ?case using t same_input_trans[OF t(3) u(3)] by (simp add: seq_Ok)
qed

subsection \<open>The input ring as a line editor\<close>

text \<open>The bytes from the read index up to the edit index, and the part of them that is committed.\<close>

definition pending :: "'b consst_scheme \<Rightarrow> bytes" where
  "pending s = map (\<lambda>k. cbuf s ! ((unat (cr s) + k) mod INPUT_BUF)) [0..<unat (ce s - cr s)]"

definition committed :: "'b consst_scheme \<Rightarrow> bytes" where
  "committed s = take (unat (cw s - cr s)) (pending s)"

definition editing :: "'b consst_scheme \<Rightarrow> bytes" where
  "editing s = drop (unat (cw s - cr s)) (pending s)"

definition input_ok :: "'b consst_scheme \<Rightarrow> bool" where
  "input_ok s \<longleftrightarrow> length (cbuf s) = INPUT_BUF \<and> unat (cw s - cr s) \<le> unat (ce s - cr s) \<and> unat (ce s - cr s) \<le> INPUT_BUF \<and>
     screen_ok s \<and> \<not> panicked s \<and> held s = [L_cons]"

text \<open>The editor on lists.\<close>

definition edit_step :: "int \<Rightarrow> bytes \<times> bytes \<Rightarrow> bytes \<times> bytes" where
  "edit_step c = (\<lambda>(com, ed).
     if c = 16 then (com, ed)
     else if c = 21 then (com, rev (dropWhile (\<lambda>x. x \<noteq> 10) (rev ed)))
     else if c = 8 \<or> c = 0x7f then (com, butlast ed)
     else if c = 0 \<or> length com + length ed \<ge> INPUT_BUF then (com, ed)
     else let c = (if c = 13 then 10 else c); ed = ed @ [of_int c] in
       if c = 10 \<or> c = 4 \<or> length com + length ed = INPUT_BUF then (com @ ed, []) else (com, ed))"

lemma unat_mod_128: "unat (x + of_nat k :: uint) mod 128 = (unat x + k) mod 128"
proof -
  have "unat (x + of_nat k) mod 128 = (unat x + k) mod 2 ^ 32 mod 128"
    by (simp add: unat_word_ariths unat_of_nat mod_simps)
  also have "\<dots> = (unat x + k) mod 128" by (rule mod_mod_cancel) (simp add: dvd_power_le[of 2 _ 7 32, simplified])
  finally show ?thesis .
qed

lemma unat_ce_mod: "unat (ce s) mod 128 = (unat (cr s) + unat (ce s - cr s)) mod 128"
  using unat_mod_128[of "cr s" "unat (ce s - cr s)"] by simp

lemma pending_push:
  assumes "length (cbuf s) = INPUT_BUF" "unat (ce s - cr s) < INPUT_BUF"
  shows "pending (s\<lparr>cbuf := (cbuf s)[unat (ce s) mod INPUT_BUF := x], ce := ce s + 1\<rparr>) = pending s @ [x]"
    "unat (ce s + 1 - cr s) = unat (ce s - cr s) + 1"
proof -
  let ?n = "unat (ce s - cr s)"
  have n: "?n < 128" using assms(2) by (simp add: INPUT_BUF_def)
  have "ce s + 1 - cr s = (ce s - cr s) + 1" by simp
  also have "unat \<dots> = ?n + 1" using n by (simp add: unat_word_ariths)
  finally show n1: "unat (ce s + 1 - cr s) = ?n + 1" .
  have "(unat (cr s) + k) mod 128 \<noteq> (unat (cr s) + ?n) mod 128" if "k < ?n" for k
  proof
    assume "(unat (cr s) + k) mod 128 = (unat (cr s) + ?n) mod 128"
    then have "k mod 128 = ?n mod 128" by (simp add: nat_mod_eq_iff mod_eq_nat1E)
    then show False using that n by simp
  qed
  then have "(unat (cr s) + ?n) mod 128 \<noteq> (unat (cr s) + k) mod 128" if "k < ?n" for k using that by metis
  then show "pending (s\<lparr>cbuf := (cbuf s)[unat (ce s) mod INPUT_BUF := x], ce := ce s + 1\<rparr>) = pending s @ [x]"
    using assms(1) n n1 by (auto simp: pending_def INPUT_BUF_def unat_ce_mod)
qed

lemma pending_pop:
  assumes "0 < unat (ce s - cr s)"
  shows "pending (s\<lparr>ce := ce s - 1\<rparr>) = butlast (pending s)" "unat (ce s - 1 - cr s) = unat (ce s - cr s) - 1"
proof -
  have "ce s - 1 - cr s = (ce s - cr s) - 1" by simp
  also have "unat \<dots> = unat (ce s - cr s) - 1" using assms by (intro unat_minus_one) auto
  finally show n: "unat (ce s - 1 - cr s) = unat (ce s - cr s) - 1" .
  obtain m where "unat (ce s - cr s) = Suc m" using assms gr0_implies_Suc by blast
  then show "pending (s\<lparr>ce := ce s - 1\<rparr>) = butlast (pending s)" using n by (simp add: pending_def)
qed

lemma pending_split: "pending s = committed s @ editing s"
  by (simp add: committed_def editing_def)

lemma length_pending [simp]: "length (pending s) = unat (ce s - cr s)"
  by (simp add: pending_def)

lemma input_okD:
  assumes "input_ok s"
  shows "length (committed s) = unat (cw s - cr s)" "length (editing s) = unat (ce s - cr s) - unat (cw s - cr s)"
    "unat (ce s - cw s) = length (editing s)" "ce s = cw s \<longleftrightarrow> editing s = []"
    "length (committed s) + length (editing s) = unat (ce s - cr s)" "length (committed s) + length (editing s) \<le> INPUT_BUF"
proof -
  have i: "unat (cw s - cr s) \<le> unat (ce s - cr s)" "unat (ce s - cr s) \<le> INPUT_BUF" using assms by (simp_all add: input_ok_def)
  show 1: "length (committed s) = unat (cw s - cr s)" "length (editing s) = unat (ce s - cr s) - unat (cw s - cr s)"
    using i by (simp_all add: committed_def editing_def)
  have "ce s - cw s = (ce s - cr s) - (cw s - cr s)" by simp
  also have "unat \<dots> = unat (ce s - cr s) - unat (cw s - cr s)" by (rule unat_sub) (use i(1) in \<open>simp add: word_le_nat_alt\<close>)
  finally show 2: "unat (ce s - cw s) = length (editing s)" using 1 by simp
  then show "ce s = cw s \<longleftrightarrow> editing s = []"
    by (metis diff_self eq_iff_diff_eq_0 length_0_conv unat_0 unat_eq_zero)
  show "length (committed s) + length (editing s) = unat (ce s - cr s)" "length (committed s) + length (editing s) \<le> INPUT_BUF"
    using 1 i by simp_all
qed

lemma same_input_abs:
  assumes "same_input s s'" "input_ok s" "screen_ok s'"
  shows "input_ok s'" "pending s' = pending s" "committed s' = committed s" "editing s' = editing s"
  using same_input_sel[OF assms(1)] assms(2,3) by (simp_all add: input_ok_def pending_def committed_def editing_def)

text \<open>Taking back the last typed byte.\<close>

lemma backspace_ok:
  assumes "input_ok s" "editing s \<noteq> []"
  shows "\<exists>s'. seq (modify (\<lambda>s. s\<lparr>ce := ce s - 1\<rparr>)) (consputc BACKSPACE) s = Ok () s' \<and> input_ok s' \<and>
    committed s' = committed s \<and> editing s' = butlast (editing s)"
proof -
  let ?t = "s\<lparr>ce := ce s - 1\<rparr>"
  note d = input_okD[OF assms(1)]
  have n: "unat (cw s - cr s) < unat (ce s - cr s)" using d(2) assms(2) by (metis length_greater_0_conv zero_less_diff)
  note p = pending_pop[of s]
  have t: "input_ok ?t" using assms(1) p(2) n by (auto simp: input_ok_def screen_ok_def)
  have pt: "pending ?t = butlast (pending s)" using p(1) n by simp
  have "committed ?t = committed s" "editing ?t = butlast (editing s)"
    using n d(1) unfolding committed_def editing_def pt by (simp_all add: take_butlast drop_butlast)
  moreover obtain s' where s': "consputc BACKSPACE ?t = Ok () s'" "screen_ok s'" "same_input ?t s'"
    using consputc_ok[of ?t BACKSPACE] t by (auto simp: input_ok_def)
  ultimately show ?thesis using same_input_abs[OF s'(3) t s'(2)] by simp
qed

lemma last_pending:
  assumes "0 < unat (ce s - cr s)"
  shows "cbuf s ! (unat (ce s - 1) mod INPUT_BUF) = last (pending s)"
proof -
  have "unat (ce s - 1) mod 128 = (unat (cr s) + (unat (ce s - cr s) - 1)) mod 128"
    using unat_mod_128[of "cr s" "unat (ce s - cr s) - 1"] assms by (simp add: of_nat_diff)
  then show ?thesis using assms by (simp add: pending_def last_conv_nth INPUT_BUF_def)
qed

lemma killline_ok:
  assumes "input_ok s" "length (editing s) \<le> k"
  shows "\<exists>s'. killline k s = Ok () s' \<and> input_ok s' \<and> committed s' = committed s \<and>
    editing s' = rev (dropWhile (\<lambda>x. x \<noteq> 10) (rev (editing s)))"
  using assms
proof (induction k arbitrary: s)
  case 0
  then show ?case by simp
next
  case (Suc k)
  note d = input_okD[OF Suc.prems(1)]
  show ?case
  proof (cases "editing s = []")
    case True
    then show ?thesis using d(4) Suc.prems(1) by simp
  next
    case False
    then have "0 < unat (ce s - cr s)" using d(5) by (metis add_gr_0 length_greater_0_conv)
    then have l: "cbuf s ! (unat (ce s - 1) mod INPUT_BUF) = last (editing s)"
      using last_pending[of s] False by (simp add: pending_split[of s])
    obtain ed x where e: "editing s = ed @ [x]" using False by (meson rev_exhaust)
    show ?thesis
    proof (cases "x = 10")
      case True
      then show ?thesis using d(4) False l e Suc.prems(1) by simp
    next
      case x: False
      obtain t where t: "seq (modify (\<lambda>s. s\<lparr>ce := ce s - 1\<rparr>)) (consputc BACKSPACE) s = Ok () t" "input_ok t"
        "committed t = committed s" "editing t = ed" using backspace_ok[OF Suc.prems(1) False] e by auto
      have "length (editing t) \<le> k" using Suc.prems(2) e t(4) by simp
      from Suc.IH[OF t(2) this] obtain u where u: "killline k t = Ok () u" "input_ok u" "committed u = committed t"
        "editing u = rev (dropWhile (\<lambda>x. x \<noteq> 10) (rev ed))" using t(4) by auto
      have "consputc BACKSPACE (s\<lparr>ce := ce s - 1\<rparr>) = Ok () t" using t(1) by simp
      then have "killline (Suc k) s = Ok () u" using d(4) False l x e u(1) by (simp add: seq_Ok)
      then show ?thesis using u t(3) e x by auto
    qed
  qed
qed

text \<open>Typing one byte, and committing the line.\<close>

lemma type_ok:
  assumes "input_ok s" "unat (ce s - cr s) < INPUT_BUF"
  shows "\<exists>s'. seq (modify (\<lambda>s. s\<lparr>cbuf := (cbuf s)[unat (ce s) mod INPUT_BUF := of_int c], ce := ce s + 1\<rparr>)) (consputc c) s = Ok () s' \<and>
    input_ok s' \<and> committed s' = committed s \<and> editing s' = editing s @ [of_int c]"
proof -
  let ?t = "s\<lparr>cbuf := (cbuf s)[unat (ce s) mod INPUT_BUF := of_int c], ce := ce s + 1\<rparr>"
  have l: "length (cbuf s) = INPUT_BUF" "unat (cw s - cr s) \<le> unat (ce s - cr s)" using assms(1) by (simp_all add: input_ok_def)
  note p = pending_push(1)[OF l(1) assms(2), of "of_int c"] pending_push(2)[OF l(1) assms(2)]
  have t: "input_ok ?t" using assms p(2) by (simp add: input_ok_def screen_ok_def)
  have "committed ?t = committed s" "editing ?t = editing s @ [of_int c]"
    using l(2) unfolding committed_def editing_def p(1) by simp_all
  moreover obtain s' where s': "consputc c ?t = Ok () s'" "screen_ok s'" "same_input ?t s'"
    using consputc_ok[of ?t c] t by (auto simp: input_ok_def)
  ultimately show ?thesis using same_input_abs[OF s'(3) t s'(2)] by simp
qed

lemma commit_ok:
  assumes "input_ok s"
  shows "\<exists>s'. seq (modify (\<lambda>s. s\<lparr>cw := ce s\<rparr>)) (wakeup ChanInput) s = Ok () s' \<and> input_ok s' \<and>
    committed s' = committed s @ editing s \<and> editing s' = []"
proof -
  let ?t = "s\<lparr>cw := ce s\<rparr>"
  have w: "wakeup ChanInput ?t = Ok () (pmap (wake ChanInput) ?t)" using assms by (intro wakeup_eq) (simp add: input_ok_def)
  have p: "pending (pmap (wake ChanInput) ?t) = pending s" by (simp add: pending_def pmap_def)
  have "input_ok (pmap (wake ChanInput) ?t)" using assms by (simp add: input_ok_def pmap_def screen_ok_def)
  moreover have "committed (pmap (wake ChanInput) ?t) = committed s @ editing s" "editing (pmap (wake ChanInput) ?t) = []"
    unfolding committed_def[of "pmap (wake ChanInput) ?t"] editing_def[of "pmap (wake ChanInput) ?t"] p pending_split[symmetric]
    by (simp_all add: pmap_def)
  ultimately show ?thesis using w by simp
qed

lemma ring_full: "ce s = cr s + of_nat INPUT_BUF \<longleftrightarrow> unat (ce s - cr s) = INPUT_BUF"
proof -
  have "ce s = cr s + of_nat INPUT_BUF \<longleftrightarrow> ce s - cr s = of_nat INPUT_BUF" by (simp add: diff_eq_eq add.commute)
  also have "\<dots> \<longleftrightarrow> unat (ce s - cr s) = INPUT_BUF" by (simp add: word_unat_eq_iff INPUT_BUF_def)
  finally show ?thesis .
qed

lemma intr_default:
  assumes s: "input_ok s" and c: "c \<noteq> 16" "c \<noteq> 21" "c \<noteq> 8" "c \<noteq> 127"
  shows "\<exists>d' s'. intr_char c d s = Ok d' s' \<and> input_ok s' \<and> (committed s', editing s') = edit_step c (committed s, editing s)"
proof (cases "c \<noteq> 0 \<and> unat (ce s - cr s) < INPUT_BUF")
  case False
  then have "\<not> (c \<noteq> 0 \<and> ce s - cr s < of_nat INPUT_BUF)" by (simp add: word_less_nat_alt INPUT_BUF_def)
  moreover have "c = 0 \<or> INPUT_BUF \<le> length (committed s) + length (editing s)" using False input_okD(5)[OF s] by auto
  ultimately show ?thesis using c s by (auto simp: intr_char_def edit_step_def)
next
  case True
  let ?c = "if c = 13 then 10 else c"
  have b: "(c \<noteq> 0 \<and> ce s - cr s < of_nat INPUT_BUF) = True" using True by (simp add: word_less_nat_alt INPUT_BUF_def)
  obtain t where t: "seq (modify (\<lambda>s. s\<lparr>cbuf := (cbuf s)[unat (ce s) mod INPUT_BUF := of_int ?c], ce := ce s + 1\<rparr>)) (consputc ?c) s = Ok () t"
    "input_ok t" "committed t = committed s" "editing t = editing s @ [of_int ?c]" using type_ok[OF s] True by blast
  let ?k = "?c = 10 \<or> ?c = 4 \<or> ce t = cr t + of_nat INPUT_BUF"
  have k: "?k \<longleftrightarrow> ?c = 10 \<or> ?c = 4 \<or> length (committed s) + length (editing t) = INPUT_BUF"
    unfolding ring_full using input_okD(5)[OF t(2)] t(3) by simp
  obtain u where u: "whenM ?k (seq (modify (\<lambda>s. s\<lparr>cw := ce s\<rparr>)) (wakeup ChanInput)) t = Ok () u" "input_ok u"
    "(committed u, editing u) = (if ?k then (committed s @ editing t, []) else (committed s, editing t))"
  proof (cases ?k)
    case True
    from commit_ok[OF t(2)] obtain u where "seq (modify (\<lambda>s. s\<lparr>cw := ce s\<rparr>)) (wakeup ChanInput) t = Ok () u" "input_ok u"
      "committed u = committed t @ editing t" "editing u = []" by blast
    with that[of u] True t(3) show ?thesis by (simp only: whenM_simps if_True)
  next
    case False
    with that[of t] t(2,3) show ?thesis by (simp only: whenM_simps if_False)
  qed
  have "intr_char c d s = bnd (gets (\<lambda>s. ?c = 10 \<or> ?c = 4 \<or> ce s = cr s + of_nat INPUT_BUF)) (\<lambda>b.
      seq (whenM b (seq (modify (\<lambda>s. s\<lparr>cw := ce s\<rparr>)) (wakeup ChanInput))) (ret d)) t"
  proof -
    have "consputc ?c (s\<lparr>cbuf := (cbuf s)[unat (ce s) mod INPUT_BUF := of_int ?c], ce := ce s + 1\<rparr>) = Ok () t" using t(1) by simp
    then show ?thesis using c b unfolding intr_char_def Let_def by (simp add: seq_Ok)
  qed
  also have "\<dots> = Ok d u" by (simp only: bnd_gets seq_Ok u(1))
  finally have "intr_char c d s = Ok d u" .
  moreover have "(committed u, editing u) = edit_step c (committed s, editing s)"
    using u(3) c True k t(4) input_okD(5)[OF s] by (simp add: edit_step_def Let_def)
  ultimately show ?thesis using u(2) by blast
qed

text \<open>
  Claim C31. The ring buffer of the console with its read, write and edit indices (32-bit counters that wrap) implements a line
  editor on two lists: every character an interrupt delivers changes the committed input and the line being edited as \<open>edit_step\<close> says
  (erase, kill line, carriage return to newline, commit at newline, end of file or a full buffer, drop when full), and the ring
  invariant is kept.
\<close>

theorem console_line_editor:
  assumes "input_ok s"
  shows "\<exists>d' s'. intr_char c d s = Ok d' s' \<and> input_ok s' \<and> (committed s', editing s') = edit_step c (committed s, editing s)"
proof -
  consider "c = 16" | "c = 21" | "c = 8 \<or> c = 127" | "c \<noteq> 16" "c \<noteq> 21" "c \<noteq> 8" "c \<noteq> 127" by blast
  then show ?thesis
  proof cases
    case 1
    then have "intr_char c d s = Ok True s" by (simp add: intr_char_def)
    then show ?thesis using 1 assms by (intro exI[of _ True] exI[of _ s]) (simp add: edit_step_def)
  next
    case 2
    have "length (editing s) \<le> unat (ce s - cw s)" using input_okD(3)[OF assms] by simp
    from killline_ok[OF assms this] obtain t where t: "killline (unat (ce s - cw s)) s = Ok () t" "input_ok t"
      "committed t = committed s" "editing t = rev (dropWhile (\<lambda>x. x \<noteq> 10) (rev (editing s)))" by blast
    have "intr_char c d s = Ok d t" using 2 using t(1) by (simp add: intr_char_def seq_Ok)
    then show ?thesis using t 2 by (auto simp: edit_step_def)
  next
    case 3
    show ?thesis
    proof (cases "editing s = []")
      case True
      then show ?thesis using 3 assms input_okD(4)[OF assms] by (auto simp: intr_char_def edit_step_def)
    next
      case False
      then obtain t where t: "seq (modify (\<lambda>s. s\<lparr>ce := ce s - 1\<rparr>)) (consputc BACKSPACE) s = Ok () t" "input_ok t"
        "committed t = committed s" "editing t = butlast (editing s)" using backspace_ok[OF assms] by blast
      have "(ce s \<noteq> cw s) = True" using input_okD(4)[OF assms] False by simp
      moreover have "consputc BACKSPACE (s\<lparr>ce := ce s - 1\<rparr>) = Ok () t" using t(1) by simp
      ultimately have "intr_char c d s = Ok d t" using 3 by (auto simp: intr_char_def seq_Ok)
      then show ?thesis using t 3 by (auto simp: edit_step_def)
    qed
  next
    case 4
    then show ?thesis by (rule intr_default[OF assms])
  qed
qed

definition cons0 :: consst where
  "cons0 = kcore.extend (kcore0\<lparr>held := [L_cons]\<rparr>)
     (consst.fields False True False [] (replicate 2000 0) 0 (replicate 128 0) 0 0 0 [])"

lemma cons0_ok: "input_ok cons0" "screen_ok cons0" "\<not> panicked cons0" "committed cons0 = []" "editing cons0 = []"
proof -
  have s: "held cons0 = [L_cons]" "crt cons0 = replicate 2000 0" "crtpos cons0 = 0" "cbuf cons0 = replicate 128 0"
    "cr cons0 = 0" "cw cons0 = 0" "ce cons0 = 0" "\<not> panicked cons0"
    by (simp_all add: cons0_def kcore.defs consst.defs)
  show "input_ok cons0" "screen_ok cons0" "\<not> panicked cons0" "committed cons0 = []" "editing cons0 = []"
    using s by (simp_all add: input_ok_def screen_ok_def committed_def editing_def pending_def INPUT_BUF_def)
qed

theorem console_output_safe_witness:
  "screen_ok cons0 \<and> \<not> panicked cons0 \<and> (\<exists>s'. forM [104, 105, 10, BACKSPACE] consputc cons0 = Ok () s' \<and> screen_ok s' \<and> same_input cons0 s')"
  using console_output_safe[OF cons0_ok(2,3), of "[104, 105, 10, BACKSPACE]"] cons0_ok(2,3) by blast

theorem console_line_editor_witness:
  "input_ok cons0 \<and> (\<exists>d' s'. intr_char 104 False cons0 = Ok d' s' \<and> input_ok s' \<and> committed s' = [] \<and> editing s' = [104])"
  using console_line_editor[OF cons0_ok(1), of 104 False] cons0_ok by (auto simp: edit_step_def INPUT_BUF_def)

end
