(* ===== verification/Spec2Isabelle.thy ===== *)
theory Spec2Isabelle
  imports Grep Ide Typed Sh Console
begin

text \<open>
  A verification development for the xv6 based operating system under src/xv6-public: a 32 bit
  multiprocessor kernel with a multi level feedback queue and a stride scheduler, a logged file system with doubly and triply
  indirect blocks, and a shell and tools on top of it.

  \<^bold>\<open>How the program is modelled.\<close>  A kernel operation is a function from a state to an
  outcome (theory Prelude): \<open>Ok\<close> with a value and the new state, \<open>Swtch\<close> when the thread gives up the CPU inside the
  operation, \<open>Panic\<close> with the message of the source, \<open>Fault\<close> for an undefined operation of C such as a null
  dereference or an overflow, \<open>Hang\<close> for a loop that does not end.  The code after a \<open>sched\<close> is a definition of its
  own, named with the suffix \<open>_resume\<close> or \<open>_wake\<close>.  The state is one record, extended by every layer: processes, CPU and held
  locks (Kstate), physical memory (Kalloc), sleep locks (Sleeplock), buffer cache and disk (Bio), log (Log), inodes (Fs), pipes (Pipe), open files (File); the
  console (Console) extends the process state separately.  Machine integers are words of their width; the blocks of the disk
  and the buffers of callers are lists of bytes.  User memory appears as the bytes that are passed in and out, in Proc, Exec and Syscall as the
  memory behind the page table of the CPU.

  \<^bold>\<open>The theories.\<close>
  \<^item> Prelude: outcomes and their combinators, byte encodings, slices, shared lemmas.
  \<^item> Cstring (string.c, ulib.c): the memory and string routines on an address indexed memory. \<open>memmove\<close> copies
    as through a temporary, the two paths of \<open>memset\<close> agree, \<open>safestrcpy\<close> terminates its result.
  \<^item> Grep (grep.c): the matcher decides the language of its pattern; which lines are printed for which chunks of input.
  \<^item> Locks (spinlock.c, \<open>cpuid\<close> and \<open>mycpu\<close> of proc.c): spin locks on several CPUs, each instruction that touches
    the lock word one step of an interleaving.  Mutual exclusion, and exactly when the operations panic.
  \<^item> Double: the \<open>double\<close> arithmetic of the stride scheduler on values the code can reach.
  \<^item> Kstate (proc.h; \<open>sched\<close>, \<open>yield\<close>, \<open>sleep\<close>, \<open>wakeup\<close>, \<open>kill\<close> of proc.c): the process table and the
    operations that change the state of a process.  A wakeup is not lost.
  \<^item> Sched (the scheduler part of proc.c, set_cpu_share.c, the timer part of trap.c): the level scans end and exhaust
    their level, the last slot is never chosen, the demotion schedule, the choice of \<open>findMinPass\<close>, the accounting of shares.
  \<^item> Pool: the contract of an allocator, a locale with its consequences for clients.
  \<^item> Kalloc (kalloc.c): the free list in physical memory, an interpretation of the contract.
  \<^item> Sleeplock (sleeplock.c), Bio (bio.c, memide.c): the buffer cache, its invariant, the logical contents of
    blocks and the least recently used order as a refinement of the linked ring.
  \<^item> Ide (ide.c): the other driver of the same interface, with its queue of requests to a disk controller.  Requests are served in
    the order of their arrival, and the process that waits for one is woken when it is done.
  \<^item> Log (log.c, \<open>readsb\<close>): transactions.  The lemmas named \<open>_view\<close> describe each operation on the logical
    blocks, the disk, the trace of disk writes, the dirty blocks and the locked buffers; from them follows that a commit is atomic for a
    crash between any two disk writes.
  \<^item> Fs (fs.c): block and inode allocation, the inode cache, the block map with its indirect levels, reading and writing,
    directories and path names.
  \<^item> Fsblocks (fs.c inside a transaction): block allocation and the inode blocks on the logical contents of the disk.  \<open>balloc\<close>
    takes a free block and zeroes it, \<open>bfree\<close> gives exactly one back, what \<open>iupdate\<close> writes \<open>ilock\<close> reads.
  \<^item> Vm (vm.c): page tables in physical memory and the address spaces built from them.
  \<^item> Pipe (pipe.c): the ring buffer of a pipe, with counters that wrap around, implements a bounded queue, a locale
    with its consequences for clients; reading gives back what was written, and a writer that fills the pipe sleeps.
  \<^item> File (file.c, \<open>pipealloc\<close>): the table of open files, a second interpretation of the allocator contract, and reading and
    writing through it, including \<open>pfileread\<close> and \<open>pfilewrite\<close>.
  \<^item> Proc (the process part of proc.c): creation, growth, exit, wait and join of processes and threads, with the access of the
    kernel to user memory through the page table.  A fresh entry of the table, the handshake of \<open>exit\<close> and \<open>wait\<close>, the
    operations that keep a predicate, and what \<open>thread_join\<close> does to a child it was not asked for.
  \<^item> Exec (exec.c): loading a program, its arguments and stacks, and the end of the other threads of the process.
  \<^item> Syscall (syscall.c, sysproc.c, sysfile.c, trap.c): arguments from user memory, file descriptors, the 29 system calls, their
    dispatch, traps.  Pointers and strings that are accepted lie inside the process; the descriptors of a process are a third
    interpretation of the allocator contract, and the least free one is taken.
  \<^item> Typed: every operation of the kernel keeps the shape of the process table, from the sleep locks up to \<open>trap\<close>; a process that
    has been killed does not return to user mode.
  \<^item> Printf (printf.c, \<open>cprintf\<close>), Console (console.c, kbd.c, the output half of uart.c): formatted output, the screen,
    the line editor as a refinement of an editor on lists, the keyboard state machine.
  \<^item> Sh (sh.c): the parser and the execution of commands as the tree of system calls; parsing ends for every line.

  \<^bold>\<open>Bounds and fuel.\<close>  The loops of the source are structural recursion or functions with a termination proof.  The
  level scan of the scheduler is a partial function whose value \<open>None\<close> is a scan that never ends; that it does end is a
  theorem.  The mutually recursive parser of the shell carries fuel, four times the length of the line and eight; that it is never
  used up is a theorem as well.

  \<^bold>\<open>Parameters.\<close>  The code a chosen process runs is a state transformer argument of the scheduler; the
  addresses the linker assigns, the initial disk image and, in \<open>trap\<close>, the console interrupt handlers are arguments as well.

  \<^bold>\<open>Not modelled.\<close>  The programming of the interrupt controllers and of the serial line (lapic.c, ioapic.c, picirq.c, the initialisation of uart.c), the set up of segments and of the interrupt table, the
  discovery of processors (mp.c), boot code and assembly; the host tool mkfs.c and the user allocator umalloc.c; the test programs and the thin user programs around a system call;
  proj_shell, which is made of calls to the C library of its host.
\<close>

end
